(* ===== verification/Pbft_Prelude.thy ===== *)
theory Pbft_Prelude
  imports
    Complex_Main
    "HOL-Library.Word"
    "HOL-Library.AList"
    "HOL-Library.Monad_Syntax"
    "HOL-Library.Char_ord"
    "HOL-Library.List_Lexorder"
    "HOL-Library.Multiset"
begin

text \<open>
  The ground the components stand on: how values of the Go program are represented, the few
  operations of the Go runtime and standard library that the sources use, and the lemmas on
  lists and association lists that several components share.

  \<^item> A pointer or interface value that may be nil is an \<open>option\<close> (\<open>ptr\<close>), nil being \<open>None\<close>.
  \<^item> A function whose execution may end in a run-time panic returns \<open>'a go\<close>, an \<open>option\<close> in
    which \<open>None\<close> is the panic. Dereferencing a nil pointer is then the monadic bind of the
    pointer itself.
  \<^item> \<open>uint64\<close> is \<open>64 word\<close>; \<open>int64\<close> and \<open>time.Duration\<close> are \<open>64 word\<close> read by \<open>sint\<close>;
    \<open>*big.Int\<close> is a pointer to \<open>int\<close>; \<open>int\<close> (a length or a vote count) is \<open>int\<close>.
  \<^item> A Go map is an association list with distinct keys. The order of its entries is one of the
    orders in which Go may iterate over the map.
\<close>

named_theorems go_simps \<open>unfoldings of the Go runtime model\<close>
named_theorems frame \<open>which parts of the state an operation leaves alone\<close>
named_theorems inv_pres \<open>operations that keep an invariant\<close>

section \<open>Go values\<close>

type_synonym 'a ptr = "'a option"
type_synonym 'a go = "'a option"
type_synonym u64 = "64 word"
type_synonym i64 = "64 word"
type_synonym byte = "8 word"
type_synonym bytes = "byte list"

abbreviation (input) panic :: "'a go" where
  "panic \<equiv> None"

abbreviation (input) ret :: "'a \<Rightarrow> 'a go" where
  "ret \<equiv> Some"

text \<open>\<open>(*big.Int).Cmp\<close>, \<open>(*big.Int).Uint64\<close> (the low 64 bits of the absolute value) and
  \<open>big.NewInt(int64(x))\<close>.\<close>

definition big_Cmp :: "int \<Rightarrow> int \<Rightarrow> int" where
  "big_Cmp x y = (if x < y then -1 else if x > y then 1 else 0)"

definition big_Uint64 :: "int \<Rightarrow> u64" where
  "big_Uint64 x = word_of_int \<bar>x\<bar>"

definition big_of_u64 :: "u64 \<Rightarrow> int" where
  "big_of_u64 x = sint x"

lemma big_Cmp_simps [simp]:
  "big_Cmp x y = 0 \<longleftrightarrow> x = y"
  "0 = big_Cmp x y \<longleftrightarrow> x = y"
  "big_Cmp x y < 0 \<longleftrightarrow> x < y"
  "0 < big_Cmp x y \<longleftrightarrow> y < x"
  "0 \<le> big_Cmp x y \<longleftrightarrow> y \<le> x"
  by (auto simp: big_Cmp_def)

lemma big_of_u64_small: "unat x < 2 ^ 63 \<Longrightarrow> big_of_u64 x = int (unat x)"
proof -
  assume "unat x < 2 ^ 63"
  then have "uint x < 2 ^ 63"
    by (metis of_nat_less_iff of_nat_numeral of_nat_power uint_nat)
  then have "signed_take_bit 63 (uint x) = uint x"
    by (intro signed_take_bit_int_eq_self) (use uint_ge_0 [of x] in linarith)+
  then have "sint x = uint x" by (simp add: sint_uint)
  then show ?thesis by (simp add: big_of_u64_def)
qed

lemma big_Uint64_of_u64: "unat x < 2 ^ 63 \<Longrightarrow> big_Uint64 (big_of_u64 x) = x"
  by (simp add: big_Uint64_def big_of_u64_small)

text \<open>A run that does not panic goes through its steps.\<close>

lemma bind_SomeE:
  assumes "Option.bind m f = Some y"
  obtains x where "m = Some x" "f x = Some y"
  using assms by (auto simp: bind_eq_Some_conv)

section \<open>Maps as association lists\<close>

abbreviation (input) keys :: "('k \<times> 'v) list \<Rightarrow> 'k list" where
  "keys m \<equiv> map fst m"

lemma distinct_keys_update [simp]: "distinct (keys (AList.update k v m)) \<longleftrightarrow> distinct (keys m)"
  by (induction m) (auto simp: AList.update_keys dom_update)

lemma set_keys_update [simp]: "set (keys (AList.update k v m)) = insert k (set (keys m))"
  by (simp flip: dom_map_of_conv_image_fst image_set add: AList.update_conv' fun_upd_def dom_def) auto

lemma in_update:
  "p \<in> set (AList.update k v m) \<Longrightarrow> p = (k, v) \<or> p \<in> set m"
  by (induction m) (auto split: if_splits)

lemma length_keys_card: "distinct (keys m) \<Longrightarrow> length m = card (set (keys m))"
  by (metis distinct_card length_map)

lemma length_update:
  "length (AList.update k v m) = (if k \<in> set (keys m) then length m else Suc (length m))"
  by (induction m) auto


text \<open>A map variable that may be nil: reading and deleting treat nil as empty, storing into it
  panics.\<close>

type_synonym ('k, 'v) gomap = "('k \<times> 'v) list ptr"

definition mapEntries :: "('k, 'v) gomap \<Rightarrow> ('k \<times> 'v) list" where
  "mapEntries m = (case m of None \<Rightarrow> [] | Some l \<Rightarrow> l)"

definition mapGet :: "('k, 'v) gomap \<Rightarrow> 'k \<Rightarrow> 'v option" where
  "mapGet m k = map_of (mapEntries m) k"

definition mapPut :: "('k, 'v) gomap \<Rightarrow> 'k \<Rightarrow> 'v \<Rightarrow> ('k, 'v) gomap go" where
  "mapPut m k v = map_option (\<lambda>l. Some (AList.update k v l)) m"

definition mapDelete :: "('k, 'v) gomap \<Rightarrow> 'k \<Rightarrow> ('k, 'v) gomap" where
  "mapDelete m k = map_option (AList.delete k) m"

definition mapLen :: "('k, 'v) gomap \<Rightarrow> int" where
  "mapLen m = int (length (mapEntries m))"

lemma mapPut_Some [simp]: "mapPut (Some l) k v = Some (Some (AList.update k v l))"
  and mapPut_None [simp]: "mapPut None k v = None"
  and mapPut_eq_Some: "mapPut m k v = Some m' \<longleftrightarrow> (\<exists>l. m = Some l \<and> m' = Some (AList.update k v l))"
  by (auto simp: mapPut_def)

lemma mapGet_simps [simp]:
  "mapGet None k = None"
  "mapGet (Some []) k = None"
  "mapGet (Some (AList.update k v l)) = (mapGet (Some l))(k := Some v)"
  "mapGet (mapDelete m k) = (mapGet m)(k := None)"
  by (auto simp: mapGet_def mapEntries_def mapDelete_def update_conv' delete_conv' fun_eq_iff split: option.splits)

lemma mapDelete_Some [simp]: "mapDelete (Some l) k = Some (AList.delete k l)"
  and mapDelete_None_iff [simp]: "mapDelete m k = None \<longleftrightarrow> m = None"
  by (auto simp: mapDelete_def)

text \<open>The keys of a map, and that they are distinct.\<close>

definition mapKeys :: "('k, 'v) gomap \<Rightarrow> 'k set" where
  "mapKeys m = set (keys (mapEntries m))"

definition map_ok :: "('k, 'v) gomap \<Rightarrow> bool" where
  "map_ok m \<longleftrightarrow> distinct (keys (mapEntries m))"

lemma mapKeys_simps [simp]:
  "mapKeys None = {}"
  "mapKeys (Some []) = {}"
  "mapKeys (Some (AList.update k v l)) = insert k (mapKeys (Some l))"
  "mapKeys (mapDelete m k) = mapKeys m - {k}"
  by (auto simp: mapKeys_def mapEntries_def mapDelete_def delete_keys split: option.splits
      simp del: AList.update.simps simp flip: set_map)

lemma map_ok_simps [simp]:
  "map_ok None"
  "map_ok (Some [])"
  "map_ok (Some (AList.update k v l)) \<longleftrightarrow> map_ok (Some l)"
  "map_ok m \<Longrightarrow> map_ok (mapDelete m k)"
  by (auto simp: map_ok_def mapEntries_def mapDelete_def distinct_delete split: option.splits)

lemma mapLen_card: "map_ok m \<Longrightarrow> mapLen m = int (card (mapKeys m))"
  by (simp add: mapLen_def map_ok_def mapKeys_def length_keys_card)

lemma mapGet_None_iff: "mapGet m k = None \<longleftrightarrow> k \<notin> mapKeys m"
  by (auto simp: mapGet_def mapKeys_def map_of_eq_None_iff)

end
