(* ===== verification/Pbft_Protocol.thy ===== *)
theory Pbft_Protocol
  imports Pbft_Prelude
begin

text \<open>
  The data of package \<open>protocol\<close> (src/protocol): views, proposals, the three message bodies, the
  signed message, the consensus states, the proposer policies and the error values of packages
  \<open>protocol\<close>, \<open>core\<close> and \<open>pbft\<close>; the comparisons on views and states, how they print; and the record \<open>lib\<close> that
  gathers the third-party functions the sources call. Nothing is assumed about the fields of
  \<open>lib\<close>; a theorem that needs documented behaviour of one of them has it as a hypothesis
  (\<open>hash_ok\<close>, \<open>codec_ok\<close>, \<open>decode_allocates\<close>).
\<close>

section \<open>Data\<close>

text \<open>\<open>types.Hash\<close> is a fixed-size byte array whose zero value is \<open>types.Hash{}\<close>;
  \<open>signature.SignResult\<close> is only passed around.\<close>

type_synonym Hash = "256 word"
type_synonym SignResult = bytes

abbreviation (input) emptyHash :: Hash where
  "emptyHash \<equiv> 0"

record View =
  Sequence :: "int ptr"
  Round :: "int ptr"

abbreviation (input) mkView :: "int \<Rightarrow> int \<Rightarrow> View" where
  "mkView s r \<equiv> \<lparr>Sequence = Some s, Round = Some r\<rparr>"

text \<open>\<open>Proposal\<close> is the interface of a block during consensus. A value of it is its three methods
  and, as \<open>Block\<close>, the encoded block that is its dynamic value.\<close>

record Proposal =
  Height :: u64
  PHash :: Hash
  Timestamp :: u64
  Block :: bytes

record Request =
  rqProposal :: "Proposal ptr"

record PrePrepare =
  ppView :: "View ptr"
  ppProposal :: "Proposal ptr"

record Subject =
  sbView :: "View ptr"
  Digest :: Hash

datatype State = StateAcceptRequest | StatePrePrepared | StatePrepared | StateCommitted

type_synonym ProposerPolicy = u64

abbreviation (input) RoundRobin :: ProposerPolicy where
  "RoundRobin \<equiv> 0"

abbreviation (input) Sticky :: ProposerPolicy where
  "Sticky \<equiv> 1"

abbreviation (input) MsgPrePrepare :: u64 where
  "MsgPrePrepare \<equiv> 0"

abbreviation (input) MsgPrepare :: u64 where
  "MsgPrepare \<equiv> 1"

abbreviation (input) MsgCommit :: u64 where
  "MsgCommit \<equiv> 2"

abbreviation (input) MsgRoundChange :: u64 where
  "MsgRoundChange \<equiv> 3"

record Message =
  Code :: u64
  Msg :: bytes
  MsgValidator :: string
  Signature :: "SignResult ptr"
  CommittedSeal :: "SignResult ptr"

text \<open>The error values of src/protocol/errors.go, src/core/errorx.go and src/errorx.go;
  \<open>ErrLib\<close> is an error made by third-party code.\<close>

datatype err =
    ErrUnauthorized | ErrStoppedEngine | ErrStartedEngine | ErrOldMessage | ErrUnknownAncestor
  | ErrFutureBlock
  | errInconsistentSubject | errNotFromProposer | errIgnored | errFutureMessage | errInvalidMessage
  | errFailedDecodePrePrepare | errFailedDecodePrepare | errFailedDecodeCommit
  | errInvalidProposal | errInvalidCommittedSeals | errEmptyCommittedSeals | errMismatchTxRoot
  | errBlockIsGenesis | errUnknownBlock | errInvalidConsensusData | errInvalidTimestamp
  | errInvalidSignature | errInvalidVotingChain | errBlockSmall
  | ErrLib string

section \<open>Comparisons\<close>

text \<open>\<open>(*View).Cmp\<close>: the sequence decides, then the round; a nil number is dereferenced.\<close>

definition View_Cmp :: "View \<Rightarrow> View \<Rightarrow> int go" where
  "View_Cmp v y = do {
     s \<leftarrow> Sequence v;
     s' \<leftarrow> Sequence y;
     if big_Cmp s s' \<noteq> 0 then ret (big_Cmp s s')
     else do {
       r \<leftarrow> Round v;
       r' \<leftarrow> Round y;
       if big_Cmp r r' \<noteq> 0 then ret (big_Cmp r r') else ret 0
     }
   }"

fun State_num :: "State \<Rightarrow> nat" where
  "State_num StateAcceptRequest = 0"
| "State_num StatePrePrepared = 1"
| "State_num StatePrepared = 2"
| "State_num StateCommitted = 3"

definition State_Cmp :: "State \<Rightarrow> State \<Rightarrow> int" where
  "State_Cmp s y =
     (if State_num s < State_num y then -1 else if State_num s > State_num y then 1 else 0)"

fun State_String :: "State \<Rightarrow> string" where
  "State_String StateAcceptRequest = ''Accept request''"
| "State_String StatePrePrepared = ''PrePrepared''"
| "State_String StatePrepared = ''Prepared''"
| "State_String StateCommitted = ''Committed''"

text \<open>The phases are linearly ordered by their numbers, so that the library's order applies.\<close>

instantiation State :: linorder
begin
definition less_eq_State :: "State \<Rightarrow> State \<Rightarrow> bool" where
  "less_eq_State s y \<longleftrightarrow> State_num s \<le> State_num y"
definition less_State :: "State \<Rightarrow> State \<Rightarrow> bool" where
  "less_State s y \<longleftrightarrow> State_num s < State_num y"
instance
proof
  fix x y :: State
  show "x \<le> y \<Longrightarrow> y \<le> x \<Longrightarrow> x = y"
    by (cases x; cases y) (simp_all add: less_eq_State_def)
qed (auto simp: less_eq_State_def less_State_def)
end

lemma State_Cmp_iff [simp]:
  "State_Cmp s y < 0 \<longleftrightarrow> s < y"
  "State_Cmp s y = 0 \<longleftrightarrow> s = y"
  "0 < State_Cmp s y \<longleftrightarrow> y < s"
  by (cases s; cases y; simp add: State_Cmp_def less_State_def)+

lemma State_less_simps [simp]:
  "s < StatePrepared \<longleftrightarrow> s = StateAcceptRequest \<or> s = StatePrePrepared"
  "s < StateCommitted \<longleftrightarrow> s \<noteq> StateCommitted"
  by (cases s; simp add: less_State_def)+

lemma View_Cmp_mkView [simp]:
  "View_Cmp (mkView s r) (mkView s' r') =
     ret (if s \<noteq> s' then big_Cmp s s' else big_Cmp r r')"
  by (simp add: View_Cmp_def)

section \<open>Third-party functions\<close>

text \<open>
  \<open>lib\<close> holds what the sources take from other packages: \<open>types.Hash.Nil\<close> and \<open>.Bytes\<close>,
  \<open>types.BytesToHash(sha3.Keccak256(_))\<close>, \<open>models.IDFromString\<close> (its error is ignored by the
  callers), \<open>codec.Coder().Encode\<close> and \<open>.Decode\<close> at the types the sources use (an encoder's or
  decoder's \<open>None\<close> is its error), which entry \<open>preque.Prque.Pop\<close> takes from the priorities of a
  queue, whether an \<open>lru.ARCCache\<close> of a size answers a \<open>Get\<close> after a history of operations, and
  how the platform converts a \<open>float64\<close> power of two that does not fit an \<open>int64\<close>.
\<close>

datatype 'k cache_op = CGet 'k | CAdd 'k

type_synonym 'k cache = "'k cache_op list"

record lib =
  hashNil :: "Hash \<Rightarrow> bool"
  hashBytes :: "Hash \<Rightarrow> bytes"
  keccakHash :: "bytes \<Rightarrow> Hash"
  IDFromString :: "string \<Rightarrow> string"
  encodePrePrepare :: "PrePrepare \<Rightarrow> bytes option"
  decodePrePrepare :: "bytes \<Rightarrow> PrePrepare ptr option"
  encodeSubject :: "Subject \<Rightarrow> bytes option"
  decodeSubject :: "bytes \<Rightarrow> Subject ptr option"
  encodeMessage :: "Message \<Rightarrow> bytes option"
  decodeMessage :: "bytes \<Rightarrow> Message option"
  popIndex :: "int list \<Rightarrow> nat"
  arcHitStr :: "nat \<Rightarrow> string cache \<Rightarrow> string \<Rightarrow> bool"
  arcHitHash :: "nat \<Rightarrow> Hash cache \<Rightarrow> Hash \<Rightarrow> bool"
  f64ToI64Overflow :: "nat \<Rightarrow> i64"

text \<open>Documented behaviour: \<open>Nil\<close> recognises exactly the zero hash; a decoder that succeeds leaves no nil
  pointer in what it decodes; a decoder inverts its encoder on values without nil pointers (a signature
  and a seal of a message may be nil, as their tags say).\<close>

definition hash_ok :: "lib \<Rightarrow> bool" where
  "hash_ok L \<longleftrightarrow> (\<forall>h. hashNil L h \<longleftrightarrow> h = emptyHash)"

definition view_full :: "View ptr \<Rightarrow> bool" where
  "view_full v \<longleftrightarrow> (\<exists>s r. v = Some (mkView s r))"

definition decode_allocates :: "lib \<Rightarrow> bool" where
  "decode_allocates L \<longleftrightarrow>
     (\<forall>b p. decodePrePrepare L b = Some p \<longrightarrow>
        (\<exists>pp q. p = Some pp \<and> view_full (ppView pp) \<and> ppProposal pp = Some q)) \<and>
     (\<forall>b p. decodeSubject L b = Some p \<longrightarrow> (\<exists>sub. p = Some sub \<and> view_full (sbView sub)))"

definition codec_ok :: "lib \<Rightarrow> bool" where
  "codec_ok L \<longleftrightarrow>
     decode_allocates L \<and>
     (\<forall>x b. view_full (ppView x) \<and> ppProposal x \<noteq> None \<and> encodePrePrepare L x = Some b \<longrightarrow>
        decodePrePrepare L b = Some (Some x)) \<and>
     (\<forall>x b. view_full (sbView x) \<and> encodeSubject L x = Some b \<longrightarrow> decodeSubject L b = Some (Some x)) \<and>
     (\<forall>x b. encodeMessage L x = Some b \<longrightarrow> decodeMessage L b = Some x)"

lemma decode_allocatesD:
  assumes "decode_allocates L"
  shows "decodePrePrepare L b = Some p \<Longrightarrow>
      \<exists>pp q s r. p = Some pp \<and> ppView pp = Some (mkView s r) \<and> ppProposal pp = Some q"
    and "decodeSubject L b = Some p' \<Longrightarrow> \<exists>sub s r. p' = Some sub \<and> sbView sub = Some (mkView s r)"
  using assms unfolding decode_allocates_def view_full_def by fast+

lemma codec_okD:
  assumes "codec_ok L"
  shows "view_full (ppView x) \<Longrightarrow> ppProposal x \<noteq> None \<Longrightarrow> encodePrePrepare L x = Some b \<Longrightarrow>
      decodePrePrepare L b = Some (Some x)"
    and "view_full (sbView y) \<Longrightarrow> encodeSubject L y = Some b \<Longrightarrow> decodeSubject L b = Some (Some y)"
    and "encodeMessage L z = Some b \<Longrightarrow> decodeMessage L b = Some z"
    and "decode_allocates L"
  using assms by (auto simp: codec_ok_def)

lemma hash_okD [simp]: "hash_ok L \<Longrightarrow> hashNil L h \<longleftrightarrow> h = emptyHash"
  by (simp add: hash_ok_def)

section \<open>Messages\<close>

text \<open>\<open>PayloadNoSig\<close> and \<open>Payload\<close>: the encodings a message is signed over and sent as.\<close>

definition PayloadNoSig :: "lib \<Rightarrow> Message \<Rightarrow> bytes option" where
  "PayloadNoSig L m = encodeMessage L (m\<lparr>Signature := None\<rparr>)"

definition Payload :: "lib \<Rightarrow> Message \<Rightarrow> bytes option" where
  "Payload L m = encodeMessage L m"

text \<open>\<open>FromPayload\<close>: decode, then hand the unsigned payload and the signature to the validation
  callback, when there is one; the signer it returns is dropped. \<open>Inl\<close> is the error.\<close>

definition FromPayload ::
  "lib \<Rightarrow> bytes \<Rightarrow> (bytes \<Rightarrow> SignResult ptr \<Rightarrow> err + string) ptr \<Rightarrow> err + Message" where
  "FromPayload L msg validateFn =
     (case decodeMessage L msg of
        None \<Rightarrow> Inl (ErrLib ''decode'')
      | Some m \<Rightarrow>
          (case validateFn of
             None \<Rightarrow> Inr m
           | Some f \<Rightarrow>
               (case PayloadNoSig L m of
                  None \<Rightarrow> Inl (ErrLib ''encode'')
                | Some payload \<Rightarrow>
                    (case f payload (Signature m) of
                       Inl e \<Rightarrow> Inl e
                     | Inr _ \<Rightarrow> Inr m))))"

text \<open>\<open>PrepareCommittedSeal\<close>: the bytes a commit seal signs, the block hash and the word \<open>commit\<close>.\<close>

definition commitTag :: bytes where
  "commitTag = [99, 111, 109, 109, 105, 116]"

definition PrepareCommittedSeal :: "lib \<Rightarrow> Hash \<Rightarrow> bytes" where
  "PrepareCommittedSeal L hash = hashBytes L hash @ commitTag"

section \<open>Printing\<close>

text \<open>The \<open>String\<close> methods. \<open>%d\<close> prints a number in decimal.\<close>

fun decimal :: "nat \<Rightarrow> string" where
  "decimal n = (if n < 10 then [char_of (48 + n)] else decimal (n div 10) @ [char_of (48 + n mod 10)])"

declare decimal.simps [simp del]

definition View_String :: "View \<Rightarrow> string go" where
  "View_String v = do {
     s \<leftarrow> Sequence v;
     r \<leftarrow> Round v;
     ret (''{Sequence: '' @ decimal (unat (big_Uint64 s)) @ '', Round: '' @ decimal (unat (big_Uint64 r)) @ ''}'')
   }"

text \<open>Under \<open>%v\<close> a nil pointer prints as \<open><nil>\<close>, and a \<open>String\<close> method that panics leaves a note in the
  text. \<open>hs\<close> is the \<open>String\<close> method of hashes.\<close>

definition Subject_String :: "(Hash \<Rightarrow> string) \<Rightarrow> Subject \<Rightarrow> string" where
  "Subject_String hs b = ''{View: '' @
     (case sbView b of
        None \<Rightarrow> ''<nil>''
      | Some v \<Rightarrow> (case View_String v of
          None \<Rightarrow> ''%!v(PANIC=String method: runtime error: invalid memory address or nil pointer dereference)''
        | Some t \<Rightarrow> t)) @
     '', Digest: '' @ hs (Digest b) @ ''}''"

definition Message_String :: "Message \<Rightarrow> string" where
  "Message_String m = ''{Code: '' @ decimal (unat (Code m)) @ '', Id: '' @ MsgValidator m @ ''}''"

definition digit_value :: "char \<Rightarrow> nat" where
  "digit_value ch = of_char ch - 48"

lemma decimal_value: "foldl (\<lambda>n ch. 10 * n + digit_value ch) 0 (decimal n) = n"
  by (induction n rule: decimal.induct) (subst decimal.simps, auto simp: digit_value_def)

lemma decimal_inj: "decimal m = decimal n \<Longrightarrow> m = n"
  by (metis decimal_value)

lemma decimal_digits: "ch \<in> set (decimal n) \<Longrightarrow> of_char ch \<in> {48..<58::nat}"
  by (induction n rule: decimal.induct) (subst (asm) (2) decimal.simps, auto split: if_splits)

lemma decimal_comma: "CHR '','' \<notin> set (decimal n)"
  using decimal_digits [of "CHR '',''" n] by auto

lemma comma_split: "CHR '','' \<notin> set xs \<Longrightarrow> CHR '','' \<notin> set xs' \<Longrightarrow> 
    xs @ CHR '','' # ys = xs' @ CHR '','' # ys' \<Longrightarrow> xs = xs' \<and> ys = ys'"
  by (induction xs arbitrary: xs') (auto simp: Cons_eq_append_conv append_eq_Cons_conv)

text \<open>The text of a view determines the numbers that are printed.\<close>

lemma View_String_inj:
  assumes "View_String (mkView s r) = View_String (mkView s' r')"
  shows "big_Uint64 s = big_Uint64 s' \<and> big_Uint64 r = big_Uint64 r'"
proof -
  let ?d = "\<lambda>n. decimal (unat (big_Uint64 n))"
  from assms have "?d s @ CHR '','' # '' Round: '' @ ?d r @ ''}'' = ?d s' @ CHR '','' # '' Round: '' @ ?d r' @ ''}''"
    by (simp add: View_String_def)
  from comma_split [OF decimal_comma decimal_comma this] have "?d s = ?d s'" "?d r = ?d r'" by simp_all
  then show ?thesis using decimal_inj word_unat_eq_iff by blast
qed

end
