(* ===== verification/Pbft_Validator.thy ===== *)
theory Pbft_Validator
  imports Pbft_Protocol
begin

text \<open>
  Package \<open>validator\<close> (src/validator): the validator set kept sorted by identifier, membership,
  insertion and removal, the two proposer selection policies and the fault-tolerance number.
  A validator is a pointer to its identifier; \<open>vref\<close> is the pointer's identity, so that maps
  keyed by validators distinguish two objects with the same identifier, as Go does.
  Operations that allocate take the address of the first new object as an argument. The methods
  \<open>Len\<close>, \<open>Less\<close> and \<open>Swap\<close> that \<open>sort.Sort\<close> works with (src/protocol/validator.go) lead to the sort by identifier
  of the model, whatever swaps are made.

  The locale \<open>validator_registry\<close> is the contract of the interface \<open>ValidatorSet\<close> that the
  message sets and the core rely on; it is interpreted here on the default validator set.
\<close>

section \<open>The validator set\<close>

record Validator =
  vref :: nat
  ID :: string

record ValidatorSet =
  policy :: ProposerPolicy
  proposer :: "Validator ptr"
  validators :: "Validator list"

definition Size :: "ValidatorSet \<Rightarrow> int" where
  "Size vs = int (length (validators vs))"

definition ListOf :: "ValidatorSet \<Rightarrow> Validator list" where
  "ListOf vs = validators vs"

definition ids :: "ValidatorSet \<Rightarrow> string list" where
  "ids vs = map ID (ListOf vs)"

definition GetByIndex :: "ValidatorSet \<Rightarrow> u64 \<Rightarrow> Validator ptr" where
  "GetByIndex vs i = (if i < word_of_int (Size vs) then Some (validators vs ! unat i) else None)"

fun GetById_loop :: "int \<Rightarrow> Validator list \<Rightarrow> string \<Rightarrow> int \<times> Validator ptr" where
  "GetById_loop i [] x = (-1, None)"
| "GetById_loop i (v # vs) x = (if x = ID v then (i, Some v) else GetById_loop (i + 1) vs x)"

definition GetById :: "ValidatorSet \<Rightarrow> string \<Rightarrow> int \<times> Validator ptr" where
  "GetById vs x = GetById_loop 0 (ListOf vs) x"

definition newDefaultSet :: "nat \<Rightarrow> string list \<Rightarrow> ProposerPolicy \<Rightarrow> ValidatorSet" where
  "newDefaultSet a xs pol =
     (let vals = map (\<lambda>(i, x). \<lparr>vref = a + i, ID = x\<rparr>) (enumerate 0 xs);
          vs = \<lparr>policy = pol, proposer = None, validators = sort_key ID vals\<rparr>
      in if Size vs > 0 then vs\<lparr>proposer := GetByIndex vs 0\<rparr> else vs)"

definition GetProposer :: "ValidatorSet \<Rightarrow> Validator ptr" where
  "GetProposer vs = proposer vs"

text \<open>\<open>reflect.DeepEqual\<close> on two validators compares the identifiers behind the pointers.\<close>

definition IsProposer :: "ValidatorSet \<Rightarrow> string \<Rightarrow> bool" where
  "IsProposer vs x =
     (case snd (GetById vs x) of
        None \<Rightarrow> False
      | Some v \<Rightarrow> (case GetProposer vs of None \<Rightarrow> False | Some p \<Rightarrow> ID p = ID v))"

definition AddValidator :: "nat \<Rightarrow> ValidatorSet \<Rightarrow> string \<Rightarrow> bool \<times> ValidatorSet" where
  "AddValidator a vs x =
     (if \<exists>v \<in> set (validators vs). ID v = x then (False, vs)
      else (True, vs\<lparr>validators := sort_key ID (validators vs @ [\<lparr>vref = a, ID = x\<rparr>])\<rparr>))"

fun RemoveValidator_loop :: "Validator list \<Rightarrow> string \<Rightarrow> (Validator list) option" where
  "RemoveValidator_loop [] x = None"
| "RemoveValidator_loop (v # vs) x =
     (if ID v = x then Some vs else map_option (Cons v) (RemoveValidator_loop vs x))"

definition RemoveValidator :: "ValidatorSet \<Rightarrow> string \<Rightarrow> bool \<times> ValidatorSet" where
  "RemoveValidator vs x =
     (case RemoveValidator_loop (validators vs) x of
        None \<Rightarrow> (False, vs)
      | Some vals \<Rightarrow> (True, vs\<lparr>validators := vals\<rparr>))"

definition Copy :: "nat \<Rightarrow> ValidatorSet \<Rightarrow> ValidatorSet" where
  "Copy a vs = newDefaultSet a (map ID (validators vs)) (policy vs)"

definition FaultTolerantNum :: "ValidatorSet \<Rightarrow> int" where
  "FaultTolerantNum vs = \<lceil>real_of_int (Size vs) / 3\<rceil> - 1"

definition Policy :: "ValidatorSet \<Rightarrow> ProposerPolicy" where
  "Policy vs = policy vs"

definition Validator_String :: "Validator \<Rightarrow> string" where
  "Validator_String val = ID val"

section \<open>Proposer selection\<close>

definition calcSeed :: "ValidatorSet \<Rightarrow> string \<Rightarrow> u64 \<Rightarrow> u64" where
  "calcSeed vs prop r =
     (let offset = (case GetById vs prop of (idx, Some _) \<Rightarrow> idx | (_, None) \<Rightarrow> 0)
      in word_of_int offset + r)"

definition roundRobinProposer :: "ValidatorSet \<Rightarrow> string \<Rightarrow> u64 \<Rightarrow> Validator ptr" where
  "roundRobinProposer vs prop r =
     (if Size vs = 0 then None
      else let seed = (if prop = '''' then r else calcSeed vs prop r + 1);
               pick = seed mod word_of_int (Size vs)
           in GetByIndex vs pick)"

definition stickyProposer :: "ValidatorSet \<Rightarrow> string \<Rightarrow> u64 \<Rightarrow> Validator ptr" where
  "stickyProposer vs prop r =
     (if Size vs = 0 then None
      else let seed = (if prop = '''' then r else calcSeed vs prop r);
               pick = seed mod word_of_int (Size vs)
           in GetByIndex vs pick)"

text \<open>The constructor stores the selector its policy names.\<close>

definition selector :: "ValidatorSet \<Rightarrow> string \<Rightarrow> u64 \<Rightarrow> Validator ptr" where
  "selector vs = (if policy vs = Sticky then stickyProposer vs else roundRobinProposer vs)"

definition CalcProposer :: "ValidatorSet \<Rightarrow> string \<Rightarrow> u64 \<Rightarrow> ValidatorSet" where
  "CalcProposer vs lastProposer r = vs\<lparr>proposer := selector vs lastProposer r\<rparr>"

section \<open>Lookups\<close>

lemma map_ID_sort_key [simp]: "map ID (sort_key ID vs) = sort (map ID vs)"
  by (rule properties_for_sort [symmetric]) simp_all

lemma map_ID_enumerate [simp]:
  "map ID (map (\<lambda>(i, x). \<lparr>vref = a + i, ID = x\<rparr>) (enumerate n xs)) = xs"
  by (induction xs arbitrary: n) auto

lemma ids_newDefaultSet [simp]: "ids (newDefaultSet a xs pol) = sort xs"
  using map_ID_enumerate [of a 0 xs]
  by (simp add: newDefaultSet_def ids_def ListOf_def Let_def del: map_map)

lemma Size_ids: "Size vs = int (length (ids vs))"
  by (simp add: Size_def ids_def ListOf_def)

lemma Size_newDefaultSet [simp]: "Size (newDefaultSet a xs pol) = int (length xs)"
  by (simp add: Size_ids)

lemma policy_newDefaultSet [simp]: "policy (newDefaultSet a xs pol) = pol"
  by (simp add: newDefaultSet_def Let_def)

lemma GetById_loop_None:
  "snd (GetById_loop i vs x) = None \<longleftrightarrow> x \<notin> ID ` set vs"
  by (induction i vs x rule: GetById_loop.induct) auto

lemma GetById_loop_Some:
  "GetById_loop i vs x = (j, Some v) \<Longrightarrow>
     i \<le> j \<and> nat (j - i) < length vs \<and> vs ! nat (j - i) = v \<and> ID v = x \<and>
     (\<forall>k < nat (j - i). ID (vs ! k) \<noteq> x)"
proof (induction i vs x rule: GetById_loop.induct)
  case (2 i w vs x)
  show ?case
  proof (cases "x = ID w")
    case True
    with "2.prems" show ?thesis by simp
  next
    case False
    with "2.prems" have IH: "i + 1 \<le> j" "nat (j - (i + 1)) < length vs"
        "vs ! nat (j - (i + 1)) = v" "ID v = x" "\<forall>k < nat (j - (i + 1)). ID (vs ! k) \<noteq> x"
      using "2.IH" by auto
    from IH(1) have eq: "nat (j - i) = Suc (nat (j - (i + 1)))" by linarith
    show ?thesis
      using IH False by (auto simp: eq less_Suc_eq_0_disj)
  qed
qed simp

lemma GetById_None_iff: "snd (GetById vs x) = None \<longleftrightarrow> x \<notin> set (ids vs)"
  by (simp add: GetById_def GetById_loop_None ids_def)

lemma GetById_Some_iff: "(\<exists>v. snd (GetById vs x) = Some v) \<longleftrightarrow> x \<in> set (ids vs)"
  using GetById_None_iff [of vs x] by (metis not_None_eq)

lemma GetById_ID: "snd (GetById vs x) = Some v \<Longrightarrow> ID v = x \<and> v \<in> set (validators vs)"
  using GetById_loop_Some [of 0 "ListOf vs" x "fst (GetById vs x)" v]
  by (metis GetById_def ListOf_def diff_zero nth_mem prod.collapse)

lemma IsProposer_iff:
  "IsProposer vs x \<longleftrightarrow> x \<in> set (ids vs) \<and> (\<exists>p. proposer vs = Some p \<and> ID p = x)"
  using GetById_None_iff [of vs x]
  by (auto simp: IsProposer_def GetProposer_def split: option.splits dest: GetById_ID)

section \<open>The order of validators\<close>

text \<open>The methods \<open>sort.Sort\<close> works with; an index out of range panics.\<close>

definition Validators_Len :: "Validator list \<Rightarrow> nat" where
  "Validators_Len vals = length vals"

definition Validators_Less :: "Validator list \<Rightarrow> nat \<Rightarrow> nat \<Rightarrow> bool go" where
  "Validators_Less vals i j =
     (if i < length vals \<and> j < length vals then ret (ID (vals ! i) < ID (vals ! j)) else panic)"

definition Validators_Swap :: "Validator list \<Rightarrow> nat \<Rightarrow> nat \<Rightarrow> Validator list go" where
  "Validators_Swap vals i j =
     (if i < length vals \<and> j < length vals then ret (vals[i := vals ! j, j := vals ! i]) else panic)"

fun swaps :: "Validator list \<Rightarrow> (nat \<times> nat) list \<Rightarrow> Validator list go" where
  "swaps vals [] = ret vals"
| "swaps vals ((i, j) # ps) = do { vals' \<leftarrow> Validators_Swap vals i j; swaps vals' ps }"

definition in_order :: "Validator list \<Rightarrow> bool" where
  "in_order vals \<longleftrightarrow> (\<forall>i. Suc i < Validators_Len vals \<longrightarrow> Validators_Less vals (Suc i) i = ret False)"

lemma swaps_mset: "swaps vals ps = Some vals' \<Longrightarrow> mset vals' = mset vals"
proof (induction vals ps rule: swaps.induct)
  case (2 vals i j ps)
  then show ?case by (auto simp: Validators_Swap_def mset_swap elim!: bind_SomeE split: if_splits)
qed simp

lemma in_order_sorted: "in_order vals \<longleftrightarrow> sorted (map ID vals)"
  by (auto simp: in_order_def Validators_Less_def Validators_Len_def sorted_iff_nth_Suc not_less)

text \<open>However the swaps are chosen, a slice that is in order at the end is sorted.\<close>

lemma in_order_swaps:
  assumes "swaps vals ps = Some vals'" "in_order vals'"
  shows "map ID vals' = map ID (sort_key ID vals)"
    and "distinct (map ID vals) \<Longrightarrow> vals' = sort_key ID vals"
proof -
  have same: "mset vals' = mset vals" using assms(1) by (rule swaps_mset)
  then have "mset (map ID vals') = mset (map ID vals)" by simp
  then show eq: "map ID vals' = map ID (sort_key ID vals)"
    using assms(2) properties_for_sort [of "map ID vals'" "map ID vals"] by (simp add: in_order_sorted)
  show "vals' = sort_key ID vals" if "distinct (map ID vals)"
  proof (rule map_inj_on [OF eq])
    show "inj_on ID (set vals' \<union> set (sort_key ID vals))"
      using that mset_eq_setD [OF same] by (simp add: distinct_map)
  qed
qed

section \<open>The contract of a validator set\<close>

text \<open>Members are looked up by identifier, and each update reports whether it changed them.\<close>

locale validator_registry =
  fixes members :: "'s \<Rightarrow> string list"
    and lookup :: "'s \<Rightarrow> string \<Rightarrow> 'v option"
    and ident :: "'v \<Rightarrow> string"
    and add :: "'s \<Rightarrow> string \<Rightarrow> bool \<times> 's"
    and remove :: "'s \<Rightarrow> string \<Rightarrow> bool \<times> 's"
    and inv :: "'s \<Rightarrow> bool"
  assumes lookup_iff: "lookup s x \<noteq> None \<longleftrightarrow> x \<in> set (members s)"
    and lookup_ident: "lookup s x = Some v \<Longrightarrow> ident v = x"
    and add_changed: "fst (add s x) \<longleftrightarrow> x \<notin> set (members s)"
    and add_members: "set (members (snd (add s x))) = insert x (set (members s))"
    and add_inv: "inv s \<Longrightarrow> inv (snd (add s x))"
    and remove_changed: "fst (remove s x) \<longleftrightarrow> x \<in> set (members s)"
    and remove_members: "inv s \<Longrightarrow> set (members (snd (remove s x))) = set (members s) - {x}"
    and remove_inv: "inv s \<Longrightarrow> inv (snd (remove s x))"
    and inv_sorted: "inv s \<Longrightarrow> sorted (members s) \<and> distinct (members s)"
begin

definition update :: "string \<times> bool \<Rightarrow> 's \<Rightarrow> 's" where
  "update u s = snd (if snd u then add s (fst u) else remove s (fst u))"

definition abs_update :: "string \<times> bool \<Rightarrow> string set \<Rightarrow> string set" where
  "abs_update u S = (if snd u then insert (fst u) S else S - {fst u})"

lemma update_simulates:
  "inv s \<Longrightarrow> inv (update u s) \<and> set (members (update u s)) = abs_update u (set (members s))"
  by (simp add: update_def abs_update_def add_members add_inv remove_members remove_inv)

lemma updates_simulate:
  "inv s \<Longrightarrow> inv (fold update us s) \<and>
     set (members (fold update us s)) = fold abs_update us (set (members s))"
proof (induction us arbitrary: s)
  case (Cons u us)
  from update_simulates [OF Cons.prems, of u] Cons.IH [of "update u s"] show ?case by simp
qed simp

lemma members_canonical: "inv s \<Longrightarrow> members s = sorted_list_of_set (set (members s))"
  using inv_sorted by (simp add: sorted_list_of_set.idem_if_sorted_distinct)

lemma updates_refine:
  assumes "inv s"
  shows "members (fold update us s) = sorted_list_of_set (fold abs_update us (set (members s)))"
  using updates_simulate [OF assms, of us] members_canonical [of "fold update us s"] by simp

lemma lookup_add: "lookup (snd (add s x)) x \<noteq> None"
  unfolding lookup_iff by (simp add: add_members)

lemma lookup_remove: "inv s \<Longrightarrow> lookup (snd (remove s x)) x = None"
  using lookup_iff [of "snd (remove s x)" x] by (auto simp: remove_members)

lemma remove_fresh_fails: "inv s \<Longrightarrow> \<not> fst (remove (snd (remove s x)) x)"
  by (simp add: remove_changed remove_members)

end

definition valset_inv :: "ValidatorSet \<Rightarrow> bool" where
  "valset_inv vs \<longleftrightarrow> sorted (ids vs) \<and> distinct (ids vs)"

lemma ids_proposer [simp]: "ids (vs\<lparr>proposer := p\<rparr>) = ids vs"
  by (simp add: ids_def ListOf_def)

lemma ids_CalcProposer [simp]: "ids (CalcProposer vs p r) = ids vs"
  by (simp add: CalcProposer_def)

lemma valset_inv_CalcProposer [simp]: "valset_inv (CalcProposer vs p r) = valset_inv vs"
  by (simp add: valset_inv_def)

lemma valset_inv_newDefaultSet [simp]: "valset_inv (newDefaultSet a xs pol) \<longleftrightarrow> distinct xs"
  by (simp add: valset_inv_def)

lemma ids_AddValidator:
  "ids (snd (AddValidator a vs x)) = (if x \<in> set (ids vs) then ids vs else sort (ids vs @ [x]))"
  by (auto simp: AddValidator_def ids_def ListOf_def)

lemma fst_AddValidator [simp]: "fst (AddValidator a vs x) \<longleftrightarrow> x \<notin> set (ids vs)"
  by (auto simp: AddValidator_def ids_def ListOf_def)

lemma RemoveValidator_loop_ids:
  "map_option (map ID) (RemoveValidator_loop vs x) =
     (if x \<in> ID ` set vs then Some (remove1 x (map ID vs)) else None)"
  by (induction vs x rule: RemoveValidator_loop.induct)
    (auto simp: option.map_comp o_def map_option_case split: option.splits if_splits)

lemma RemoveValidator_cases:
  "RemoveValidator vs x =
     (if x \<in> set (ids vs) then (True, snd (RemoveValidator vs x)) else (False, vs)) \<and>
   ids (snd (RemoveValidator vs x)) = remove1 x (ids vs)"
  using RemoveValidator_loop_ids [of "validators vs" x]
  by (auto simp: RemoveValidator_def ids_def ListOf_def remove1_idem split: option.splits if_splits)

lemma fst_RemoveValidator [simp]: "fst (RemoveValidator vs x) \<longleftrightarrow> x \<in> set (ids vs)"
  using RemoveValidator_cases [of vs x] by (metis fst_conv)

lemma ids_RemoveValidator [simp]: "ids (snd (RemoveValidator vs x)) = remove1 x (ids vs)"
  using RemoveValidator_cases [of vs x] by blast

interpretation dvs: validator_registry
  ids "\<lambda>vs x. snd (GetById vs x)" ID "AddValidator a" RemoveValidator valset_inv
  for a
proof unfold_locales
  fix s x
  show "(snd (GetById s x) \<noteq> None) = (x \<in> set (ids s))"
    by (simp add: GetById_None_iff)
  show "set (ids (snd (AddValidator a s x))) = insert x (set (ids s))"
    by (auto simp: ids_AddValidator)
  assume "valset_inv s"
  then show "valset_inv (snd (AddValidator a s x))"
    and "set (ids (snd (RemoveValidator s x))) = set (ids s) - {x}"
    and "valset_inv (snd (RemoveValidator s x))"
    and "sorted (ids s) \<and> distinct (ids s)"
    by (auto simp: valset_inv_def ids_AddValidator sorted_remove1)
qed (auto dest: GetById_ID)

text \<open>The reference update of the set of identifiers, for the statement of the refinement.\<close>

definition valset_update :: "nat \<Rightarrow> string \<times> bool \<Rightarrow> ValidatorSet \<Rightarrow> ValidatorSet" where
  "valset_update a u vs =
     (if snd u then snd (AddValidator a vs (fst u)) else snd (RemoveValidator vs (fst u)))"

definition idset_update :: "string \<times> bool \<Rightarrow> string set \<Rightarrow> string set" where
  "idset_update u S = (if snd u then insert (fst u) S else S - {fst u})"

lemma dvs_update_eq: "dvs.update a = valset_update a" "dvs.abs_update = idset_update"
  by (auto simp: fun_eq_iff dvs.update_def valset_update_def dvs.abs_update_def idset_update_def)

section \<open>Selection and fault tolerance in closed form\<close>

lemma FaultTolerantNum_div: "FaultTolerantNum vs = (Size vs - 1) div 3"
proof -
  have "\<lceil>real_of_int (Size vs) / 3\<rceil> = - (- Size vs div 3)"
    using ceiling_divide_eq_div [of "Size vs" 3, where 'a = real] by simp
  moreover have "- (- Size vs div 3) - 1 = (Size vs - 1) div 3" by presburger
  ultimately show ?thesis by (simp add: FaultTolerantNum_def)
qed

lemma FaultTolerantNum_ids: "ids vs = ids ws \<Longrightarrow> FaultTolerantNum vs = FaultTolerantNum ws"
  by (simp add: FaultTolerantNum_div Size_ids)

definition valset_small :: "ValidatorSet \<Rightarrow> bool" where
  "valset_small vs \<longleftrightarrow> 0 < Size vs \<and> Size vs < 2 ^ 62"

lemma GetByIndex_nth:
  assumes "valset_small vs" "n < length (validators vs)"
  shows "GetByIndex vs (word_of_nat n) = Some (validators vs ! n)"
proof -
  have b: "n < 2 ^ 64" "length (validators vs) < 2 ^ 64"
    using assms by (simp_all add: valset_small_def Size_def)
  then have "unat (word_of_nat n :: u64) = n" by (simp add: unat_of_nat)
  moreover have "(word_of_nat n :: u64) < word_of_int (Size vs)"
    using b assms(2) by (simp add: Size_def word_less_nat_alt unat_of_nat)
  ultimately show ?thesis by (simp add: GetByIndex_def)
qed

lemma pick_nth:
  assumes small: "valset_small vs" and seed: "unat seed = k"
  shows "GetByIndex vs (seed mod word_of_int (Size vs)) =
    Some (validators vs ! (k mod length (validators vs)))"
proof -
  let ?n = "length (validators vs)"
  have n: "0 < ?n" "?n < 2 ^ 64" using small by (simp_all add: valset_small_def Size_def)
  have "unat (seed mod word_of_int (Size vs)) = k mod ?n"
    using n seed by (simp add: unat_mod Size_def unat_of_nat)
  then have "seed mod word_of_int (Size vs) = word_of_nat (k mod ?n)"
    by (metis of_nat_unat ucast_id)
  then show ?thesis
    using GetByIndex_nth [OF small, of "k mod ?n"] n by simp
qed

text \<open>\<open>startIndex\<close> is the position from which the selection counts the rounds.\<close>

definition startIndex :: "ValidatorSet \<Rightarrow> string \<Rightarrow> nat" where
  "startIndex vs prop = (case GetById vs prop of (i, Some _) \<Rightarrow> nat i | (_, None) \<Rightarrow> 0)"

lemma startIndex_less: "valset_small vs \<Longrightarrow> startIndex vs prop < length (validators vs)"
  by (auto simp: startIndex_def GetById_def ListOf_def valset_small_def Size_def
      split: prod.splits option.splits dest!: GetById_loop_Some)

lemma calcSeed_startIndex:
  assumes "valset_small vs"
  shows "calcSeed vs prop r = word_of_nat (startIndex vs prop) + r"
  by (auto simp: calcSeed_def startIndex_def Let_def GetById_def
      split: prod.splits option.splits dest!: GetById_loop_Some)

lemma unat_seed:
  fixes r :: u64
  assumes "j + unat r < 2 ^ 64"
  shows "unat (word_of_nat j + r) = j + unat r"
  using assms by (simp add: unat_word_ariths unat_of_nat)

lemma roundRobinProposer_nth:
  assumes small: "valset_small vs" and "prop \<noteq> ''''"
    and no_wrap: "startIndex vs prop + unat r + 1 < 2 ^ 64"
  shows "roundRobinProposer vs prop r =
    Some (validators vs ! ((startIndex vs prop + 1 + unat r) mod length (validators vs)))"
proof -
  have "calcSeed vs prop r + 1 = word_of_nat (startIndex vs prop + 1) + r"
    by (simp add: calcSeed_startIndex [OF small])
  moreover have "unat (word_of_nat (startIndex vs prop + 1) + r) = startIndex vs prop + 1 + unat r"
    by (rule unat_seed) (use no_wrap in simp)
  ultimately have "unat (calcSeed vs prop r + 1) = startIndex vs prop + 1 + unat r"
    by (simp only:)
  with small \<open>prop \<noteq> ''''\<close> pick_nth [OF small this] show ?thesis
    by (simp add: roundRobinProposer_def valset_small_def)
qed

lemma stickyProposer_nth:
  assumes small: "valset_small vs" and "prop \<noteq> ''''"
    and no_wrap: "startIndex vs prop + unat r < 2 ^ 64"
  shows "stickyProposer vs prop r =
    Some (validators vs ! ((startIndex vs prop + unat r) mod length (validators vs)))"
proof -
  have "unat (calcSeed vs prop r) = startIndex vs prop + unat r"
    using unat_seed [of "startIndex vs prop" r] no_wrap calcSeed_startIndex [OF small] by simp
  with small \<open>prop \<noteq> ''''\<close> pick_nth [OF small this] show ?thesis
    by (simp add: stickyProposer_def valset_small_def)
qed

lemma rotate_by_nth: "map (\<lambda>r. xs ! ((k + r) mod length xs)) [0..<length xs] = rotate k xs"
  by (rule nth_equalityI) (simp_all add: nth_rotate)

lemma selected_proposer:
  assumes small: "valset_small vs"
  shows "\<exists>v \<in> set (validators vs). selector vs prop r = Some v"
proof -
  have nth: "\<And>k. validators vs ! (k mod length (validators vs)) \<in> set (validators vs)"
    using small by (intro nth_mem) (simp add: valset_small_def Size_def)
  show ?thesis
    using small pick_nth [OF small refl, of r] pick_nth [OF small refl, of "calcSeed vs prop r"]
      pick_nth [OF small refl, of "calcSeed vs prop r + 1"]
    by (auto simp: selector_def roundRobinProposer_def stickyProposer_def valset_small_def
        intro: nth)
qed

lemma IsProposer_CalcProposer:
  assumes "valset_small vs"
  shows "\<exists>v. selector vs prop r = Some v \<and> (\<forall>x. IsProposer (CalcProposer vs prop r) x \<longleftrightarrow> x = ID v)"
proof -
  from selected_proposer [OF assms] obtain v
    where "v \<in> set (validators vs)" "selector vs prop r = Some v" by blast
  then show ?thesis
    by (auto simp: IsProposer_iff CalcProposer_def ids_def ListOf_def)
qed


section \<open>Properties\<close>

text \<open>C34: a validator set is a finite set of identifiers kept as its sorted list: after any
  sequence of \<open>AddValidator\<close> and \<open>RemoveValidator\<close> calls its members, in order, are the sorted
  elements of the set one gets by inserting and deleting the same identifiers.\<close>

theorem validator_set_refines_set:
  assumes "valset_inv vs"
  shows "ids (fold (valset_update a) us vs) = sorted_list_of_set (fold idset_update us (set (ids vs)))"
  using dvs.updates_refine [OF assms, of a us] unfolding dvs_update_eq .

theorem validator_set_refines_set_witness:
  "valset_inv (newDefaultSet 0 [''b'', ''a''] RoundRobin) \<and>
   ids (fold (valset_update 9) [(''c'', True), (''b'', False)] (newDefaultSet 0 [''b'', ''a''] RoundRobin)) =
     sorted_list_of_set (fold idset_update [(''c'', True), (''b'', False)]
       (set (ids (newDefaultSet 0 [''b'', ''a''] RoundRobin))))"
proof -
  have "valset_inv (newDefaultSet 0 [''b'', ''a''] RoundRobin)" by simp
  with validator_set_refines_set [OF this, of 9 "[(''c'', True), (''b'', False)]"] show ?thesis by blast
qed

text \<open>C35: round robin is fair. In the rounds \<open>0, 1, \<dots>, n - 1\<close> after a block of \<open>prop\<close> the
  proposers are the \<open>n\<close> validators, each once, starting with the one after \<open>prop\<close>.\<close>

theorem round_robin_fair:
  assumes "valset_small vs" "prop \<noteq> ''''"
  shows "map (\<lambda>r. roundRobinProposer vs prop (word_of_nat r)) [0..<length (validators vs)] =
    map Some (rotate (startIndex vs prop + 1) (validators vs))"
proof -
  have n: "length (validators vs) < 2 ^ 62" using assms(1) by (simp add: valset_small_def Size_def)
  have "roundRobinProposer vs prop (word_of_nat r) =
      Some (validators vs ! ((startIndex vs prop + 1 + r) mod length (validators vs)))"
    if "r < length (validators vs)" for r
  proof -
    have r: "unat (word_of_nat r :: u64) = r" using that n by (simp add: unat_of_nat)
    then show ?thesis
      using roundRobinProposer_nth [OF assms, of "word_of_nat r"] startIndex_less [OF assms(1), of "prop"] that n
      by simp
  qed
  then have "map (\<lambda>r. roundRobinProposer vs prop (word_of_nat r)) [0..<length (validators vs)] =
      map (\<lambda>r. Some (validators vs ! ((startIndex vs prop + 1 + r) mod length (validators vs))))
        [0..<length (validators vs)]"
    by (intro map_cong) auto
  also have "\<dots> = map Some (rotate (startIndex vs prop + 1) (validators vs))"
    unfolding rotate_by_nth [symmetric] by simp
  finally show ?thesis .
qed

theorem round_robin_fair_witness:
  "valset_small (newDefaultSet 0 [''b'', ''c'', ''a''] RoundRobin) \<and>
   map (\<lambda>r. map_option ID (roundRobinProposer (newDefaultSet 0 [''b'', ''c'', ''a''] RoundRobin) ''a'' (word_of_nat r)))
     [0..<3] = [Some ''b'', Some ''c'', Some ''a'']"
proof -
  let ?vs = "newDefaultSet 0 [''b'', ''c'', ''a''] RoundRobin"
  have small: "valset_small ?vs" by (simp add: valset_small_def)
  have n: "length (validators ?vs) = 3" using Size_newDefaultSet [of 0 "[''b'', ''c'', ''a'']" RoundRobin]
    by (simp add: Size_def)
  have "map (map_option ID) (map (\<lambda>r. roundRobinProposer ?vs ''a'' (word_of_nat r)) [0..<3]) =
      map (map_option ID) (map Some (rotate (startIndex ?vs ''a'' + 1) (validators ?vs)))"
    using round_robin_fair [OF small, of "''a''"] n by simp
  also have "\<dots> = [Some ''b'', Some ''c'', Some ''a'']" by code_simp
  finally show ?thesis using small by (simp add: o_def)
qed

text \<open>The sticky policy keeps the proposer of the last block while it is a member, and moves
  on by one place with every round.\<close>

lemma sticky_keeps_proposer:
  assumes "valset_small vs" "prop \<in> set (ids vs)" "prop \<noteq> ''''"
  shows "(\<exists>v. stickyProposer vs prop 0 = Some v \<and> ID v = prop) \<and>
    (\<forall>r < length (validators vs). stickyProposer vs prop (word_of_nat r) =
       Some (rotate (startIndex vs prop) (validators vs) ! r))"
proof
  have n: "length (validators vs) < 2 ^ 62" using assms(1) by (simp add: valset_small_def Size_def)
  note start = startIndex_less [OF assms(1), of "prop"]
  show "\<forall>r < length (validators vs). stickyProposer vs prop (word_of_nat r) =
       Some (rotate (startIndex vs prop) (validators vs) ! r)"
  proof (intro allI impI)
    fix r
    assume r: "r < length (validators vs)"
    then have "unat (word_of_nat r :: u64) = r" using n by (simp add: unat_of_nat)
    with stickyProposer_nth [OF assms(1,3), of "word_of_nat r"] start n r
    show "stickyProposer vs prop (word_of_nat r) = Some (rotate (startIndex vs prop) (validators vs) ! r)"
      by (simp add: nth_rotate)
  qed
  obtain v where "snd (GetById vs prop) = Some v" using assms(2) GetById_Some_iff by metis
  then have "ID (validators vs ! startIndex vs prop) = prop"
    using GetById_loop_Some [of 0 "ListOf vs" "prop" "fst (GetById vs prop)" v]
    by (auto simp: startIndex_def GetById_def ListOf_def split: prod.splits)
  then show "\<exists>v. stickyProposer vs prop 0 = Some v \<and> ID v = prop"
    using stickyProposer_nth [OF assms(1,3), of 0] start n by simp
qed

lemma sticky_keeps_proposer_example:
  "\<exists>v. stickyProposer (newDefaultSet 0 [''b'', ''c'', ''a''] Sticky) ''c'' 0 = Some v \<and> ID v = ''c''"
  using sticky_keeps_proposer [of "newDefaultSet 0 [''b'', ''c'', ''a''] Sticky" "''c''"]
  by (simp add: valset_small_def)

text \<open>After \<open>CalcProposer\<close> exactly one identifier passes \<open>IsProposer\<close>, whatever the policy, the last
  proposer and the round: the one the selector picked.\<close>

lemma one_proposer:
  assumes "valset_small vs"
  shows "\<exists>!x. IsProposer (CalcProposer vs prop r) x"
  using IsProposer_CalcProposer [OF assms, of "prop" r] by metis

text \<open>\<open>FaultTolerantNum\<close>, computed in floating point as \<open>ceil(n / 3) - 1\<close>, is the greatest \<open>f\<close>
  with \<open>3 f < n\<close>.\<close>

lemma fault_tolerance:
  "FaultTolerantNum vs = f \<longleftrightarrow> 3 * f < Size vs \<and> Size vs \<le> 3 * f + 3"
  by (simp add: FaultTolerantNum_div) presburger

text \<open>Whatever swaps \<open>sort.Sort\<close> makes on the new validators, if \<open>Less\<close> finds them in order at the end
  they are the validators of the set as it is modelled.\<close>

lemma sort_by_swaps:
  assumes "distinct xs" "swaps (map (\<lambda>(i, x). \<lparr>vref = a + i, ID = x\<rparr>) (enumerate 0 xs)) ps = Some vals" "in_order vals"
  shows "ListOf (newDefaultSet a xs pol) = vals"
proof -
  have "distinct (map ID (map (\<lambda>(i, x). \<lparr>vref = a + i, ID = x\<rparr>) (enumerate 0 xs)))"
    using assms(1) by (simp only: map_ID_enumerate)
  from in_order_swaps(2) [OF assms(2,3) this] show ?thesis by (simp add: newDefaultSet_def ListOf_def Let_def)
qed

lemma sort_by_swaps_example:
  "ListOf (newDefaultSet 7 [''b'', ''c'', ''a''] RoundRobin) = [\<lparr>vref = 9, ID = ''a''\<rparr>, \<lparr>vref = 7, ID = ''b''\<rparr>, \<lparr>vref = 8, ID = ''c''\<rparr>]"
  by (rule sort_by_swaps [of _ _ "[(0, 2), (1, 2)]"])
    (simp_all add: in_order_sorted Validators_Swap_def numeral_eq_Suc)

end
