(* ===== verification/Pbft_MessageSet.thy ===== *)
theory Pbft_MessageSet
  imports Pbft_Validator
begin

text \<open>
  The message set of src/protocol/message_set.go: at most one message per validator of a fixed
  validator set. The locale \<open>ballot_box\<close> states the contract the counting code relies on (one
  vote per authorised voter, the count is the number of voters) and is interpreted on it.
\<close>

section \<open>The message set\<close>

record MessageSet =
  msView :: View
  msValSet :: ValidatorSet
  messages :: "(string \<times> Message) list"

definition NewMessageSet :: "ValidatorSet \<Rightarrow> MessageSet" where
  "NewMessageSet vs = \<lparr>msView = mkView 0 0, msValSet = vs, messages = []\<rparr>"

definition ms_verify :: "MessageSet \<Rightarrow> Message \<Rightarrow> err option" where
  "ms_verify ms msg =
     (case snd (GetById (msValSet ms) (MsgValidator msg)) of
        None \<Rightarrow> Some ErrUnauthorized
      | Some _ \<Rightarrow> None)"

definition ms_View :: "MessageSet \<Rightarrow> View" where
  "ms_View ms = msView ms"

definition ms_Add :: "MessageSet \<Rightarrow> Message \<Rightarrow> err option \<times> MessageSet" where
  "ms_Add ms msg =
     (case ms_verify ms msg of
        Some e \<Rightarrow> (Some e, ms)
      | None \<Rightarrow> (None, ms\<lparr>messages := AList.update (MsgValidator msg) msg (messages ms)\<rparr>))"

definition ms_Values :: "MessageSet \<Rightarrow> Message list" where
  "ms_Values ms = map snd (messages ms)"

definition ms_Size :: "MessageSet \<Rightarrow> int" where
  "ms_Size ms = int (length (messages ms))"

definition ms_Get :: "MessageSet \<Rightarrow> string \<Rightarrow> Message ptr" where
  "ms_Get ms val = map_of (messages ms) val"

text \<open>\<open>strings.Join\<close> and the text of a message set.\<close>

fun joinStrings :: "string list \<Rightarrow> string \<Rightarrow> string" where
  "joinStrings [] sep = []"
| "joinStrings [x] sep = x"
| "joinStrings (x # y # xs) sep = x @ sep @ joinStrings (y # xs) sep"

definition ms_String :: "MessageSet \<Rightarrow> string" where
  "ms_String ms = ''['' @ joinStrings (map MsgValidator (ms_Values ms)) '', '' @ '']''"

section \<open>The contract of a message set\<close>

locale ballot_box =
  fixes voters :: "'b \<Rightarrow> string set"
    and cast :: "'b \<Rightarrow> 'm \<Rightarrow> err option \<times> 'b"
    and get :: "'b \<Rightarrow> string \<Rightarrow> 'm option"
    and size :: "'b \<Rightarrow> int"
    and voter :: "'m \<Rightarrow> string"
    and inv :: "'b \<Rightarrow> bool"
  assumes finite_voters: "finite (voters b)"
    and cast_err: "fst (cast b m) = (if voter m \<in> voters b then None else Some ErrUnauthorized)"
    and cast_refused: "voter m \<notin> voters b \<Longrightarrow> snd (cast b m) = b"
    and cast_get: "voter m \<in> voters b \<Longrightarrow> get (snd (cast b m)) = (get b)(voter m \<mapsto> m)"
    and cast_voters: "voters (snd (cast b m)) = voters b"
    and cast_inv: "inv b \<Longrightarrow> inv (snd (cast b m))"
    and get_voter: "inv b \<Longrightarrow> get b x = Some m \<Longrightarrow> voter m = x \<and> x \<in> voters b"
    and size_card: "inv b \<Longrightarrow> size b = int (card (dom (get b)))"
begin

lemma dom_get: "inv b \<Longrightarrow> dom (get b) \<subseteq> voters b"
  by (auto dest: get_voter)

lemma size_le_voters: "inv b \<Longrightarrow> size b \<le> int (card (voters b))"
  by (simp add: size_card card_mono finite_voters dom_get)

lemma cast_dom: "inv b \<Longrightarrow> dom (get (snd (cast b m))) = dom (get b) \<union> ({voter m} \<inter> voters b)"
  by (cases "voter m \<in> voters b") (auto simp: cast_get cast_refused)

lemma cast_again_size:
  "inv b \<Longrightarrow> voter m' = voter m \<Longrightarrow> size (snd (cast (snd (cast b m)) m')) = size (snd (cast b m))"
  by (simp add: size_card cast_inv cast_dom cast_voters Un_assoc)

lemma casts:
  "inv b \<Longrightarrow> inv (fold (\<lambda>m b. snd (cast b m)) ms b) \<and>
     voters (fold (\<lambda>m b. snd (cast b m)) ms b) = voters b \<and>
     dom (get (fold (\<lambda>m b. snd (cast b m)) ms b)) = dom (get b) \<union> (voter ` set ms \<inter> voters b)"
proof (induction ms arbitrary: b)
  case (Cons m ms)
  from Cons.IH [OF cast_inv, OF Cons.prems, of m] Cons.prems show ?case
    by (auto simp: cast_dom cast_voters)
qed simp

lemma size_casts:
  "inv b \<Longrightarrow> size (fold (\<lambda>m b. snd (cast b m)) ms b) =
     int (card (dom (get b) \<union> (voter ` set ms \<inter> voters b)))"
  using casts [of b ms] by (simp add: size_card)

end

definition ms_inv :: "MessageSet \<Rightarrow> bool" where
  "ms_inv ms \<longleftrightarrow> distinct (keys (messages ms)) \<and>
     (\<forall>(k, m) \<in> set (messages ms). k = MsgValidator m \<and> k \<in> set (ids (msValSet ms)))"

lemma ms_verify_iff:
  "ms_verify ms m = (if MsgValidator m \<in> set (ids (msValSet ms)) then None else Some ErrUnauthorized)"
  using GetById_None_iff [of "msValSet ms" "MsgValidator m"]
  by (auto simp: ms_verify_def split: option.splits)

lemma ms_inv_New [simp]: "ms_inv (NewMessageSet vs)"
  by (simp add: ms_inv_def NewMessageSet_def)

lemma NewMessageSet_simps [simp]:
  "messages (NewMessageSet vs) = []" "msValSet (NewMessageSet vs) = vs"
  by (simp_all add: NewMessageSet_def)

lemma msValSet_Add [simp]: "msValSet (snd (ms_Add ms m)) = msValSet ms"
  by (simp add: ms_Add_def split: option.splits)

lemma ms_Get_map_of: "ms_Get ms = map_of (messages ms)"
  by (simp add: fun_eq_iff ms_Get_def)

lemma ms_Get_Add:
  "MsgValidator m \<in> set (ids (msValSet ms)) \<Longrightarrow>
     ms_Get (snd (ms_Add ms m)) = (ms_Get ms)(MsgValidator m \<mapsto> m)"
  by (simp add: ms_Add_def ms_verify_iff ms_Get_def fun_eq_iff update_conv)

lemma ms_inv_Add:
  assumes "ms_inv ms"
  shows "ms_inv (snd (ms_Add ms m))"
proof (cases "MsgValidator m \<in> set (ids (msValSet ms))")
  case True
  let ?ms = "snd (ms_Add ms m)"
  have "messages ?ms = AList.update (MsgValidator m) m (messages ms)"
    using True by (simp add: ms_Add_def ms_verify_iff)
  with assms True show ?thesis
    by (auto simp: ms_inv_def dest!: in_update)
next
  case False
  with assms show ?thesis by (simp add: ms_Add_def ms_verify_iff)
qed

interpretation msgs: ballot_box
  "\<lambda>ms. set (ids (msValSet ms))" ms_Add ms_Get ms_Size MsgValidator ms_inv
proof unfold_locales
  fix b :: MessageSet and m x
  show "fst (ms_Add b m) = (if MsgValidator m \<in> set (ids (msValSet b)) then None else Some ErrUnauthorized)"
    by (simp add: ms_Add_def ms_verify_iff)
  show "MsgValidator m \<notin> set (ids (msValSet b)) \<Longrightarrow> snd (ms_Add b m) = b"
    by (simp add: ms_Add_def ms_verify_iff)
  assume inv: "ms_inv b"
  show "ms_Get b x = Some m \<Longrightarrow> MsgValidator m = x \<and> x \<in> set (ids (msValSet b))"
    using inv by (auto simp: ms_inv_def ms_Get_def dest!: map_of_SomeD)
  show "ms_Size b = int (card (dom (ms_Get b)))"
    using inv by (simp add: ms_Size_def ms_Get_map_of ms_inv_def length_keys_card dom_map_of_conv_image_fst)
qed (simp_all add: ms_Get_Add ms_inv_Add)

lemma ms_Values_iff: "ms_inv ms \<Longrightarrow> m \<in> set (ms_Values ms) \<longleftrightarrow> (\<exists>x. ms_Get ms x = Some m)"
  by (force simp: ms_inv_def ms_Values_def ms_Get_def dest: map_of_SomeD intro: map_of_is_SomeI)

lemma ms_voters_card:
  "ms_inv ms \<Longrightarrow> ms_Size ms = int (card (MsgValidator ` set (ms_Values ms)))"
proof -
  assume inv: "ms_inv ms"
  then have "dom (ms_Get ms) = MsgValidator ` set (ms_Values ms)"
    using ms_Values_iff [OF inv] msgs.get_voter [OF inv] by (force simp: image_iff)
  then show ?thesis by (simp add: msgs.size_card [OF inv])
qed


lemma ms_voters: "ms_inv ms \<Longrightarrow> dom (ms_Get ms) = MsgValidator ` set (ms_Values ms)"
  using ms_Values_iff [of ms] msgs.get_voter [of ms] by (force simp: image_iff)

section \<open>Properties\<close>

text \<open>A message set counts voters, not messages. Whatever messages are added to a fresh set,
  with repetitions and senders that are no validators, its size is the number of validators
  among the senders, and it never exceeds the number of validators.\<close>

lemma message_set_counts_voters:
  "ms_Size (fold (\<lambda>m ms. snd (ms_Add ms m)) ml (NewMessageSet vs)) =
     int (card (MsgValidator ` set ml \<inter> set (ids vs)))"
  using msgs.size_casts [OF ms_inv_New, of ml vs] by (simp add: ms_Get_map_of)

end
