(* ===== verification/Pbft_Quorum.thy ===== *)
theory Pbft_Quorum
  imports Pbft_MessageSet
begin

text \<open>
  The threshold of src/core/utils.go that the prepare, commit and round-change phases share, and
  the quorum argument built on it. The locale \<open>quorum_system\<close> is the contract the agreement
  argument needs (two sets of voters that pass the test share more than the tolerated number of
  faults); it is interpreted on \<open>reachThreshold\<close> for the sizes at which the contract holds.
\<close>

definition reachThreshold :: "ValidatorSet \<Rightarrow> int \<Rightarrow> bool" where
  "reachThreshold vs num =
     (let f = FaultTolerantNum vs
      in if f = 0 then num = Size vs
         else if num > 2 * f then True
         else False)"

locale quorum_system =
  fixes wf :: "'s \<Rightarrow> bool"
    and nodes :: "'s \<Rightarrow> 'a set"
    and enough :: "'s \<Rightarrow> int \<Rightarrow> bool"
    and faults :: "'s \<Rightarrow> int"
  assumes finite_nodes: "finite (nodes s)"
    and overlap: "wf s \<Longrightarrow> enough s m \<Longrightarrow> enough s n \<Longrightarrow> m + n > int (card (nodes s)) + faults s"
begin

lemma intersection:
  assumes "wf s" "P \<subseteq> nodes s" "Q \<subseteq> nodes s"
    and "enough s (int (card P))" "enough s (int (card Q))"
  shows "int (card (P \<inter> Q)) > faults s"
proof -
  have fin: "finite P" "finite Q"
    using assms(2,3) finite_nodes finite_subset by blast+
  have "card P + card Q = card (P \<union> Q) + card (P \<inter> Q)"
    using fin by (rule card_Un_Int)
  moreover have "card (P \<union> Q) \<le> card (nodes s)"
    using assms(2,3) by (intro card_mono finite_nodes) blast
  moreover have "int (card P) + int (card Q) > int (card (nodes s)) + faults s"
    using assms(1,4,5) by (intro overlap)
  ultimately show ?thesis by linarith
qed

lemma honest_intersection:
  assumes "wf s" "P \<subseteq> nodes s" "Q \<subseteq> nodes s"
    and "enough s (int (card P))" "enough s (int (card Q))"
    and "finite B" "int (card B) \<le> faults s"
  shows "\<exists>x \<in> P \<inter> Q. x \<notin> B"
proof (rule ccontr)
  assume "\<not> ?thesis"
  then have "P \<inter> Q \<subseteq> B" by blast
  then have "card (P \<inter> Q) \<le> card B" using \<open>finite B\<close> by (simp add: card_mono)
  with intersection [OF assms(1-5)] assms(7) show False by linarith
qed

text \<open>If each honest node backs one value only, two quorums cannot back different values.\<close>

lemma agreement:
  assumes "wf s" "P \<subseteq> nodes s" "Q \<subseteq> nodes s"
    and "enough s (int (card P))" "enough s (int (card Q))"
    and "finite B" "int (card B) \<le> faults s"
    and backsP: "\<And>x. x \<in> P \<Longrightarrow> backs x u" and backsQ: "\<And>x. x \<in> Q \<Longrightarrow> backs x v"
    and honest: "\<And>x. x \<notin> B \<Longrightarrow> backs x u \<Longrightarrow> backs x v \<Longrightarrow> u = v"
  shows "u = v"
  using honest_intersection [OF assms(1-7)] backsP backsQ honest by blast

end

lemma card_ids: "distinct (ids vs) \<Longrightarrow> int (card (set (ids vs))) = Size vs"
  by (simp add: distinct_card Size_ids)

lemma reachThreshold_iff:
  "reachThreshold vs num \<longleftrightarrow>
     (if 1 \<le> Size vs \<and> Size vs \<le> 3 then num = Size vs else num > 2 * ((Size vs - 1) div 3))"
proof -
  have "FaultTolerantNum vs = 0 \<longleftrightarrow> 1 \<le> Size vs \<and> Size vs \<le> 3"
    by (simp add: FaultTolerantNum_div) presburger
  then show ?thesis by (auto simp: reachThreshold_def FaultTolerantNum_div)
qed

lemma reachThreshold_ids: "ids vs = ids ws \<Longrightarrow> reachThreshold vs = reachThreshold ws"
  by (simp add: fun_eq_iff reachThreshold_def Size_ids FaultTolerantNum_div)

text \<open>The sizes at which the threshold is a Byzantine quorum.\<close>

definition quorum_sized :: "ValidatorSet \<Rightarrow> bool" where
  "quorum_sized vs \<longleftrightarrow>
     distinct (ids vs) \<and> 0 < Size vs \<and> (Size vs \<le> 3 \<or> Size vs mod 3 = 1)"

lemma threshold_overlap:
  assumes "quorum_sized vs" "reachThreshold vs m" "reachThreshold vs n"
  shows "m + n > Size vs + FaultTolerantNum vs"
proof (cases "Size vs \<le> 3")
  case True
  then have "FaultTolerantNum vs = 0"
    using assms(1) by (simp add: quorum_sized_def FaultTolerantNum_div)
  with True assms show ?thesis
    by (auto simp: quorum_sized_def reachThreshold_iff)
next
  case False
  then have "Size vs mod 3 = 1" using assms(1) by (simp add: quorum_sized_def)
  then have "Size vs = 3 * ((Size vs - 1) div 3) + 1" by presburger
  with False assms(2,3) show ?thesis
    by (simp add: reachThreshold_iff FaultTolerantNum_div)
qed

interpretation vsq: quorum_system
  quorum_sized "\<lambda>vs. set (ids vs)" reachThreshold FaultTolerantNum
  by unfold_locales (simp_all add: threshold_overlap card_ids quorum_sized_def)

text \<open>Outside those sizes the first and the last \<open>2f + 1\<close> validators share at most \<open>f\<close>.\<close>

lemma threshold_gap:
  assumes "distinct (ids vs)" "3 < Size vs" "Size vs mod 3 \<noteq> 1"
  shows "\<exists>P Q. P \<subseteq> set (ids vs) \<and> Q \<subseteq> set (ids vs) \<and>
    reachThreshold vs (int (card P)) \<and> reachThreshold vs (int (card Q)) \<and>
    int (card (P \<inter> Q)) \<le> FaultTolerantNum vs"
proof -
  define f where "f = nat ((Size vs - 1) div 3)"
  define n where "n = length (ids vs)"
  have f: "int f = FaultTolerantNum vs" "1 \<le> f"
    using assms(2) by (auto simp: f_def FaultTolerantNum_div)
  have "3 * ((Size vs - 1) div 3) + 2 \<le> Size vs \<and> Size vs \<le> 3 * ((Size vs - 1) div 3) + 3"
    using assms(3) by presburger
  then have n: "3 * f + 2 \<le> n" "n \<le> 3 * f + 3"
    using f(1) by (simp_all add: FaultTolerantNum_div Size_ids n_def)
  let ?P = "set (take (2 * f + 1) (ids vs))"
  let ?Q = "set (drop (n - (2 * f + 1)) (ids vs))"
  have card: "card ?P = 2 * f + 1" "card ?Q = 2 * f + 1"
    using n assms(1) by (simp_all add: distinct_card n_def)
  have "set (take (n - (2 * f + 1)) (ids vs)) \<subseteq> ?P"
    using n f by (intro set_take_subset_set_take) simp
  then have "set (ids vs) \<subseteq> ?P \<union> ?Q"
    using set_append append_take_drop_id [of "n - (2 * f + 1)" "ids vs"] by (metis Un_mono order_refl)
  then have "n \<le> card (?P \<union> ?Q)"
    using assms(1) by (metis List.finite_set card_mono distinct_card finite_UnI n_def)
  moreover have "card ?P + card ?Q = card (?P \<union> ?Q) + card (?P \<inter> ?Q)"
    by (rule card_Un_Int) simp_all
  ultimately have "card (?P \<inter> ?Q) \<le> f" using card n by linarith
  moreover have "reachThreshold vs (int (2 * f + 1))"
    using f assms(2) by (simp add: reachThreshold_iff FaultTolerantNum_div)
  ultimately have "?P \<subseteq> set (ids vs) \<and> ?Q \<subseteq> set (ids vs) \<and>
    reachThreshold vs (int (card ?P)) \<and> reachThreshold vs (int (card ?Q)) \<and>
    int (card (?P \<inter> ?Q)) \<le> FaultTolerantNum vs"
    using card f by (auto dest: in_set_takeD in_set_dropD)
  then show ?thesis by blast
qed


section \<open>Properties\<close>

text \<open>C8: when the threshold is a Byzantine quorum. Any two sets of validators that pass
  \<open>reachThreshold\<close> share more than \<open>f\<close> members exactly when there are at most three validators or
  their number is \<open>3 f + 1\<close>; with \<open>3 f + 2\<close> or \<open>3 f + 3\<close> validators two quorums may share only faulty
  ones.\<close>

theorem threshold_is_quorum_iff:
  assumes "distinct (ids vs)" "0 < Size vs"
  shows "(\<forall>P Q. P \<subseteq> set (ids vs) \<and> Q \<subseteq> set (ids vs) \<and> reachThreshold vs (int (card P)) \<and>
       reachThreshold vs (int (card Q)) \<longrightarrow> FaultTolerantNum vs < int (card (P \<inter> Q)))
     \<longleftrightarrow> Size vs \<le> 3 \<or> Size vs mod 3 = 1"
proof
  assume all: "\<forall>P Q. P \<subseteq> set (ids vs) \<and> Q \<subseteq> set (ids vs) \<and> reachThreshold vs (int (card P)) \<and>
       reachThreshold vs (int (card Q)) \<longrightarrow> FaultTolerantNum vs < int (card (P \<inter> Q))"
  show "Size vs \<le> 3 \<or> Size vs mod 3 = 1"
  proof (rule ccontr)
    assume "\<not> ?thesis"
    then have "3 < Size vs" "Size vs mod 3 \<noteq> 1" by auto
    from threshold_gap [OF assms(1) this] obtain P Q where
      "P \<subseteq> set (ids vs)" "Q \<subseteq> set (ids vs)" "reachThreshold vs (int (card P))"
      "reachThreshold vs (int (card Q))" "int (card (P \<inter> Q)) \<le> FaultTolerantNum vs" by blast
    with all have "FaultTolerantNum vs < int (card (P \<inter> Q))" by blast
    with \<open>int (card (P \<inter> Q)) \<le> FaultTolerantNum vs\<close> show False by simp
  qed
next
  assume "Size vs \<le> 3 \<or> Size vs mod 3 = 1"
  then have "quorum_sized vs" using assms by (simp add: quorum_sized_def)
  then show "\<forall>P Q. P \<subseteq> set (ids vs) \<and> Q \<subseteq> set (ids vs) \<and> reachThreshold vs (int (card P)) \<and>
       reachThreshold vs (int (card Q)) \<longrightarrow> FaultTolerantNum vs < int (card (P \<inter> Q))"
    by (intro allI impI, elim conjE) (rule vsq.intersection)
qed

theorem threshold_is_quorum_iff_witness:
  "\<not> (\<forall>P Q. P \<subseteq> set (ids (newDefaultSet 0 [''a'', ''b'', ''c'', ''d'', ''e''] RoundRobin)) \<and>
       Q \<subseteq> set (ids (newDefaultSet 0 [''a'', ''b'', ''c'', ''d'', ''e''] RoundRobin)) \<and>
       reachThreshold (newDefaultSet 0 [''a'', ''b'', ''c'', ''d'', ''e''] RoundRobin) (int (card P)) \<and>
       reachThreshold (newDefaultSet 0 [''a'', ''b'', ''c'', ''d'', ''e''] RoundRobin) (int (card Q)) \<longrightarrow>
       FaultTolerantNum (newDefaultSet 0 [''a'', ''b'', ''c'', ''d'', ''e''] RoundRobin) < int (card (P \<inter> Q)))"
  using threshold_is_quorum_iff [of "newDefaultSet 0 [''a'', ''b'', ''c'', ''d'', ''e''] RoundRobin"]
  by simp

end
