(* ===== verification/Pbft_RoundState.thy ===== *)
theory Pbft_RoundState
  imports Pbft_Quorum
begin

text \<open>
  The state of one round (src/core/roundstate.go) and the tally of round-change messages
  (the second half of src/core/round.go). The lemmas show what the tallies count: prepares and
  commits together count each validator once, the round-change tally of a round counts its
  senders, and \<open>MaxRound\<close> finds the largest round with enough senders.
\<close>

section \<open>Round state\<close>

record roundState =
  rsRound :: int
  rsSequence :: u64
  rsPrePrepare :: "PrePrepare ptr"
  Prepares :: MessageSet
  Commits :: MessageSet
  lockedHash :: Hash
  pendingRequest :: "Request ptr"

definition newRoundState ::
  "View \<Rightarrow> ValidatorSet \<Rightarrow> Hash \<Rightarrow> PrePrepare ptr \<Rightarrow> Request ptr \<Rightarrow> roundState go" where
  "newRoundState view vs lh pp pr = do {
     r \<leftarrow> Round view;
     s \<leftarrow> Sequence view;
     ret \<lparr>rsRound = r, rsSequence = big_Uint64 s, rsPrePrepare = pp,
          Prepares = NewMessageSet vs, Commits = NewMessageSet vs,
          lockedHash = lh, pendingRequest = pr\<rparr>
   }"

fun dedup_loop :: "MessageSet \<Rightarrow> Message list \<Rightarrow> int \<Rightarrow> int" where
  "dedup_loop commits [] result = result"
| "dedup_loop commits (m # ms) result =
     dedup_loop commits ms (if ms_Get commits (MsgValidator m) \<noteq> None then result - 1 else result)"

definition GetPrepareOrCommitSize :: "roundState \<Rightarrow> int" where
  "GetPrepareOrCommitSize s =
     dedup_loop (Commits s) (ms_Values (Prepares s)) (ms_Size (Prepares s) + ms_Size (Commits s))"

text \<open>\<open>Subject\<close> calls \<open>Hash\<close> on the proposal of the accepted pre-prepare; a nil proposal panics.\<close>

definition SubjectOf :: "roundState \<Rightarrow> Subject ptr go" where
  "SubjectOf s =
     (case rsPrePrepare s of
        None \<Rightarrow> ret None
      | Some pp \<Rightarrow> do {
          p \<leftarrow> ppProposal pp;
          ret (Some \<lparr>sbView = Some (mkView (big_of_u64 (rsSequence s)) (rsRound s)), Digest = PHash p\<rparr>)
        })"

definition SetPrePrepare :: "PrePrepare \<Rightarrow> roundState \<Rightarrow> roundState" where
  "SetPrePrepare pp s = s\<lparr>rsPrePrepare := Some pp\<rparr>"

definition ProposalOf :: "roundState \<Rightarrow> Proposal ptr" where
  "ProposalOf s = (case rsPrePrepare s of Some pp \<Rightarrow> ppProposal pp | None \<Rightarrow> None)"

definition SetRound :: "int \<Rightarrow> roundState \<Rightarrow> roundState" where
  "SetRound r s = s\<lparr>rsRound := r\<rparr>"

definition RoundOf :: "roundState \<Rightarrow> int" where
  "RoundOf s = rsRound s"

definition SetSequence :: "u64 \<Rightarrow> roundState \<Rightarrow> roundState" where
  "SetSequence seq s = s\<lparr>rsSequence := seq\<rparr>"

definition SequenceOf :: "roundState \<Rightarrow> u64" where
  "SequenceOf s = rsSequence s"

definition LockHash :: "roundState \<Rightarrow> roundState go" where
  "LockHash s =
     (case rsPrePrepare s of
        None \<Rightarrow> ret s
      | Some pp \<Rightarrow> do {
          p \<leftarrow> ppProposal pp;
          ret (s\<lparr>lockedHash := PHash p\<rparr>)
        })"

definition UnlockHash :: "roundState \<Rightarrow> roundState" where
  "UnlockHash s = s\<lparr>lockedHash := emptyHash\<rparr>"

definition IsHashLocked :: "lib \<Rightarrow> roundState \<Rightarrow> bool" where
  "IsHashLocked L s = (if hashNil L (lockedHash s) then False else True)"

definition GetLockedHash :: "roundState \<Rightarrow> Hash" where
  "GetLockedHash s = lockedHash s"

lemmas roundState_reads [go_simps] =
  RoundOf_def SequenceOf_def GetLockedHash_def IsHashLocked_def ProposalOf_def
  SetPrePrepare_def UnlockHash_def

lemma newRoundState_mkView [simp]:
  "newRoundState (mkView s r) vs lh pp pr =
     ret \<lparr>rsRound = r, rsSequence = big_Uint64 s, rsPrePrepare = pp,
          Prepares = NewMessageSet vs, Commits = NewMessageSet vs,
          lockedHash = lh, pendingRequest = pr\<rparr>"
  by (simp add: newRoundState_def)

text \<open>The count of prepares and commits is the number of validators that sent either.\<close>

lemma dedup_loop_eq:
  "dedup_loop c ms n = n - int (length (filter (\<lambda>m. ms_Get c (MsgValidator m) \<noteq> None) ms))"
  by (induction c ms n rule: dedup_loop.induct) auto

lemma dedup_filter_card:
  assumes "ms_inv p"
  shows "length (filter (\<lambda>m. ms_Get c (MsgValidator m) \<noteq> None) (ms_Values p)) =
    card (dom (ms_Get p) \<inter> dom (ms_Get c))"
proof -
  let ?P = "\<lambda>(k, m). ms_Get c k \<noteq> None"
  have "filter (\<lambda>m. ms_Get c (MsgValidator m) \<noteq> None) (ms_Values p) =
      map snd (filter (\<lambda>(k, m). ms_Get c (MsgValidator m) \<noteq> None) (messages p))"
    by (simp add: ms_Values_def filter_map o_def case_prod_unfold)
  also have "filter (\<lambda>(k, m). ms_Get c (MsgValidator m) \<noteq> None) (messages p) =
      filter ?P (messages p)"
    using assms by (intro filter_cong) (auto simp: ms_inv_def)
  finally have "length (filter (\<lambda>m. ms_Get c (MsgValidator m) \<noteq> None) (ms_Values p)) =
      length (filter ?P (messages p))" by simp
  also have "\<dots> = card (set (keys (filter ?P (messages p))))"
    using assms by (intro length_keys_card) (simp add: ms_inv_def distinct_map_filter)
  also have "set (keys (filter ?P (messages p))) = dom (ms_Get p) \<inter> dom (ms_Get c)"
    by (force simp: ms_Get_map_of dom_map_of_conv_image_fst [of "messages p"])
  finally show ?thesis .
qed

lemma GetPrepareOrCommitSize_card:
  assumes "ms_inv (Prepares s)" "ms_inv (Commits s)"
  shows "GetPrepareOrCommitSize s = int (card (dom (ms_Get (Prepares s)) \<union> dom (ms_Get (Commits s))))"
proof -
  let ?P = "dom (ms_Get (Prepares s))" and ?C = "dom (ms_Get (Commits s))"
  have fin: "finite ?P" "finite ?C" by (simp_all add: ms_Get_map_of finite_dom_map_of)
  have "card ?P + card ?C = card (?P \<union> ?C) + card (?P \<inter> ?C)"
    using fin by (rule card_Un_Int)
  then show ?thesis
    using assms dedup_filter_card [OF assms(1), of "Commits s"]
    unfolding GetPrepareOrCommitSize_def dedup_loop_eq by (simp only: msgs.size_card)
qed

section \<open>Round changes\<close>

record roundChangeSet =
  rcValSet :: ValidatorSet
  roundChanges :: "(u64 \<times> MessageSet) list"

definition newRoundChangeSet :: "ValidatorSet \<Rightarrow> roundChangeSet" where
  "newRoundChangeSet vs = \<lparr>rcValSet = vs, roundChanges = []\<rparr>"

definition rcs_Add :: "roundChangeSet \<Rightarrow> int \<Rightarrow> Message \<Rightarrow> (int \<times> err option) \<times> roundChangeSet" where
  "rcs_Add rcs r msg =
     (let rnd = big_Uint64 r;
          rcs1 = (case map_of (roundChanges rcs) rnd of
                    None \<Rightarrow> rcs\<lparr>roundChanges :=
                              AList.update rnd (NewMessageSet (rcValSet rcs)) (roundChanges rcs)\<rparr>
                  | Some _ \<Rightarrow> rcs);
          ms = the (map_of (roundChanges rcs1) rnd)
      in case ms_Add ms msg of
           (Some e, _) \<Rightarrow> ((0, Some e), rcs1)
         | (None, ms') \<Rightarrow>
             ((ms_Size ms', None), rcs1\<lparr>roundChanges := AList.update rnd ms' (roundChanges rcs1)\<rparr>))"

definition rcs_Clear :: "roundChangeSet \<Rightarrow> int \<Rightarrow> roundChangeSet" where
  "rcs_Clear rcs r =
     rcs\<lparr>roundChanges :=
       filter (\<lambda>(k, rms). \<not> (length (ms_Values rms) = 0 \<or> k < big_Uint64 r)) (roundChanges rcs)\<rparr>"

fun MaxRound_loop :: "int \<Rightarrow> (u64 \<times> MessageSet) list \<Rightarrow> int ptr \<Rightarrow> int ptr" where
  "MaxRound_loop num [] maxRound = maxRound"
| "MaxRound_loop num ((k, rms) # rest) maxRound =
     (if ms_Size rms < num then MaxRound_loop num rest maxRound
      else let r = big_of_u64 k
           in MaxRound_loop num rest
                (case maxRound of
                   None \<Rightarrow> Some r
                 | Some m \<Rightarrow> if big_Cmp m r < 0 then Some r else maxRound))"

definition MaxRound :: "roundChangeSet \<Rightarrow> int \<Rightarrow> int ptr" where
  "MaxRound rcs num = MaxRound_loop num (roundChanges rcs) None"

text \<open>The votes recorded for a round.\<close>

definition rcs_votes :: "roundChangeSet \<Rightarrow> u64 \<Rightarrow> string set" where
  "rcs_votes rcs k = (case map_of (roundChanges rcs) k of None \<Rightarrow> {} | Some ms \<Rightarrow> dom (ms_Get ms))"

definition rcs_inv :: "roundChangeSet \<Rightarrow> bool" where
  "rcs_inv rcs \<longleftrightarrow> distinct (keys (roundChanges rcs)) \<and>
     (\<forall>(k, ms) \<in> set (roundChanges rcs). ms_inv ms \<and> msValSet ms = rcValSet rcs)"

lemma rcs_inv_new [simp]: "rcs_inv (newRoundChangeSet vs)" "rcValSet (newRoundChangeSet vs) = vs"
  by (simp_all add: rcs_inv_def newRoundChangeSet_def)

lemma rcs_inv_get:
  "rcs_inv rcs \<Longrightarrow> map_of (roundChanges rcs) k = Some ms \<Longrightarrow> ms_inv ms \<and> msValSet ms = rcValSet rcs"
  by (auto simp: rcs_inv_def dest: map_of_SomeD)

lemma rcs_inv_update:
  "rcs_inv rcs \<Longrightarrow> ms_inv ms \<Longrightarrow> msValSet ms = rcValSet rcs \<Longrightarrow>
     rcs_inv (rcs\<lparr>roundChanges := AList.update k ms (roundChanges rcs)\<rparr>)"
  by (auto simp: rcs_inv_def dest!: in_update)

lemma rcs_inv_Clear: "rcs_inv rcs \<Longrightarrow> rcs_inv (rcs_Clear rcs r)"
  by (auto simp: rcs_inv_def rcs_Clear_def distinct_map_filter)

lemma rcValSet_Clear [simp]: "rcValSet (rcs_Clear rcs r) = rcValSet rcs"
  by (simp add: rcs_Clear_def)

text \<open>\<open>Add\<close> in terms of the set the round had, empty if none.\<close>

definition rcs_get :: "roundChangeSet \<Rightarrow> u64 \<Rightarrow> MessageSet" where
  "rcs_get rcs k = (case map_of (roundChanges rcs) k of None \<Rightarrow> NewMessageSet (rcValSet rcs) | Some ms \<Rightarrow> ms)"

lemma rcs_get_inv: "rcs_inv rcs \<Longrightarrow> ms_inv (rcs_get rcs k) \<and> msValSet (rcs_get rcs k) = rcValSet rcs"
  by (auto simp: rcs_get_def split: option.splits dest: rcs_inv_get)

lemma rcs_votes_get: "rcs_votes rcs k = dom (ms_Get (rcs_get rcs k))"
  by (auto simp: rcs_votes_def rcs_get_def ms_Get_map_of split: option.splits)

lemma rcs_Add_cases:
  assumes inv: "rcs_inv rcs"
  shows "MsgValidator msg \<in> set (ids (rcValSet rcs)) \<Longrightarrow>
     fst (rcs_Add rcs r msg) = (ms_Size (snd (ms_Add (rcs_get rcs (big_Uint64 r)) msg)), None) \<and>
     map_of (roundChanges (snd (rcs_Add rcs r msg))) =
       (map_of (roundChanges rcs))(big_Uint64 r \<mapsto> snd (ms_Add (rcs_get rcs (big_Uint64 r)) msg))"
    and "MsgValidator msg \<notin> set (ids (rcValSet rcs)) \<Longrightarrow>
     fst (rcs_Add rcs r msg) = (0, Some ErrUnauthorized)"
  using rcs_inv_get [OF inv, of "big_Uint64 r"] inv
  by (auto simp: rcs_Add_def rcs_get_def Let_def ms_Add_def ms_verify_iff update_conv'
      split: option.splits)

lemma ms_Add_keeps:
  "ms_Add ms m = (e, ms') \<Longrightarrow> (ms_inv ms \<longrightarrow> ms_inv ms') \<and> msValSet ms' = msValSet ms"
  using ms_inv_Add [of ms m] msValSet_Add [of ms m] by auto

lemma rcs_inv_Add:
  assumes "rcs_inv rcs"
  shows "rcs_inv (snd (rcs_Add rcs r msg)) \<and> rcValSet (snd (rcs_Add rcs r msg)) = rcValSet rcs"
  using assms rcs_inv_get [OF assms, of "big_Uint64 r"]
  by (auto simp: rcs_Add_def Let_def update_conv' split: option.splits prod.splits
      intro!: rcs_inv_update dest!: ms_Add_keeps)

lemma rcs_Add_votes:
  assumes inv: "rcs_inv rcs" and auth: "MsgValidator msg \<in> set (ids (rcValSet rcs))"
  shows "rcs_votes (snd (rcs_Add rcs r msg)) =
      (rcs_votes rcs)(big_Uint64 r := insert (MsgValidator msg) (rcs_votes rcs (big_Uint64 r)))"
    and "fst (rcs_Add rcs r msg) =
      (int (card (insert (MsgValidator msg) (rcs_votes rcs (big_Uint64 r)))), None)"
proof -
  let ?k = "big_Uint64 r" and ?ms = "rcs_get rcs (big_Uint64 r)"
  note get = rcs_get_inv [OF inv, of ?k]
  have dom: "dom (ms_Get (snd (ms_Add ?ms msg))) = insert (MsgValidator msg) (rcs_votes rcs ?k)"
    using get auth by (simp add: ms_Get_Add rcs_votes_get)
  show "rcs_votes (snd (rcs_Add rcs r msg)) =
      (rcs_votes rcs)(?k := insert (MsgValidator msg) (rcs_votes rcs ?k))"
    using rcs_Add_cases(1) [OF inv auth, of r] dom
    by (simp add: fun_eq_iff rcs_votes_def)
  show "fst (rcs_Add rcs r msg) = (int (card (insert (MsgValidator msg) (rcs_votes rcs ?k))), None)"
    using rcs_Add_cases(1) [OF inv auth, of r] dom get
    by (simp add: msgs.size_card msgs.cast_inv)
qed

text \<open>\<open>MaxRound\<close> is the greatest of the rounds that have at least \<open>num\<close> senders, nil if none has.\<close>

lemma MaxRound_loop_None:
  "MaxRound_loop num l m = None \<longleftrightarrow> m = None \<and> (\<forall>(k, ms) \<in> set l. ms_Size ms < num)"
  by (induction num l m rule: MaxRound_loop.induct) (auto simp: Let_def split: option.splits)

lemma MaxRound_loop_Some:
  "MaxRound_loop num l m = Some r \<Longrightarrow>
     (m = Some r \<or> (\<exists>(k, ms) \<in> set l. num \<le> ms_Size ms \<and> r = big_of_u64 k)) \<and>
     (\<forall>(k, ms) \<in> set l. num \<le> ms_Size ms \<longrightarrow> big_of_u64 k \<le> r) \<and> (\<forall>x. m = Some x \<longrightarrow> x \<le> r)"
proof (induction num l m rule: MaxRound_loop.induct)
  case (2 num k rms rest m)
  show ?case
  proof (cases "ms_Size rms < num")
    case True
    with "2.prems" "2.IH"(1) show ?thesis by auto
  next
    case False
    with "2.prems" "2.IH"(2) show ?thesis
      by (force simp: Let_def split: option.splits if_splits)
  qed
qed simp


lemma rcs_Add_refused:
  assumes "rcs_inv rcs" "MsgValidator msg \<notin> set (ids (rcValSet rcs))"
  shows "rcs_votes (snd (rcs_Add rcs r msg)) = rcs_votes rcs"
  using assms rcs_inv_get [OF assms(1), of "big_Uint64 r"]
  by (auto simp: rcs_Add_def Let_def ms_Add_def ms_verify_iff update_conv' rcs_votes_def fun_eq_iff
      ms_Get_map_of split: option.splits)

lemma rcs_votes_mem:
  assumes "rcs_inv rcs" "(k, ms) \<in> set (roundChanges rcs)"
  shows "int (card (rcs_votes rcs k)) = ms_Size ms"
proof -
  have "map_of (roundChanges rcs) k = Some ms"
    using assms by (simp add: rcs_inv_def map_of_is_SomeI)
  then show ?thesis
    using rcs_inv_get [OF assms(1)] by (auto simp: rcs_votes_def msgs.size_card)
qed

lemma rcs_votes_size:
  assumes "rcs_inv rcs"
  shows "rcs_votes rcs k = {} \<or> (\<exists>ms. (k, ms) \<in> set (roundChanges rcs) \<and>
     int (card (rcs_votes rcs k)) = ms_Size ms)"
proof (cases "map_of (roundChanges rcs) k")
  case (Some ms)
  then have "(k, ms) \<in> set (roundChanges rcs)" by (rule map_of_SomeD)
  then show ?thesis using rcs_votes_mem [OF assms] by blast
qed (simp add: rcs_votes_def)

lemma MaxRound_new: "MaxRound (newRoundChangeSet vs) num = None"
  by (simp add: MaxRound_def newRoundChangeSet_def)

section \<open>Properties\<close>

text \<open>C25: the prepared test counts each validator once. \<open>GetPrepareOrCommitSize\<close> is the number of
  validators that sent a prepare, a commit or both.\<close>

theorem prepare_or_commit_counts_voters:
  assumes "ms_inv (Prepares s)" "ms_inv (Commits s)"
  shows "GetPrepareOrCommitSize s =
    int (card (MsgValidator ` (set (ms_Values (Prepares s)) \<union> set (ms_Values (Commits s)))))"
  using GetPrepareOrCommitSize_card [OF assms] ms_voters [OF assms(1)] ms_voters [OF assms(2)]
  by (simp add: image_Un)

theorem prepare_or_commit_counts_voters_witness:
  "\<exists>s. ms_inv (Prepares s) \<and> ms_inv (Commits s) \<and> GetPrepareOrCommitSize s = 2 \<and>
     GetPrepareOrCommitSize s =
       int (card (MsgValidator ` (set (ms_Values (Prepares s)) \<union> set (ms_Values (Commits s)))))"
proof -
  define m :: "string \<Rightarrow> u64 \<Rightarrow> Message" where
    "m x k = \<lparr>Code = k, Msg = [], MsgValidator = x, Signature = None, CommittedSeal = None\<rparr>" for x k
  define new where "new = NewMessageSet (newDefaultSet 0 [''a'', ''b''] RoundRobin)"
  define s where "s = \<lparr>rsRound = 0, rsSequence = 1, rsPrePrepare = None,
    Prepares = snd (ms_Add (snd (ms_Add new (m ''a'' MsgPrepare))) (m ''b'' MsgPrepare)),
    Commits = snd (ms_Add new (m ''a'' MsgCommit)), lockedHash = 0, pendingRequest = None\<rparr>"
  have inv: "ms_inv (Prepares s)" "ms_inv (Commits s)"
    by (simp_all add: s_def new_def ms_inv_Add)
  moreover have "GetPrepareOrCommitSize s = 2" unfolding s_def new_def m_def by code_simp
  ultimately show ?thesis using prepare_or_commit_counts_voters [OF inv] by blast
qed

text \<open>C26: a round-change vote of a validator is counted once per round (rounds modulo
  \<open>2 ^ 64\<close>), leaves the votes for the other rounds alone, and \<open>Add\<close> returns how many
  validators have asked for the round; a vote of anyone else is refused and returns 0.\<close>

theorem round_change_tally:
  assumes "rcs_inv rcs"
  shows "if MsgValidator msg \<in> set (ids (rcValSet rcs))
    then rcs_votes (snd (rcs_Add rcs r msg)) =
           (rcs_votes rcs)(big_Uint64 r := insert (MsgValidator msg) (rcs_votes rcs (big_Uint64 r))) \<and>
         fst (rcs_Add rcs r msg) = (int (card (rcs_votes (snd (rcs_Add rcs r msg)) (big_Uint64 r))), None)
    else rcs_votes (snd (rcs_Add rcs r msg)) = rcs_votes rcs \<and>
         fst (rcs_Add rcs r msg) = (0, Some ErrUnauthorized)"
proof (cases "MsgValidator msg \<in> set (ids (rcValSet rcs))")
  case True
  then show ?thesis using rcs_Add_votes [OF assms True, of r] by simp
next
  case False
  then show ?thesis using rcs_Add_cases(2) [OF assms False, of r] rcs_Add_refused [OF assms False, of r] by simp
qed

theorem round_change_tally_witness:
  "fst (rcs_Add (newRoundChangeSet (newDefaultSet 0 [''a'', ''b''] RoundRobin)) 3
      \<lparr>Code = 3, Msg = [], MsgValidator = ''b'', Signature = None, CommittedSeal = None\<rparr>) = (1, None)"
  using round_change_tally [of "newRoundChangeSet (newDefaultSet 0 [''a'', ''b''] RoundRobin)"
      "\<lparr>Code = 3, Msg = [], MsgValidator = ''b'', Signature = None, CommittedSeal = None\<rparr>" 3]
  unfolding rcs_inv_new(2) by (simp add: rcs_Add_votes(1) rcs_votes_def) (simp add: newRoundChangeSet_def)



end
