(* ===== verification/Pbft_Core.thy ===== *)
theory Pbft_Core
  imports Pbft_RoundState
begin

text \<open>
  The consensus core, \<open>struct core\<close> of src/core/pbft.go, with its operations in the order in which
  they call one another: views and message checks (utils.go), gossip and signing (broadcast.go),
  pending requests (request.go), the backlog of future messages (backlog.go), the send operations
  of the three phases, round changes (round.go), the handlers, and the body of the event loop
  (pbft.go).

  The channels of the core are lists of the values sent and not yet received, whether buffered
  or held by a goroutine blocked on the send; the step relation of theory \<open>Pbft_Loop\<close> takes
  them out in any order. The last two fields record the calls made on the
  broadcaster and on \<open>backend.Commit\<close>, the latter with the view they were made in. The validator set the core holds is a value: the copies
  kept by its message sets differ from it at most in the proposer, which they never read.

  The parameter \<open>env\<close> of an operation is what it finds outside the core: the third-party
  functions, the backend, the broadcaster and the clock.
\<close>

section \<open>Environment and state\<close>

record backend =
  beValidators :: "Proposal \<Rightarrow> ValidatorSet ptr"
  beParentValidators :: "Proposal \<Rightarrow> ValidatorSet ptr"
  beVerify :: "Proposal \<Rightarrow> err option"
  beCommit :: "Proposal \<Rightarrow> SignResult ptr list \<Rightarrow> err option"
  beSign :: "bytes \<Rightarrow> err + SignResult ptr"
  beLastProposal :: "Proposal ptr \<times> string"
  beHasProposal :: "Hash \<Rightarrow> u64 \<Rightarrow> bool"
  beGetProposer :: "u64 \<Rightarrow> string"

record env =
  envLib :: lib
  envBackend :: backend
  envBroadcaster :: "(string list \<Rightarrow> bytes \<Rightarrow> err option) ptr"
  envNow :: nat

text \<open>\<open>preque.Prque\<close>: the entries in the order they were pushed, each with its priority. Which of
  them \<open>Pop\<close> takes is the library's choice; \<open>prque_ok\<close> is its documentation, that it is one of
  the highest priority.\<close>

type_synonym 'a prque = "('a \<times> int) list"

definition prque_Push :: "'a prque \<Rightarrow> 'a \<Rightarrow> int \<Rightarrow> 'a prque" where
  "prque_Push q x p = q @ [(x, p)]"

definition prque_Pop :: "lib \<Rightarrow> 'a prque \<Rightarrow> ('a \<times> int) \<times> 'a prque" where
  "prque_Pop L q =
     (let i = popIndex L (map snd q) mod length q
      in (q ! i, take i q @ drop (Suc i) q))"

definition prque_ok :: "lib \<Rightarrow> bool" where
  "prque_ok L \<longleftrightarrow> (\<forall>ps. ps \<noteq> [] \<longrightarrow>
     popIndex L ps < length ps \<and> (\<forall>p \<in> set ps. p \<le> ps ! popIndex L ps))"

record core =
  peerId :: string
  state :: State
  valSet :: "ValidatorSet ptr"
  backlogs :: "(Validator \<times> Message prque) list"
  backlogCh :: "(Validator \<times> Message) list"
  timeoutCh :: nat
  currentRoundState :: "roundState ptr"
  waitingForRoundChange :: bool
  rcSet :: "roundChangeSet ptr"
  roundChangeTimer :: "i64 ptr"
  requestCh :: "Request list"
  pendingRequests :: "Request prque"
  finalCommitCh :: nat
  localMsgCh :: "bytes list"
  quitCh :: nat
  consensusTimestamp :: nat
  peersMessages :: "string cache"
  peerCaches :: "(string \<times> Hash cache) list"
  knownMessages :: "Hash cache"
  broadcasts :: "(string list \<times> bytes) list"
  committed :: "(View \<times> Proposal \<times> SignResult ptr list) list"

definition inmemoryPeers :: nat where
  "inmemoryPeers = 40"

definition inmemoryMessages :: nat where
  "inmemoryMessages = 1024"

definition NewEngine :: "string \<Rightarrow> core" where
  "NewEngine backendID =
     \<lparr>peerId = backendID, state = StateAcceptRequest, valSet = None, backlogs = [], backlogCh = [],
      timeoutCh = 0, currentRoundState = None, waitingForRoundChange = False, rcSet = None,
      roundChangeTimer = None, requestCh = [], pendingRequests = [], finalCommitCh = 0,
      localMsgCh = [], quitCh = 0, consensusTimestamp = 0, peersMessages = [], peerCaches = [],
      knownMessages = [], broadcasts = [], committed = []\<rparr>"

section \<open>Views and message checks\<close>

definition currentView :: "core \<Rightarrow> View go" where
  "currentView c = do {
     rs \<leftarrow> currentRoundState c;
     ret (mkView (big_of_u64 (SequenceOf rs)) (RoundOf rs))
   }"

definition isProposer :: "core \<Rightarrow> bool" where
  "isProposer c = (case valSet c of None \<Rightarrow> False | Some v \<Rightarrow> IsProposer v (peerId c))"

definition checkMessage :: "core \<Rightarrow> u64 \<Rightarrow> View ptr \<Rightarrow> err option go" where
  "checkMessage c msgCode view =
     (case view of
        None \<Rightarrow> ret (Some errInvalidMessage)
      | Some v \<Rightarrow>
          if Sequence v = None \<or> Round v = None then ret (Some errInvalidMessage)
          else do {
            s \<leftarrow> Sequence v;
            cv \<leftarrow> currentView c;
            cs \<leftarrow> Sequence cv;
            cmp \<leftarrow> View_Cmp v cv;
            if msgCode = MsgRoundChange then
              if big_Cmp s cs > 0 then ret (Some errFutureMessage)
              else if cmp < 0 then ret (Some ErrOldMessage)
              else ret None
            else if cmp > 0 then ret (Some errFutureMessage)
            else if cmp < 0 then ret (Some ErrOldMessage)
            else if waitingForRoundChange c then ret (Some errFutureMessage)
            else if state c = StateAcceptRequest then
              if msgCode > MsgPrePrepare then ret (Some errFutureMessage) else ret None
            else ret None
          })"

text \<open>\<open>checkValidatorSignature\<close>, the core's validation callback, accepts everything.\<close>

definition checkValidatorSignature :: "bytes \<Rightarrow> SignResult ptr \<Rightarrow> err + string" where
  "checkValidatorSignature data signResult = Inr ''''"

definition decodeMsg :: "lib \<Rightarrow> core \<Rightarrow> bytes \<Rightarrow> (err + Message \<times> Validator) go" where
  "decodeMsg L c payload =
     (case FromPayload L payload (Some checkValidatorSignature) of
        Inl e \<Rightarrow> ret (Inl e)
      | Inr msg \<Rightarrow> do {
          vs \<leftarrow> valSet c;
          case snd (GetById vs (MsgValidator msg)) of
            None \<Rightarrow> ret (Inl ErrUnauthorized)
          | Some val \<Rightarrow> ret (Inr (msg, val))
        })"

section \<open>Gossip and signing\<close>

fun gossip_loop :: "lib \<Rightarrow> Hash \<Rightarrow> Validator list \<Rightarrow> core \<Rightarrow> string list \<Rightarrow> core \<times> string list" where
  "gossip_loop L hash [] c targets = (c, targets)"
| "gossip_loop L hash (val # vals) c targets =
     (if ID val \<noteq> peerId c then
        let p = ID val;
            hit = arcHitStr L inmemoryPeers (peersMessages c) p;
            inner = (if hit then case map_of (peerCaches c) p of None \<Rightarrow> [] | Some m \<Rightarrow> m else []);
            c1 = c\<lparr>peersMessages := CGet p # peersMessages c\<rparr>
        in if hit \<and> arcHitHash L inmemoryMessages inner hash then
             gossip_loop L hash vals
               (c1\<lparr>peerCaches := AList.update p (CGet hash # inner) (peerCaches c1)\<rparr>) targets
           else
             let m = CAdd hash # (if hit then CGet hash # inner else [])
             in gossip_loop L hash vals
                  (c1\<lparr>peersMessages := CAdd p # peersMessages c1,
                      peerCaches := AList.update p m (peerCaches c1)\<rparr>)
                  (targets @ [IDFromString L p])
      else gossip_loop L hash vals c targets)"

definition GossipPayload :: "env \<Rightarrow> bytes \<Rightarrow> core \<Rightarrow> (err option \<times> core) go" where
  "GossipPayload E payload c = do {
     vs \<leftarrow> valSet c;
     let (c1, targets) = gossip_loop (envLib E) (keccakHash (envLib E) payload) (ListOf vs) c [] in
     if length targets > 0 then
       (case envBroadcaster E of
          None \<Rightarrow> ret (None, c1)
        | Some bc \<Rightarrow> ret (bc targets payload, c1\<lparr>broadcasts := broadcasts c1 @ [(targets, payload)]\<rparr>))
     else ret (None, c1)
   }"

text \<open>The commit seal signs the hash of the proposal of the current round.\<close>

definition commitSeal :: "env \<Rightarrow> core \<Rightarrow> Message \<Rightarrow> (err + Message) go" where
  "commitSeal E c msg =
     (if Code msg = MsgCommit then do {
        rs \<leftarrow> currentRoundState c;
        (case ProposalOf rs of
           None \<Rightarrow> ret (Inr msg)
         | Some p \<Rightarrow>
             (case beSign (envBackend E) (PrepareCommittedSeal (envLib E) (PHash p)) of
                Inl e \<Rightarrow> ret (Inl e)
              | Inr sr \<Rightarrow> ret (Inr (msg\<lparr>CommittedSeal := sr\<rparr>))))
      } else ret (Inr msg))"

definition finalizeMessage :: "env \<Rightarrow> core \<Rightarrow> Message \<Rightarrow> (err + bytes) go" where
  "finalizeMessage E c msg0 = do {
     sealed \<leftarrow> commitSeal E c (msg0\<lparr>MsgValidator := peerId c\<rparr>);
     (case sealed of
        Inl e \<Rightarrow> ret (Inl e)
      | Inr msg \<Rightarrow>
          (case PayloadNoSig (envLib E) msg of
             None \<Rightarrow> ret (Inl (ErrLib ''encode''))
           | Some data \<Rightarrow>
               (case beSign (envBackend E) data of
                  Inl e \<Rightarrow> ret (Inl e)
                | Inr sr \<Rightarrow>
                    (case Payload (envLib E) (msg\<lparr>Signature := sr\<rparr>) of
                       None \<Rightarrow> ret (Inl (ErrLib ''encode''))
                     | Some payload \<Rightarrow> ret (Inr payload)))))
   }"

definition newMsg :: "u64 \<Rightarrow> bytes \<Rightarrow> Message" where
  "newMsg code body =
     \<lparr>Code = code, Msg = body, MsgValidator = '''', Signature = None, CommittedSeal = None\<rparr>"

definition Broadcast :: "env \<Rightarrow> Message \<Rightarrow> core \<Rightarrow> core go" where
  "Broadcast E msg c = do {
     fin \<leftarrow> finalizeMessage E c msg;
     (case fin of
        Inl e \<Rightarrow> ret c
      | Inr payload \<Rightarrow> do {
          (_, c1) \<leftarrow> GossipPayload E payload (c\<lparr>localMsgCh := localMsgCh c @ [payload]\<rparr>);
          ret c1
        })
   }"

section \<open>Pending requests\<close>

text \<open>\<open>float32\<close> of an unsigned integer: the nearest integer with a 24-bit significand, ties to even.\<close>

fun f32_shift :: "nat \<Rightarrow> nat" where
  "f32_shift n = (if n < 2 ^ 24 then 0 else Suc (f32_shift (n div 2)))"

declare f32_shift.simps [simp del]

definition f32_of_nat :: "nat \<Rightarrow> int" where
  "f32_of_nat n =
     (let s = f32_shift n;
          q = n div 2 ^ s;
          rest = 2 * (n mod 2 ^ s)
      in int ((if rest > 2 ^ s \<or> rest = 2 ^ s \<and> odd q then q + 1 else q) * 2 ^ s))"

definition checkRequestMsg :: "core \<Rightarrow> Request ptr \<Rightarrow> err option go" where
  "checkRequestMsg c request =
     (case request of
        None \<Rightarrow> ret (Some errInvalidMessage)
      | Some r \<Rightarrow>
          (case rqProposal r of
             None \<Rightarrow> ret (Some errInvalidMessage)
           | Some p \<Rightarrow> do {
               rs \<leftarrow> currentRoundState c;
               if rsSequence rs > Height p then ret (Some ErrOldMessage)
               else if rsSequence rs < Height p then ret (Some errFutureMessage)
               else ret None
             }))"

text \<open>\<open>-request.Proposal.Height()\<close> is a negation in \<open>uint64\<close>, before the conversion.\<close>

definition StoreRequestMsg :: "Request \<Rightarrow> core \<Rightarrow> core go" where
  "StoreRequestMsg request c = do {
     p \<leftarrow> rqProposal request;
     ret (c\<lparr>pendingRequests :=
            prque_Push (pendingRequests c) request (f32_of_nat (unat (- Height p)))\<rparr>)
   }"

definition clearPendingRequests :: "core \<Rightarrow> core" where
  "clearPendingRequests c = c\<lparr>pendingRequests := []\<rparr>"

lemma length_prque_Pop: "prque_Pop L q = (x, q') \<Longrightarrow> q \<noteq> [] \<Longrightarrow> Suc (length q') = length q"
proof -
  assume pop: "prque_Pop L q = (x, q')" and "q \<noteq> []"
  let ?i = "popIndex L (map snd q) mod length q"
  have "?i < length q" using \<open>q \<noteq> []\<close> by simp
  moreover have "q' = take ?i q @ drop (Suc ?i) q"
    using pop by (simp add: prque_Pop_def Let_def)
  ultimately show ?thesis by simp
qed

function (sequential) pending_loop ::
  "lib \<Rightarrow> core \<Rightarrow> Request prque \<Rightarrow> Request list \<Rightarrow> (Request prque \<times> Request list) go" where
  "pending_loop L c [] posted = ret ([], posted)"
| "pending_loop L c q posted =
     (case prque_Pop L q of
        ((r, prio), q1) \<Rightarrow> do {
          e \<leftarrow> checkRequestMsg c (Some r);
          (case e of
             Some er \<Rightarrow> do {
               _ \<leftarrow> rqProposal r;
               if er = errFutureMessage then ret (prque_Push q1 r prio, posted)
               else pending_loop L c q1 posted
             }
           | None \<Rightarrow> pending_loop L c q1 (posted @ [r]))
        })"
  by pat_completeness auto
termination
  by (relation "measure (\<lambda>(L, c, q, posted). length q)")
    (auto dest!: length_prque_Pop [OF sym])

definition ProcessPendingRequests :: "lib \<Rightarrow> core \<Rightarrow> core go" where
  "ProcessPendingRequests L c = do {
     (q, posted) \<leftarrow> pending_loop L c (pendingRequests c) [];
     ret (c\<lparr>pendingRequests := q, requestCh := requestCh c @ posted\<rparr>)
   }"

section \<open>The backlog of future messages\<close>

text \<open>A code without an entry in the map \<open>msgPriority\<close> has the zero value.\<close>

definition msgPriority :: "u64 \<Rightarrow> u64" where
  "msgPriority code =
     (if code = MsgPrePrepare then 1 else if code = MsgCommit then 2
      else if code = MsgPrepare then 3 else 0)"

definition toPriority :: "u64 \<Rightarrow> View ptr \<Rightarrow> int go" where
  "toPriority msgCode view = do {
     v \<leftarrow> view;
     s \<leftarrow> Sequence v;
     if msgCode = MsgRoundChange then ret (- f32_of_nat (unat (big_Uint64 s * 1000)))
     else do {
       r \<leftarrow> Round v;
       ret (- f32_of_nat (unat (big_Uint64 s * 1000 + big_Uint64 r * 10 + msgPriority msgCode)))
     }
   }"

text \<open>The view a message carries: \<open>Some None\<close> when its body does not decode.\<close>

definition msgView :: "lib \<Rightarrow> Message \<Rightarrow> View ptr go" where
  "msgView L msg =
     (if Code msg = MsgPrePrepare then
        (case decodePrePrepare L (Msg msg) of
           None \<Rightarrow> ret None
         | Some p \<Rightarrow> do { pp \<leftarrow> p; ret (ppView pp) })
      else
        (case decodeSubject L (Msg msg) of
           None \<Rightarrow> ret None
         | Some p \<Rightarrow> do { sub \<leftarrow> p; ret (sbView sub) }))"

text \<open>\<open>StoreBacklog\<close> logs the view of what it stores (and the proposal of a pre-prepare), so nil
  pointers there panic. A body that does not decode is not stored.\<close>

definition StoreBacklog :: "lib \<Rightarrow> Message \<Rightarrow> Validator \<Rightarrow> core \<Rightarrow> core go" where
  "StoreBacklog L msg val c =
     (if ID val = peerId c then ret c
      else
        let backlog = (case map_of (backlogs c) val of None \<Rightarrow> [] | Some q \<Rightarrow> q);
            store = (\<lambda>q. c\<lparr>backlogs := AList.update val q (backlogs c)\<rparr>)
        in if Code msg = MsgPrePrepare then
             (case decodePrePrepare L (Msg msg) of
                None \<Rightarrow> ret (store backlog)
              | Some p \<Rightarrow> do {
                  pp \<leftarrow> p;
                  _ \<leftarrow> ppProposal pp;
                  prio \<leftarrow> toPriority (Code msg) (ppView pp);
                  ret (store (prque_Push backlog msg prio))
                })
           else
             (case decodeSubject L (Msg msg) of
                None \<Rightarrow> ret (store backlog)
              | Some p \<Rightarrow> do {
                  sub \<leftarrow> p;
                  prio \<leftarrow> toPriority (Code msg) (sbView sub);
                  ret (store (prque_Push backlog msg prio))
                }))"

function (sequential) backlog_loop ::
  "lib \<Rightarrow> core \<Rightarrow> Message prque \<Rightarrow> Message list \<Rightarrow> (Message prque \<times> Message list) go" where
  "backlog_loop L c [] posted = ret ([], posted)"
| "backlog_loop L c q posted =
     (case prque_Pop L q of
        ((msg, prio), q1) \<Rightarrow> do {
          view \<leftarrow> msgView L msg;
          (case view of
             None \<Rightarrow> backlog_loop L c q1 posted
           | Some v \<Rightarrow> do {
               e \<leftarrow> checkMessage c (Code msg) (Some v);
               (case e of
                  Some er \<Rightarrow>
                    if er = errFutureMessage then ret (prque_Push q1 msg prio, posted)
                    else backlog_loop L c q1 posted
                | None \<Rightarrow> backlog_loop L c q1 (posted @ [msg]))
             })
        })"
  by pat_completeness auto
termination
  by (relation "measure (\<lambda>(L, c, q, posted). length q)")
    (auto dest!: length_prque_Pop [OF sym])

fun process_backlogs ::
  "lib \<Rightarrow> core \<Rightarrow> (Validator \<times> Message prque) list \<Rightarrow>
     ((Validator \<times> Message prque) list \<times> (Validator \<times> Message) list) go" where
  "process_backlogs L c [] = ret ([], [])"
| "process_backlogs L c ((src, backlog) # rest) = do {
     (q, posted) \<leftarrow> backlog_loop L c backlog [];
     (qs, events) \<leftarrow> process_backlogs L c rest;
     ret ((src, q) # qs, map (Pair src) posted @ events)
   }"

definition ProcessBacklog :: "lib \<Rightarrow> core \<Rightarrow> core go" where
  "ProcessBacklog L c = do {
     (qs, events) \<leftarrow> process_backlogs L c (backlogs c);
     ret (c\<lparr>backlogs := qs, backlogCh := backlogCh c @ events\<rparr>)
   }"

definition setState :: "lib \<Rightarrow> State \<Rightarrow> core \<Rightarrow> core go" where
  "setState L s c = do {
     c1 \<leftarrow> ret (if state c \<noteq> s then c\<lparr>state := s\<rparr> else c);
     c2 \<leftarrow> (if s = StateAcceptRequest then ProcessPendingRequests L c1 else ret c1);
     ProcessBacklog L c2
   }"

section \<open>Sending the three phases\<close>

definition SendPrePrepare :: "env \<Rightarrow> Request \<Rightarrow> core \<Rightarrow> core go" where
  "SendPrePrepare E request c = do {
     p \<leftarrow> rqProposal request;
     rs \<leftarrow> currentRoundState c;
     if SequenceOf rs = Height p \<and> isProposer c then do {
       curView \<leftarrow> currentView c;
       (case encodePrePrepare (envLib E) \<lparr>ppView = Some curView, ppProposal = Some p\<rparr> of
          None \<Rightarrow> ret c
        | Some body \<Rightarrow> Broadcast E (newMsg MsgPrePrepare body) c)
     } else ret c
   }"

definition SendPrepare :: "env \<Rightarrow> core \<Rightarrow> core go" where
  "SendPrepare E c = do {
     rs \<leftarrow> currentRoundState c;
     sp \<leftarrow> SubjectOf rs;
     sub \<leftarrow> sp;
     (case encodeSubject (envLib E) sub of
        None \<Rightarrow> ret c
      | Some body \<Rightarrow> Broadcast E (newMsg MsgPrepare body) c)
   }"

definition broadcastCommit :: "env \<Rightarrow> Subject \<Rightarrow> core \<Rightarrow> core go" where
  "broadcastCommit E sub c =
     (case encodeSubject (envLib E) sub of
        None \<Rightarrow> ret c
      | Some body \<Rightarrow> Broadcast E (newMsg MsgCommit body) c)"

definition SendCommit :: "env \<Rightarrow> core \<Rightarrow> core go" where
  "SendCommit E c = do {
     rs \<leftarrow> currentRoundState c;
     sp \<leftarrow> SubjectOf rs;
     sub \<leftarrow> sp;
     broadcastCommit E sub c
   }"

definition sendCommitForOldBlock :: "env \<Rightarrow> View ptr \<Rightarrow> Hash \<Rightarrow> core \<Rightarrow> core go" where
  "sendCommitForOldBlock E view bHash c = broadcastCommit E \<lparr>sbView = view, Digest = bHash\<rparr> c"

section \<open>Rounds\<close>

definition updateRoundState ::
  "lib \<Rightarrow> View \<Rightarrow> ValidatorSet \<Rightarrow> bool \<Rightarrow> core \<Rightarrow> core go" where
  "updateRoundState L view vs roundChange c = do {
     rs' \<leftarrow> (case currentRoundState c of
        Some rs \<Rightarrow>
          if roundChange then
            if IsHashLocked L rs
            then newRoundState view vs (GetLockedHash rs) (rsPrePrepare rs) (pendingRequest rs)
            else newRoundState view vs emptyHash None (pendingRequest rs)
          else newRoundState view vs emptyHash None None
      | None \<Rightarrow> newRoundState view vs emptyHash None None);
     ret (c\<lparr>currentRoundState := Some rs'\<rparr>)
   }"

definition stopTimer :: "core \<Rightarrow> core" where
  "stopTimer c = c\<lparr>roundChangeTimer := None\<rparr>"

text \<open>Durations are nanoseconds in an \<open>int64\<close>: 20 s, or 10 s while waiting for a round change, and
  from round 1 on \<open>2 ^ round\<close> seconds more.\<close>

definition second :: i64 where
  "second = 1000000000"

abbreviation (input) roundChangeTimeout :: i64 where
  "roundChangeTimeout \<equiv> 20 * second"

abbreviation (input) initRoundTimeout :: i64 where
  "initRoundTimeout \<equiv> 10 * second"

definition timerDuration :: "lib \<Rightarrow> bool \<Rightarrow> u64 \<Rightarrow> i64" where
  "timerDuration L waiting rnd =
     (let base = (if waiting then initRoundTimeout else roundChangeTimeout)
      in if rnd > 0
         then base + (if unat rnd < 63 then 2 ^ unat rnd else f64ToI64Overflow L (unat rnd)) * second
         else base)"

definition newRoundChangeTimer :: "lib \<Rightarrow> core \<Rightarrow> core go" where
  "newRoundChangeTimer L c = do {
     c1 \<leftarrow> ret (stopTimer c);
     rs \<leftarrow> currentRoundState c1;
     ret (c1\<lparr>roundChangeTimer :=
            Some (timerDuration L (waitingForRoundChange c1) (big_Uint64 (RoundOf rs)))\<rparr>)
   }"

text \<open>The first part of \<open>StartNewRound\<close>: \<open>None\<close> is its early return, otherwise whether the round
  changes within the sequence; catching up clears the consensus timestamp.\<close>

definition newRoundKind :: "int \<Rightarrow> Proposal ptr \<Rightarrow> core \<Rightarrow> (bool \<times> core) option" where
  "newRoundKind rnd lastProposal c =
     (case currentRoundState c of
        None \<Rightarrow> Some (False, c)
      | Some rs \<Rightarrow>
          (case lastProposal of
             None \<Rightarrow> None
           | Some lp \<Rightarrow>
               if Height lp \<ge> SequenceOf rs then
                 Some (False, if consensusTimestamp c \<noteq> 0 then c\<lparr>consensusTimestamp := 0\<rparr> else c)
               else if Height lp = SequenceOf rs - 1 then
                 if big_Cmp rnd 0 = 0 then None
                 else if big_Cmp rnd (RoundOf rs) < 0 then None
                 else Some (True, c)
               else None))"

text \<open>The proposal a new proposer sends at once after a round change: the locked one, or the
  pending request.\<close>

definition reproposal :: "env \<Rightarrow> core \<Rightarrow> core go" where
  "reproposal E c =
     (case currentRoundState c of
        None \<Rightarrow> ret c
      | Some rs \<Rightarrow>
          if IsHashLocked (envLib E) rs then SendPrePrepare E \<lparr>rqProposal = ProposalOf rs\<rparr> c
          else (case pendingRequest rs of
                  Some r \<Rightarrow> SendPrePrepare E r c
                | None \<Rightarrow> ret c))"

definition enterRound ::
  "env \<Rightarrow> View \<Rightarrow> ValidatorSet \<Rightarrow> string \<Rightarrow> bool \<Rightarrow> core \<Rightarrow> core go" where
  "enterRound E newView vs lastProposer roundChange c = do {
     c1 \<leftarrow> updateRoundState (envLib E) newView vs roundChange
             (c\<lparr>rcSet := Some (newRoundChangeSet vs)\<rparr>);
     r \<leftarrow> Round newView;
     c2 \<leftarrow> ret (c1\<lparr>valSet := Some (CalcProposer vs lastProposer (big_Uint64 r)),
                   waitingForRoundChange := False\<rparr>);
     c3 \<leftarrow> setState (envLib E) StateAcceptRequest c2;
     c4 \<leftarrow> (if roundChange \<and> isProposer c3 then reproposal E c3 else ret c3);
     newRoundChangeTimer (envLib E) c4
   }"

definition StartNewRound :: "env \<Rightarrow> int \<Rightarrow> core \<Rightarrow> core go" where
  "StartNewRound E rnd c =
     (let (lastProposal, lastProposer) = beLastProposal (envBackend E)
      in case newRoundKind rnd lastProposal c of
           None \<Rightarrow> ret c
         | Some (roundChange, c0) \<Rightarrow>
             if roundChange then do {
               rs \<leftarrow> currentRoundState c0;
               vs \<leftarrow> valSet c0;
               enterRound E (mkView (big_of_u64 (SequenceOf rs)) rnd) vs lastProposer True c0
             } else do {
               lp \<leftarrow> lastProposal;
               vs \<leftarrow> beValidators (envBackend E) lp;
               enterRound E (mkView (big_of_u64 (Height lp) + 1) 0) vs lastProposer False
                 (c0\<lparr>valSet := Some vs\<rparr>)
             })"

definition catchUpRound :: "env \<Rightarrow> View \<Rightarrow> core \<Rightarrow> core go" where
  "catchUpRound E view c = do {
     c1 \<leftarrow> ret (c\<lparr>waitingForRoundChange := True\<rparr>);
     vs \<leftarrow> valSet c1;
     c2 \<leftarrow> updateRoundState (envLib E) view vs True c1;
     rcs \<leftarrow> rcSet c2;
     r \<leftarrow> Round view;
     c3 \<leftarrow> ret (c2\<lparr>rcSet := Some (rcs_Clear rcs r)\<rparr>);
     newRoundChangeTimer (envLib E) c3
   }"

definition sendRoundChange :: "env \<Rightarrow> int \<Rightarrow> core \<Rightarrow> core go" where
  "sendRoundChange E rnd c = do {
     cv \<leftarrow> currentView c;
     cs \<leftarrow> Sequence cv;
     cr \<leftarrow> Round cv;
     if big_Cmp cr rnd \<ge> 0 then ret c
     else do {
       c1 \<leftarrow> catchUpRound E (mkView cs rnd) c;
       cv1 \<leftarrow> currentView c1;
       (case encodeSubject (envLib E) \<lparr>sbView = Some cv1, Digest = emptyHash\<rparr> of
          None \<Rightarrow> ret c1
        | Some body \<Rightarrow> Broadcast E (newMsg MsgRoundChange body) c1)
     }
   }"

definition sendNextRoundChange :: "env \<Rightarrow> core \<Rightarrow> core go" where
  "sendNextRoundChange E c = do {
     cv \<leftarrow> currentView c;
     cr \<leftarrow> Round cv;
     sendRoundChange E (cr + 1) c
   }"

section \<open>Handlers\<close>

definition HandleRequest :: "env \<Rightarrow> Request \<Rightarrow> core \<Rightarrow> (err option \<times> core) go" where
  "HandleRequest E request c = do {
     _ \<leftarrow> rqProposal request;
     e \<leftarrow> checkRequestMsg c (Some request);
     (case e of
        Some er \<Rightarrow> ret (Some er, c)
      | None \<Rightarrow> do {
          rs \<leftarrow> currentRoundState c;
          c1 \<leftarrow> ret (if state c = StateAcceptRequest
                     then c\<lparr>currentRoundState := Some (rs\<lparr>pendingRequest := Some request\<rparr>)\<rparr> else c);
          c2 \<leftarrow> (if state c1 = StateAcceptRequest \<and> \<not> waitingForRoundChange c1
                 then SendPrePrepare E request c1 else ret c1);
          ret (None, c2)
        })
   }"

definition acceptPrePrepare :: "env \<Rightarrow> PrePrepare \<Rightarrow> core \<Rightarrow> core go" where
  "acceptPrePrepare E pp c = do {
     rs \<leftarrow> currentRoundState c;
     ret (c\<lparr>consensusTimestamp := envNow E, currentRoundState := Some (SetPrePrepare pp rs)\<rparr>)
   }"

text \<open>\<open>HandlePrePrepare\<close> on an old message: a commit for the block, if it is in the chain and the
  sender was its proposer.\<close>

definition oldPrePrepare ::
  "env \<Rightarrow> PrePrepare \<Rightarrow> Proposal \<Rightarrow> View \<Rightarrow> Validator \<Rightarrow> core \<Rightarrow> (err option \<times> core) go" where
  "oldPrePrepare E pp p view val c = do {
     pvs \<leftarrow> beParentValidators (envBackend E) p;
     r \<leftarrow> Round view;
     vs \<leftarrow> ret (CalcProposer (Copy 0 pvs)
                 (beGetProposer (envBackend E) (Height p - 1)) (big_Uint64 r));
     if IsProposer vs (ID val) \<and> beHasProposal (envBackend E) (PHash p) (Height p) then do {
       c1 \<leftarrow> sendCommitForOldBlock E (ppView pp) (PHash p) c;
       ret (None, c1)
     } else ret (Some ErrOldMessage, c)
   }"

definition acceptProposal :: "env \<Rightarrow> PrePrepare \<Rightarrow> Proposal \<Rightarrow> core \<Rightarrow> core go" where
  "acceptProposal E pp p c = do {
     rs \<leftarrow> currentRoundState c;
     if IsHashLocked (envLib E) rs then
       if PHash p = GetLockedHash rs then do {
         c1 \<leftarrow> acceptPrePrepare E pp c;
         c2 \<leftarrow> setState (envLib E) StatePrepared c1;
         SendCommit E c2
       } else sendNextRoundChange E c
     else do {
       c1 \<leftarrow> acceptPrePrepare E pp c;
       c2 \<leftarrow> setState (envLib E) StatePrePrepared c1;
       SendPrepare E c2
     }
   }"

definition HandlePrePrepare :: "env \<Rightarrow> Message \<Rightarrow> Validator \<Rightarrow> core \<Rightarrow> (err option \<times> core) go" where
  "HandlePrePrepare E msg val c =
     (case decodePrePrepare (envLib E) (Msg msg) of
        None \<Rightarrow> ret (Some errFailedDecodePrePrepare, c)
      | Some ptr \<Rightarrow> do {
          pp \<leftarrow> ptr;
          p \<leftarrow> ppProposal pp;
          view \<leftarrow> ppView pp;
          e \<leftarrow> checkMessage c MsgPrePrepare (ppView pp);
          (case e of
             Some er \<Rightarrow>
               if er = ErrOldMessage then oldPrePrepare E pp p view val c else ret (Some er, c)
           | None \<Rightarrow> do {
               vs \<leftarrow> valSet c;
               if \<not> IsProposer vs (ID val) then ret (Some errNotFromProposer, c)
               else (case beVerify (envBackend E) p of
                       Some ve \<Rightarrow> ret (Some ve, c)
                     | None \<Rightarrow>
                         if state c = StateAcceptRequest then do {
                           c1 \<leftarrow> acceptProposal E pp p c;
                           ret (None, c1)
                         } else ret (None, c))
             })
        })"

text \<open>\<open>reflect.DeepEqual\<close> of the received subject and the current one, which is nil before a
  pre-prepare is accepted; prepares and commits are checked alike.\<close>

definition verifySubject :: "Subject \<Rightarrow> core \<Rightarrow> err option go" where
  "verifySubject sub c = do {
     rs \<leftarrow> currentRoundState c;
     cur \<leftarrow> SubjectOf rs;
     ret (if cur \<noteq> Some sub then Some errInconsistentSubject else None)
   }"

abbreviation (input) verifyCommit :: "Subject \<Rightarrow> core \<Rightarrow> err option go" where
  "verifyCommit \<equiv> verifySubject"

definition acceptPrepare :: "Message \<Rightarrow> core \<Rightarrow> core go" where
  "acceptPrepare msg c = do {
     rs \<leftarrow> currentRoundState c;
     ret (c\<lparr>currentRoundState := Some (rs\<lparr>Prepares := snd (ms_Add (Prepares rs) msg)\<rparr>)\<rparr>)
   }"

definition acceptCommit :: "Message \<Rightarrow> core \<Rightarrow> core go" where
  "acceptCommit msg c = do {
     rs \<leftarrow> currentRoundState c;
     ret (c\<lparr>currentRoundState := Some (rs\<lparr>Commits := snd (ms_Add (Commits rs) msg)\<rparr>)\<rparr>)
   }"

definition reachPrepareThreshold :: "core \<Rightarrow> bool go" where
  "reachPrepareThreshold c = do {
     rs \<leftarrow> currentRoundState c;
     vs \<leftarrow> valSet c;
     ret (reachThreshold vs (GetPrepareOrCommitSize rs))
   }"

definition reachCommitThreshold :: "core \<Rightarrow> bool go" where
  "reachCommitThreshold c = do {
     rs \<leftarrow> currentRoundState c;
     vs \<leftarrow> valSet c;
     ret (reachThreshold vs (ms_Size (Commits rs)))
   }"

definition lockHash :: "core \<Rightarrow> core go" where
  "lockHash c = do {
     rs \<leftarrow> currentRoundState c;
     rs' \<leftarrow> LockHash rs;
     ret (c\<lparr>currentRoundState := Some rs'\<rparr>)
   }"

definition HandlePrepare :: "env \<Rightarrow> Message \<Rightarrow> Validator \<Rightarrow> core \<Rightarrow> (err option \<times> core) go" where
  "HandlePrepare E msg val c =
     (case decodeSubject (envLib E) (Msg msg) of
        None \<Rightarrow> ret (Some errFailedDecodePrepare, c)
      | Some ptr \<Rightarrow> do {
          prepare \<leftarrow> ptr;
          _ \<leftarrow> sbView prepare;
          e \<leftarrow> checkMessage c MsgPrepare (sbView prepare);
          (case e of
             Some er \<Rightarrow> ret (Some er, c)
           | None \<Rightarrow> do {
               ve \<leftarrow> verifySubject prepare c;
               (case ve of
                  Some er \<Rightarrow> ret (Some er, c)
                | None \<Rightarrow> do {
                    c1 \<leftarrow> acceptPrepare msg c;
                    rs \<leftarrow> currentRoundState c1;
                    reached \<leftarrow> reachPrepareThreshold c1;
                    if ((IsHashLocked (envLib E) rs \<and> Digest prepare = GetLockedHash rs) \<or> reached)
                       \<and> State_Cmp (state c1) StatePrepared < 0
                    then do {
                      c2 \<leftarrow> lockHash c1;
                      c3 \<leftarrow> setState (envLib E) StatePrepared c2;
                      c4 \<leftarrow> SendCommit E c3;
                      ret (None, c4)
                    } else ret (None, c1)
                  })
             })
        })"

text \<open>\<open>commit\<close>: hand the proposal and the seals of the commit messages to the backend; if it
  refuses them, unlock and move to the next round.\<close>

definition commitProposal :: "env \<Rightarrow> core \<Rightarrow> core go" where
  "commitProposal E c = do {
     c1 \<leftarrow> setState (envLib E) StateCommitted c;
     rs \<leftarrow> currentRoundState c1;
     (case ProposalOf rs of
        None \<Rightarrow> ret c1
      | Some p \<Rightarrow>
          let seals = map CommittedSeal (ms_Values (Commits rs));
              view = mkView (big_of_u64 (SequenceOf rs)) (RoundOf rs);
              c2 = c1\<lparr>committed := committed c1 @ [(view, p, seals)]\<rparr>
          in (case beCommit (envBackend E) p seals of
                None \<Rightarrow> ret c2
              | Some _ \<Rightarrow> sendNextRoundChange E (c2\<lparr>currentRoundState := Some (UnlockHash rs)\<rparr>)))
   }"

definition HandleCommit :: "env \<Rightarrow> Message \<Rightarrow> Validator \<Rightarrow> core \<Rightarrow> (err option \<times> core) go" where
  "HandleCommit E msg val c =
     (case decodeSubject (envLib E) (Msg msg) of
        None \<Rightarrow> ret (Some errFailedDecodeCommit, c)
      | Some ptr \<Rightarrow> do {
          commit \<leftarrow> ptr;
          _ \<leftarrow> sbView commit;
          e \<leftarrow> checkMessage c MsgCommit (sbView commit);
          (case e of
             Some er \<Rightarrow> ret (Some er, c)
           | None \<Rightarrow> do {
               ve \<leftarrow> verifyCommit commit c;
               (case ve of
                  Some er \<Rightarrow> ret (Some er, c)
                | None \<Rightarrow> do {
                    c1 \<leftarrow> acceptCommit msg c;
                    reached \<leftarrow> reachCommitThreshold c1;
                    if reached \<and> State_Cmp (state c1) StateCommitted < 0 then do {
                      c2 \<leftarrow> lockHash c1;
                      c3 \<leftarrow> commitProposal E c2;
                      ret (None, c3)
                    } else ret (None, c1)
                  })
             })
        })"

text \<open>The last part of \<open>HandleRoundChange\<close>, once the message has been counted: \<open>num\<close> is the number
  of validators that asked for round \<open>r\<close>, \<open>cr\<close> the current round.\<close>

definition countedRoundChange :: "env \<Rightarrow> int \<Rightarrow> int \<Rightarrow> int \<Rightarrow> core \<Rightarrow> (err option \<times> core) go" where
  "countedRoundChange E cr r num c = do {
     vs \<leftarrow> valSet c;
     if reachThreshold vs num \<and> (waitingForRoundChange c \<or> big_Cmp cr r < 0)
     then do { c1 \<leftarrow> StartNewRound E r c; ret (None, c1) }
     else if waitingForRoundChange c \<and> num = FaultTolerantNum vs + 1 then
       if big_Cmp cr r < 0
       then do { c1 \<leftarrow> sendRoundChange E r c; ret (None, c1) }
       else ret (None, c)
     else if big_Cmp cr r < 0 then ret (Some errIgnored, c)
     else ret (None, c)
   }"

definition HandleRoundChange :: "env \<Rightarrow> Message \<Rightarrow> Validator \<Rightarrow> core \<Rightarrow> (err option \<times> core) go" where
  "HandleRoundChange E msg val c =
     (case decodeSubject (envLib E) (Msg msg) of
        None \<Rightarrow> ret (Some errInvalidMessage, c)
      | Some ptr \<Rightarrow> do {
          rc \<leftarrow> ptr;
          e \<leftarrow> checkMessage c MsgRoundChange (sbView rc);
          (case e of
             Some er \<Rightarrow> ret (Some er, c)
           | None \<Rightarrow> do {
               cv \<leftarrow> currentView c;
               cr \<leftarrow> Round cv;
               roundView \<leftarrow> sbView rc;
               r \<leftarrow> Round roundView;
               rcs \<leftarrow> rcSet c;
               let ((num, ae), rcs') = rcs_Add rcs r msg;
                   c1 = c\<lparr>rcSet := Some rcs'\<rparr>
               in (case ae of
                     Some er \<Rightarrow> ret (Some er, c1)
                   | None \<Rightarrow> countedRoundChange E cr r num c1)
             })
        })"

definition HandleFinalCommitted :: "env \<Rightarrow> core \<Rightarrow> core go" where
  "HandleFinalCommitted E c = StartNewRound E 0 c"

definition handleMsg :: "env \<Rightarrow> Message \<Rightarrow> Validator \<Rightarrow> core \<Rightarrow> (err option \<times> core) go" where
  "handleMsg E msg val c =
     (let testBacklog = (\<lambda>res. do {
            (e, c1) \<leftarrow> res;
            (if e = Some errFutureMessage
             then do { c2 \<leftarrow> StoreBacklog (envLib E) msg val c1; ret (e, c2) }
             else ret (e, c1))
          })
      in if Code msg = MsgPrePrepare then testBacklog (HandlePrePrepare E msg val c)
         else if Code msg = MsgPrepare then testBacklog (HandlePrepare E msg val c)
         else if Code msg = MsgCommit then testBacklog (HandleCommit E msg val c)
         else if Code msg = MsgRoundChange then testBacklog (HandleRoundChange E msg val c)
         else ret (Some errInvalidMessage, c))"

definition handleTimeoutMsg :: "env \<Rightarrow> core \<Rightarrow> core go" where
  "handleTimeoutMsg E c = do {
     c1 \<leftarrow> ret (case currentRoundState c of
              None \<Rightarrow> c
            | Some rs \<Rightarrow> c\<lparr>currentRoundState := Some ((UnlockHash rs)\<lparr>pendingRequest := None\<rparr>)\<rparr>);
     catchUp \<leftarrow>
       (if \<not> waitingForRoundChange c1 then do {
          rcs \<leftarrow> rcSet c1;
          vs \<leftarrow> valSet c1;
          (case MaxRound rcs (FaultTolerantNum vs + 1) of
             None \<Rightarrow> ret None
           | Some m \<Rightarrow> do {
               rs \<leftarrow> currentRoundState c1;
               ret (if big_Cmp m (RoundOf rs) > 0 then Some m else None)
             })
        } else ret None);
     (case catchUp of
        Some m \<Rightarrow> sendRoundChange E m c1
      | None \<Rightarrow>
          (case fst (beLastProposal (envBackend E)) of
             None \<Rightarrow> sendNextRoundChange E c1
           | Some lp \<Rightarrow> do {
               rs \<leftarrow> currentRoundState c1;
               if Height lp \<ge> SequenceOf rs then StartNewRound E 0 c1
               else sendNextRoundChange E c1
             }))
   }"

section \<open>Entry points and the event loop\<close>

definition core_Request :: "Request \<Rightarrow> core \<Rightarrow> (err option \<times> core) go" where
  "core_Request request c = do {
     _ \<leftarrow> rqProposal request;
     e \<leftarrow> checkRequestMsg c (Some request);
     (if e \<noteq> None \<and> e \<noteq> Some errFutureMessage then ret (e, c)
      else ret (None, c\<lparr>requestCh := requestCh c @ [request]\<rparr>))
   }"

definition sendTimeoutEvent :: "core \<Rightarrow> core" where
  "sendTimeoutEvent c = c\<lparr>timeoutCh := timeoutCh c + 1\<rparr>"

definition RequestTimeout :: "core \<Rightarrow> core" where
  "RequestTimeout c = (if waitingForRoundChange c then c else sendTimeoutEvent (stopTimer c))"

definition FinalCommit :: "core \<Rightarrow> core" where
  "FinalCommit c = c\<lparr>finalCommitCh := finalCommitCh c + 1\<rparr>"

definition NewChainHead :: "core \<Rightarrow> core" where
  "NewChainHead c = FinalCommit c"

definition Start :: "env \<Rightarrow> core \<Rightarrow> core go" where
  "Start E c = StartNewRound E 0 c"

definition Stop :: "core \<Rightarrow> core" where
  "Stop c = (stopTimer c)\<lparr>quitCh := quitCh c + 1\<rparr>"

text \<open>The cases of the loop's \<open>select\<close>, after the value has been received.\<close>

definition onRequest :: "env \<Rightarrow> Request \<Rightarrow> core \<Rightarrow> core go" where
  "onRequest E r c = do {
     (e, c1) \<leftarrow> HandleRequest E r c;
     (if e = Some errFutureMessage then StoreRequestMsg r c1 else ret c1)
   }"

definition onLocalMsg :: "env \<Rightarrow> bytes \<Rightarrow> core \<Rightarrow> core go" where
  "onLocalMsg E p c = do {
     d \<leftarrow> decodeMsg (envLib E) c p;
     (case d of
        Inl _ \<Rightarrow> ret c
      | Inr (msg, val) \<Rightarrow> do { (_, c1) \<leftarrow> handleMsg E msg val c; ret c1 })
   }"

definition onBacklog :: "env \<Rightarrow> Validator \<times> Message \<Rightarrow> core \<Rightarrow> core go" where
  "onBacklog E b c = do { (_, c1) \<leftarrow> handleMsg E (snd b) (fst b) c; ret c1 }"

definition markPeer :: "lib \<Rightarrow> string \<Rightarrow> Hash \<Rightarrow> core \<Rightarrow> core" where
  "markPeer L p hash c =
     (let hit = arcHitStr L inmemoryPeers (peersMessages c) p;
          inner = (if hit then case map_of (peerCaches c) p of None \<Rightarrow> [] | Some m \<Rightarrow> m else []);
          ops = (if hit then [CGet p] else [CAdd p, CGet p])
      in c\<lparr>peersMessages := ops @ peersMessages c,
           peerCaches := AList.update p (CAdd hash # inner) (peerCaches c)\<rparr>)"

definition onP2PMsg :: "env \<Rightarrow> bytes \<Rightarrow> core \<Rightarrow> core go" where
  "onP2PMsg E data c = do {
     d \<leftarrow> decodeMsg (envLib E) c data;
     (case d of
        Inl _ \<Rightarrow> ret c
      | Inr (msg, val) \<Rightarrow>
          let hash = keccakHash (envLib E) data;
              c1 = markPeer (envLib E) (ID val) hash c;
              known = arcHitHash (envLib E) inmemoryMessages (knownMessages c1) hash
          in if known then ret (c1\<lparr>knownMessages := CGet hash # knownMessages c1\<rparr>)
             else do {
               (e, c2) \<leftarrow> handleMsg E msg val
                           (c1\<lparr>knownMessages := CAdd hash # CGet hash # knownMessages c1\<rparr>);
               (if e = None then do { (_, c3) \<leftarrow> GossipPayload E data c2; ret c3 } else ret c2)
             })
   }"

definition onQuit :: "core \<Rightarrow> core" where
  "onQuit c = c\<lparr>currentRoundState := None\<rparr>"

end
