(* ===== verification/Pbft_CoreFrame.thy ===== *)
theory Pbft_CoreFrame
  imports Pbft_Core
begin

text \<open>
  What each operation of the core leaves alone, and what the two queues of postponed work
  conserve. The \<open>ckernel\<close> of a core is the part of its state that decides the consensus: identity,
  phase, validators, round state, round-change tally and the calls of \<open>backend.Commit\<close>.
  Broadcasting, pending requests and the backlog do not touch it.
\<close>

definition ckernel ::
  "core \<Rightarrow> string \<times> State \<times> ValidatorSet ptr \<times> roundState ptr \<times> bool \<times> roundChangeSet ptr \<times>
     (View \<times> Proposal \<times> SignResult ptr list) list" where
  "ckernel c = (peerId c, state c, valSet c, currentRoundState c, waitingForRoundChange c, rcSet c,
     committed c)"

lemma ckernel_eq_iff:
  "ckernel c' = ckernel c \<longleftrightarrow> peerId c' = peerId c \<and> state c' = state c \<and> valSet c' = valSet c \<and>
     currentRoundState c' = currentRoundState c \<and>
     waitingForRoundChange c' = waitingForRoundChange c \<and> rcSet c' = rcSet c \<and>
     committed c' = committed c"
  by (auto simp: ckernel_def)

lemmas ckernelD = ckernel_eq_iff [THEN iffD1]

section \<open>Gossip and broadcast\<close>

lemma kernel_gossip_loop: "ckernel (fst (gossip_loop L h vals c ts)) = ckernel c"
  by (induction L h vals c ts rule: gossip_loop.induct) (simp_all add: Let_def ckernel_def)

lemma kernel_gossip_loop_eq: "gossip_loop L h vals c ts = (c', ts') \<Longrightarrow> ckernel c' = ckernel c"
  using kernel_gossip_loop [of L h vals c ts] by simp

lemma kernel_GossipPayload [frame]:
  "GossipPayload E payload c = Some (e, c') \<Longrightarrow> ckernel c' = ckernel c"
  by (auto simp: GossipPayload_def ckernel_def elim!: bind_SomeE
      split: prod.splits option.splits if_splits dest!: kernel_gossip_loop_eq)

lemma kernel_Broadcast [frame]: "Broadcast E msg c = Some c' \<Longrightarrow> ckernel c' = ckernel c"
  by (auto simp: Broadcast_def ckernel_def elim!: bind_SomeE split: sum.splits prod.splits
      dest!: kernel_GossipPayload)

lemma gossip_loop_frame:
  "localMsgCh (fst (gossip_loop L h vals c ts)) = localMsgCh c \<and>
   broadcasts (fst (gossip_loop L h vals c ts)) = broadcasts c \<and>
   backlogs (fst (gossip_loop L h vals c ts)) = backlogs c \<and>
   backlogCh (fst (gossip_loop L h vals c ts)) = backlogCh c \<and>
   requestCh (fst (gossip_loop L h vals c ts)) = requestCh c \<and>
   pendingRequests (fst (gossip_loop L h vals c ts)) = pendingRequests c \<and>
   roundChangeTimer (fst (gossip_loop L h vals c ts)) = roundChangeTimer c"
  by (induction L h vals c ts rule: gossip_loop.induct) (simp_all add: Let_def)

section \<open>Phases\<close>

lemma kernel_ProcessPendingRequests [frame]:
  "ProcessPendingRequests L c = Some c' \<Longrightarrow> ckernel c' = ckernel c"
  by (auto simp: ProcessPendingRequests_def Let_def ckernel_def elim!: bind_SomeE)

lemma kernel_ProcessBacklog [frame]: "ProcessBacklog L c = Some c' \<Longrightarrow> ckernel c' = ckernel c"
  by (auto simp: ProcessBacklog_def Let_def ckernel_def elim!: bind_SomeE)

lemma kernel_setState [frame]:
  "setState L s c = Some c' \<Longrightarrow> ckernel c' = ckernel (c\<lparr>state := s\<rparr>)"
  by (auto simp: setState_def Let_def ckernel_def elim!: bind_SomeE split: if_splits
      dest!: kernel_ProcessPendingRequests kernel_ProcessBacklog)

lemma kernel_SendPrePrepare [frame]: "SendPrePrepare E r c = Some c' \<Longrightarrow> ckernel c' = ckernel c"
  by (auto simp: SendPrePrepare_def Let_def elim!: bind_SomeE split: if_splits option.splits dest!: kernel_Broadcast)

lemma kernel_SendPrepare [frame]: "SendPrepare E c = Some c' \<Longrightarrow> ckernel c' = ckernel c"
  by (auto simp: SendPrepare_def Let_def elim!: bind_SomeE split: if_splits option.splits dest!: kernel_Broadcast)

lemma kernel_broadcastCommit [frame]: "broadcastCommit E sub c = Some c' \<Longrightarrow> ckernel c' = ckernel c"
  by (auto simp: broadcastCommit_def split: option.splits dest!: kernel_Broadcast)

lemma kernel_SendCommit [frame]: "SendCommit E c = Some c' \<Longrightarrow> ckernel c' = ckernel c"
  by (auto simp: SendCommit_def Let_def elim!: bind_SomeE dest!: kernel_broadcastCommit)

lemma kernel_newRoundChangeTimer [frame]:
  "newRoundChangeTimer L c = Some c' \<Longrightarrow> ckernel c' = ckernel c"
  by (auto simp: newRoundChangeTimer_def Let_def stopTimer_def ckernel_def elim!: bind_SomeE)

lemma kernel_reproposal [frame]: "reproposal E c = Some c' \<Longrightarrow> ckernel c' = ckernel c"
  by (auto simp: reproposal_def split: if_splits option.splits dest!: kernel_SendPrePrepare)

lemma kernel_StoreBacklog [frame]: "StoreBacklog L msg val c = Some c' \<Longrightarrow> ckernel c' = ckernel c"
  by (auto simp: StoreBacklog_def Let_def ckernel_def elim!: bind_SomeE split: if_splits option.splits)

lemma kernel_StoreRequestMsg [frame]: "StoreRequestMsg r c = Some c' \<Longrightarrow> ckernel c' = ckernel c"
  by (auto simp: StoreRequestMsg_def Let_def ckernel_def elim!: bind_SomeE)

lemma kernel_markPeer [simp]: "ckernel (markPeer L p h c) = ckernel c"
  by (simp add: markPeer_def Let_def ckernel_def)

section \<open>Cases of the handlers\<close>

lemma HandlePrePrepare_cases:
  assumes "HandlePrePrepare E msg val c = Some (e, c')"
  obtains (same) "c' = c"
  | (old) pp p view where "oldPrePrepare E pp p view val c = Some (e, c')"
      "decodePrePrepare (envLib E) (Msg msg) = Some (Some pp)"
  | (accepted) pp p view where "checkMessage c MsgPrePrepare (Some view) = Some None"
      "state c = StateAcceptRequest" "ppProposal pp = Some p" "acceptProposal E pp p c = Some c'"
      "decodePrePrepare (envLib E) (Msg msg) = Some (Some pp)" "beVerify (envBackend E) p = None"
  using assms by (auto simp: HandlePrePrepare_def elim!: bind_SomeE split: option.splits if_splits)

lemma acceptProposal_cases:
  assumes "acceptProposal E pp p c = Some c'" "currentRoundState c = Some rs"
  obtains (moved) "sendNextRoundChange E c = Some c'"
  | (taken) s where "ckernel c' = ckernel (c\<lparr>currentRoundState := Some (rs\<lparr>rsPrePrepare := Some pp\<rparr>), state := s\<rparr>)"
proof -
  have "sendNextRoundChange E c = Some c' \<or>
      (\<exists>s. ckernel c' = ckernel (c\<lparr>currentRoundState := Some (rs\<lparr>rsPrePrepare := Some pp\<rparr>), state := s\<rparr>))"
    using assms
    by (auto simp: acceptProposal_def acceptPrePrepare_def SetPrePrepare_def ckernel_eq_iff
        elim!: bind_SomeE split: if_splits
        dest!: kernel_SendCommit kernel_SendPrepare kernel_setState)
  then show thesis using that by blast
qed

lemma HandlePrepare_cases:
  assumes "HandlePrepare E msg val c = Some (e, c')" "currentRoundState c = Some rs"
  obtains (same) "c' = c"
  | (accepted) sub c1 where "decodeSubject (envLib E) (Msg msg) = Some (Some sub)"
      "checkMessage c MsgPrepare (sbView sub) = Some None" "verifySubject sub c = Some None"
      "c1 = c\<lparr>currentRoundState := Some (rs\<lparr>Prepares := snd (ms_Add (Prepares rs) msg)\<rparr>)\<rparr>"
      "c' = c1 \<or> (\<exists>c2 c3. state c < StatePrepared \<and> lockHash c1 = Some c2 \<and>
         setState (envLib E) StatePrepared c2 = Some c3 \<and> SendCommit E c3 = Some c')"
  using assms
  by (auto simp: HandlePrepare_def acceptPrepare_def elim!: bind_SomeE split: option.splits if_splits)

lemma HandleCommit_cases:
  assumes "HandleCommit E msg val c = Some (e, c')" "currentRoundState c = Some rs"
  obtains (same) "c' = c"
  | (accepted) sub c1 where "decodeSubject (envLib E) (Msg msg) = Some (Some sub)"
      "checkMessage c MsgCommit (sbView sub) = Some None" "verifySubject sub c = Some None"
      "c1 = c\<lparr>currentRoundState := Some (rs\<lparr>Commits := snd (ms_Add (Commits rs) msg)\<rparr>)\<rparr>"
      "c' = c1 \<or> (\<exists>c2. reachCommitThreshold c1 = Some True \<and> state c < StateCommitted \<and>
         lockHash c1 = Some c2 \<and> commitProposal E c2 = Some c')"
  using assms
  by (auto simp: HandleCommit_def acceptCommit_def elim!: bind_SomeE split: option.splits if_splits)

lemma HandleRoundChange_cases:
  assumes "HandleRoundChange E msg val c = Some (e, c')" "currentRoundState c = Some rs" "rcSet c = Some rcs"
  obtains (same) "c' = c"
  | (added) r where "c' = c\<lparr>rcSet := Some (snd (rcs_Add rcs r msg))\<rparr>"
  | (counted) r num where
      "countedRoundChange E (rsRound rs) r num (c\<lparr>rcSet := Some (snd (rcs_Add rcs r msg))\<rparr>) = Some (e, c')"
proof (cases "decodeSubject (envLib E) (Msg msg)")
  case None
  with assms(1) show thesis by (intro same) (simp add: HandleRoundChange_def)
next
  case (Some ptr)
  note dec = this
  have cv: "currentView c = Some (mkView (big_of_u64 (SequenceOf rs)) (rsRound rs))"
    using assms(2) by (simp add: currentView_def RoundOf_def)
  from assms(1) dec obtain rc er where rc: "ptr = Some rc" "checkMessage c MsgRoundChange (sbView rc) = Some er"
    by (auto simp: HandleRoundChange_def elim!: bind_SomeE)
  show thesis
  proof (cases er)
    case None
    with assms(1) dec rc cv obtain view r where view: "sbView rc = Some view" "Round view = Some r"
      by (auto simp: HandleRoundChange_def elim!: bind_SomeE)
    show thesis
    proof (cases "snd (fst (rcs_Add rcs r msg))")
      case ok: None
      show thesis
        by (rule counted [of r "fst (fst (rcs_Add rcs r msg))"])
          (use assms(1,3) dec rc cv None view ok in \<open>simp add: HandleRoundChange_def case_prod_unfold Let_def\<close>)
    next
      case (Some er')
      show thesis
        by (rule added [of r])
          (use assms(1,3) dec rc cv None view Some in \<open>simp add: HandleRoundChange_def case_prod_unfold Let_def\<close>)
    qed
  next
    case (Some er')
    with assms(1) dec rc show thesis by (intro same) (simp add: HandleRoundChange_def)
  qed
qed

lemma HandleRequest_cases:
  assumes "HandleRequest E r c = Some (e, c')" "currentRoundState c = Some rs"
  obtains (same) "c' = c"
  | (taken) "c' = c\<lparr>currentRoundState := Some (rs\<lparr>pendingRequest := Some r\<rparr>)\<rparr>"
  | (sent) "SendPrePrepare E r (c\<lparr>currentRoundState := Some (rs\<lparr>pendingRequest := Some r\<rparr>)\<rparr>) = Some c'"
proof -
  from assms(1) obtain p er where p: "rqProposal r = Some p" "checkRequestMsg c (Some r) = Some er"
    by (auto simp: HandleRequest_def elim!: bind_SomeE)
  let ?c1 = "c\<lparr>currentRoundState := Some (rs\<lparr>pendingRequest := Some r\<rparr>)\<rparr>"
  show thesis
  proof (cases "er = None \<and> state c = StateAcceptRequest")
    case True
    with assms p have "(if \<not> waitingForRoundChange c then SendPrePrepare E r ?c1 else ret ?c1) = Some c'"
      by (auto simp: HandleRequest_def elim!: bind_SomeE split: if_splits)
    then show thesis by (cases "waitingForRoundChange c") (auto intro: sent taken)
  next
    case False
    with assms p have "c' = c" by (cases er) (auto simp: HandleRequest_def)
    then show thesis by (rule same)
  qed
qed

lemma handleMsg_cases:
  assumes "handleMsg E msg val c = Some (e, c')"
  obtains (unknown) "c' = c"
  | (handled) c1 where
      "Code msg = MsgPrePrepare \<and> HandlePrePrepare E msg val c = Some (e, c1) \<or>
       Code msg = MsgPrepare \<and> HandlePrepare E msg val c = Some (e, c1) \<or>
       Code msg = MsgCommit \<and> HandleCommit E msg val c = Some (e, c1) \<or>
       Code msg = MsgRoundChange \<and> HandleRoundChange E msg val c = Some (e, c1)"
      "if e = Some errFutureMessage then StoreBacklog (envLib E) msg val c1 = Some c' else c' = c1"
  using assms by (auto simp: handleMsg_def Let_def elim!: bind_SomeE split: if_splits)

lemma handled_ckernel:
  "(if e = Some errFutureMessage then StoreBacklog L msg val c1 = Some c' else c' = c1) \<Longrightarrow>
     ckernel c' = ckernel c1"
  by (auto split: if_splits dest: kernel_StoreBacklog)

lemma handleTimeoutMsg_changes:
  assumes "handleTimeoutMsg E c = Some c'" "currentRoundState c = Some rs"
  defines "c1 \<equiv> c\<lparr>currentRoundState := Some (rs\<lparr>lockedHash := emptyHash, pendingRequest := None\<rparr>)\<rparr>"
  shows "(\<exists>m. sendRoundChange E m c1 = Some c') \<or> sendNextRoundChange E c1 = Some c' \<or>
     StartNewRound E 0 c1 = Some c'"
  using assms
  by (auto simp: handleTimeoutMsg_def UnlockHash_def elim!: bind_SomeE split: option.splits if_splits)

end
