(* ===== verification/Pbft_CoreInv.thy ===== *)
theory Pbft_CoreInv
  imports Pbft_CoreFrame
begin

text \<open>
  The invariant of the running core and its preservation by every operation. It says that the
  tallies belong to the current validators and hold at most one vote each, that every recorded
  prepare or commit carries the subject the core is working on, that no vote is recorded
  before a pre-prepare has been accepted in the round, and that a locked hash is the hash of the
  pre-prepare kept with it.
\<close>

section \<open>The invariant\<close>

definition lock_ok :: "roundState \<Rightarrow> bool" where
  "lock_ok rs \<longleftrightarrow>
     (\<forall>pp. rsPrePrepare rs = Some pp \<longrightarrow> ppProposal pp \<noteq> None) \<and>
     (lockedHash rs \<noteq> emptyHash \<longrightarrow>
        (\<exists>pp p. rsPrePrepare rs = Some pp \<and> ppProposal pp = Some p \<and> PHash p = lockedHash rs))"

definition vote_for :: "lib \<Rightarrow> roundState \<Rightarrow> u64 \<Rightarrow> Message \<Rightarrow> bool" where
  "vote_for L rs code m \<longleftrightarrow> Code m = code \<and>
     (\<exists>sub. SubjectOf rs = Some (Some sub) \<and> decodeSubject L (Msg m) = Some (Some sub))"

definition votes_ok :: "lib \<Rightarrow> ValidatorSet \<Rightarrow> roundState \<Rightarrow> bool" where
  "votes_ok L vs rs \<longleftrightarrow>
     ms_inv (Prepares rs) \<and> ids (msValSet (Prepares rs)) = ids vs \<and>
     ms_inv (Commits rs) \<and> ids (msValSet (Commits rs)) = ids vs \<and>
     (\<forall>m \<in> set (ms_Values (Prepares rs)). vote_for L rs MsgPrepare m) \<and>
     (\<forall>m \<in> set (ms_Values (Commits rs)). vote_for L rs MsgCommit m)"

definition phase_ok :: "State \<Rightarrow> bool \<Rightarrow> roundState \<Rightarrow> bool" where
  "phase_ok s waiting rs \<longleftrightarrow>
     (waiting \<or> s = StateAcceptRequest \<longrightarrow> messages (Prepares rs) = [] \<and> messages (Commits rs) = []) \<and>
     (\<not> waiting \<and> s \<noteq> StateAcceptRequest \<longrightarrow> rsPrePrepare rs \<noteq> None)"

definition core_inv :: "lib \<Rightarrow> core \<Rightarrow> bool" where
  "core_inv L c \<longleftrightarrow>
     (\<exists>vs rs rcs. valSet c = Some vs \<and> currentRoundState c = Some rs \<and> rcSet c = Some rcs \<and>
        lock_ok rs \<and> votes_ok L vs rs \<and> phase_ok (state c) (waitingForRoundChange c) rs \<and>
        rcs_inv rcs \<and> ids (rcValSet rcs) = ids vs)"

lemma core_invI:
  assumes "valSet c = Some vs" "currentRoundState c = Some rs" "rcSet c = Some rcs"
    "lock_ok rs" "votes_ok L vs rs" "phase_ok (state c) (waitingForRoundChange c) rs"
    "rcs_inv rcs" "ids (rcValSet rcs) = ids vs"
  shows "core_inv L c"
  using assms by (auto simp: core_inv_def)

lemma core_invE:
  assumes "core_inv L c"
  obtains vs rs rcs where "valSet c = Some vs" "currentRoundState c = Some rs" "rcSet c = Some rcs"
    "lock_ok rs" "votes_ok L vs rs" "phase_ok (state c) (waitingForRoundChange c) rs"
    "rcs_inv rcs" "ids (rcValSet rcs) = ids vs"
  using assms by (auto simp: core_inv_def)

lemma core_inv_ckernel: "ckernel c' = ckernel c \<Longrightarrow> core_inv L c' = core_inv L c"
  by (simp add: core_inv_def ckernel_def)

section \<open>The round state after a round change\<close>

definition nextRoundState :: "lib \<Rightarrow> int \<Rightarrow> int \<Rightarrow> ValidatorSet \<Rightarrow> bool \<Rightarrow> roundState ptr \<Rightarrow> roundState" where
  "nextRoundState L s r vs change old =
     \<lparr>rsRound = r, rsSequence = big_Uint64 s,
      rsPrePrepare = (case old of Some rs \<Rightarrow> if change \<and> IsHashLocked L rs then rsPrePrepare rs else None
                      | None \<Rightarrow> None),
      Prepares = NewMessageSet vs, Commits = NewMessageSet vs,
      lockedHash = (case old of Some rs \<Rightarrow> if change \<and> IsHashLocked L rs then lockedHash rs else emptyHash
                    | None \<Rightarrow> emptyHash),
      pendingRequest = (case old of Some rs \<Rightarrow> if change then pendingRequest rs else None | None \<Rightarrow> None)\<rparr>"

lemma updateRoundState_mkView:
  "updateRoundState L (mkView s r) vs change c =
     Some (c\<lparr>currentRoundState := Some (nextRoundState L s r vs change (currentRoundState c))\<rparr>)"
  by (auto simp: updateRoundState_def nextRoundState_def GetLockedHash_def split: option.splits)

lemma nextRoundState_simps [simp]:
  "rsRound (nextRoundState L s r vs change old) = r"
  "rsSequence (nextRoundState L s r vs change old) = big_Uint64 s"
  "Prepares (nextRoundState L s r vs change old) = NewMessageSet vs"
  "Commits (nextRoundState L s r vs change old) = NewMessageSet vs"
  by (simp_all add: nextRoundState_def)

lemma lock_ok_nextRoundState:
  "(\<And>rs. old = Some rs \<Longrightarrow> lock_ok rs) \<Longrightarrow> lock_ok (nextRoundState L s r vs change old)"
  by (cases old) (auto simp: lock_ok_def nextRoundState_def)

lemma votes_ok_new:
  "Prepares rs = NewMessageSet ws \<Longrightarrow> Commits rs = NewMessageSet ws \<Longrightarrow> ids ws = ids vs \<Longrightarrow>
     votes_ok L vs rs"
  by (simp add: votes_ok_def ms_Values_def)

section \<open>Round changes keep the invariant\<close>

lemma enterRound_ckernel:
  assumes "enterRound E (mkView s r) vs lastProposer change c = Some c'"
  shows "ckernel c' = (peerId c, StateAcceptRequest, Some (CalcProposer vs lastProposer (big_Uint64 r)),
     Some (nextRoundState (envLib E) s r vs change (currentRoundState c)), False,
     Some (newRoundChangeSet vs), committed c)"
  using assms
  by (auto simp: enterRound_def updateRoundState_mkView ckernel_def elim!: bind_SomeE split: if_splits
      dest!: kernel_setState kernel_reproposal kernel_newRoundChangeTimer)

lemma enterRound_inv:
  assumes "enterRound E (mkView s r) vs lastProposer change c = Some c'"
    and "\<And>rs. currentRoundState c = Some rs \<Longrightarrow> lock_ok rs"
  shows "core_inv (envLib E) c'"
  using enterRound_ckernel [OF assms(1)]
    lock_ok_nextRoundState [of "currentRoundState c", OF assms(2)]
  by (auto simp: core_inv_def ckernel_def phase_ok_def intro!: votes_ok_new)

lemma newRoundKind_same:
  "newRoundKind rnd lp c = Some (change, c0) \<Longrightarrow> ckernel c0 = ckernel c"
  by (auto simp: newRoundKind_def ckernel_def split: option.splits if_splits)

lemma StartNewRound_cases:
  assumes "StartNewRound E rnd c = Some c'"
  obtains (stay) "c' = c"
  | (enter) s r vs lp change c0 where "enterRound E (mkView s r) vs lp change c0 = Some c'"
      "currentRoundState c0 = currentRoundState c" "committed c0 = committed c" "peerId c0 = peerId c"
proof (cases "newRoundKind rnd (fst (beLastProposal (envBackend E))) c")
  case None
  with assms have "c' = c" by (simp add: StartNewRound_def case_prod_unfold)
  then show ?thesis by (rule stay)
next
  case (Some kc)
  obtain change c0 where kc: "kc = (change, c0)" by fastforce
  with Some have same: "ckernel c0 = ckernel c" by (auto dest: newRoundKind_same)
  show ?thesis
  proof (cases change)
    case True
    with assms Some kc same show ?thesis
      by (auto simp: StartNewRound_def case_prod_unfold ckernel_def elim!: bind_SomeE intro: enter)
  next
    case False
    with assms Some kc obtain lp :: Proposal and vs where
      "enterRound E (mkView (big_of_u64 (Height lp) + 1) 0) vs (snd (beLastProposal (envBackend E)))
         False (c0\<lparr>valSet := Some vs\<rparr>) = Some c'"
      by (auto simp: StartNewRound_def case_prod_unfold Let_def elim!: bind_SomeE)
    then show ?thesis
      by (rule enter) (use same in \<open>simp_all add: ckernel_def\<close>)
  qed
qed

lemma StartNewRound_inv:
  assumes "StartNewRound E rnd c = Some c'" "core_inv (envLib E) c"
  shows "core_inv (envLib E) c'"
  using assms(1)
proof (cases rule: StartNewRound_cases)
  case (enter s r vs lp change c0)
  then show ?thesis
    using assms(2) by (intro enterRound_inv [OF enter(1)]) (auto elim!: core_invE)
qed (simp add: assms(2))

lemma StartNewRound_committed:
  "StartNewRound E rnd c = Some c' \<Longrightarrow> committed c' = committed c \<and> peerId c' = peerId c"
  by (erule StartNewRound_cases) (auto dest!: enterRound_ckernel simp: ckernel_def)

lemma Start_inv:
  assumes "Start E (NewEngine x) = Some c"
  shows "core_inv (envLib E) c"
proof -
  from assms have "StartNewRound E 0 (NewEngine x) = Some c" by (simp add: Start_def)
  then show ?thesis
  proof (cases rule: StartNewRound_cases)
    case stay
    with assms show ?thesis
      by (auto simp: Start_def StartNewRound_def newRoundKind_def NewEngine_def case_prod_unfold
          Let_def elim!: bind_SomeE dest!: enterRound_ckernel simp: ckernel_def)
  next
    case (enter s r vs lp change c0)
    then show ?thesis by (intro enterRound_inv [OF enter(1)]) (simp add: NewEngine_def)
  qed
qed

lemma catchUpRound_ckernel:
  assumes "catchUpRound E (mkView s r) c = Some c'"
  obtains vs rcs where "valSet c = Some vs" "rcSet c = Some rcs"
    "ckernel c' = (peerId c, state c, Some vs,
       Some (nextRoundState (envLib E) s r vs True (currentRoundState c)), True,
       Some (rcs_Clear rcs r), committed c)"
  using assms
  by (auto simp: catchUpRound_def updateRoundState_mkView ckernel_def elim!: bind_SomeE
      dest!: kernel_newRoundChangeTimer)

lemma catchUpRound_inv:
  assumes "catchUpRound E (mkView s r) c = Some c'" "core_inv (envLib E) c"
  shows "core_inv (envLib E) c' \<and> committed c' = committed c \<and> peerId c' = peerId c"
  using assms(2)
proof (rule core_invE)
  fix vs rs rcs
  assume c: "valSet c = Some vs" "currentRoundState c = Some rs" "rcSet c = Some rcs" "lock_ok rs"
    "rcs_inv rcs" "ids (rcValSet rcs) = ids vs"
  have lock: "lock_ok (nextRoundState (envLib E) s r vs True (Some rs))"
    using c by (intro lock_ok_nextRoundState) simp
  from assms(1) show ?thesis
    by (rule catchUpRound_ckernel)
      (use c lock in \<open>auto simp: core_inv_def ckernel_def phase_ok_def rcs_inv_Clear
        intro!: votes_ok_new\<close>)
qed

lemma currentView_eq: "currentRoundState c = Some rs \<Longrightarrow>
  currentView c = Some (mkView (big_of_u64 (rsSequence rs)) (rsRound rs))"
  by (simp add: currentView_def SequenceOf_def RoundOf_def)

lemma sendRoundChange_inv:
  assumes "sendRoundChange E r c = Some c'" "core_inv (envLib E) c"
  shows "core_inv (envLib E) c' \<and> committed c' = committed c \<and> peerId c' = peerId c"
proof -
  from assms(2) obtain rs where rs: "currentRoundState c = Some rs" by (auto elim: core_invE)
  show ?thesis
  proof (cases "rsRound rs < r")
    case True
    with assms(1) rs obtain c1 cv1 where
      c1: "catchUpRound E (mkView (big_of_u64 (rsSequence rs)) r) c = Some c1"
      and send: "(case encodeSubject (envLib E) \<lparr>sbView = Some cv1, Digest = emptyHash\<rparr> of
          None \<Rightarrow> ret c1 | Some body \<Rightarrow> Broadcast E (newMsg MsgRoundChange body) c1) = Some c'"
      by (auto simp: sendRoundChange_def currentView_eq elim!: bind_SomeE)
    from send have same: "ckernel c' = ckernel c1"
      by (auto split: option.splits dest: kernel_Broadcast)
    then show ?thesis
      using catchUpRound_inv [OF c1 assms(2)] core_inv_ckernel [OF same] ckernelD [OF same] by metis
  next
    case False
    with assms rs show ?thesis by (auto simp: sendRoundChange_def currentView_eq)
  qed
qed

lemma sendNextRoundChange_inv:
  "sendNextRoundChange E c = Some c' \<Longrightarrow> core_inv (envLib E) c \<Longrightarrow>
     core_inv (envLib E) c' \<and> committed c' = committed c \<and> peerId c' = peerId c"
  by (auto simp: sendNextRoundChange_def elim!: bind_SomeE dest!: sendRoundChange_inv)

section \<open>The phases keep the invariant\<close>

lemma SubjectOf_frame [simp]:
  "SubjectOf (rs\<lparr>Prepares := x\<rparr>) = SubjectOf rs"
  "SubjectOf (rs\<lparr>Commits := x\<rparr>) = SubjectOf rs"
  "SubjectOf (rs\<lparr>lockedHash := h\<rparr>) = SubjectOf rs"
  "SubjectOf (rs\<lparr>pendingRequest := q\<rparr>) = SubjectOf rs"
  by (cases "rsPrePrepare rs"; simp add: SubjectOf_def)+

lemma vote_for_frame [simp]:
  "vote_for L (rs\<lparr>Prepares := x\<rparr>) = vote_for L rs"
  "vote_for L (rs\<lparr>Commits := x\<rparr>) = vote_for L rs"
  "vote_for L (rs\<lparr>lockedHash := h\<rparr>) = vote_for L rs"
  "vote_for L (rs\<lparr>pendingRequest := q\<rparr>) = vote_for L rs"
  by (simp_all add: vote_for_def fun_eq_iff)

lemma lock_ok_frame [simp]:
  "lock_ok (rs\<lparr>Prepares := x\<rparr>) = lock_ok rs"
  "lock_ok (rs\<lparr>Commits := x\<rparr>) = lock_ok rs"
  "lock_ok (rs\<lparr>pendingRequest := q\<rparr>) = lock_ok rs"
  by (simp_all add: lock_ok_def)

lemma votes_ok_frame [simp]:
  "votes_ok L vs (rs\<lparr>lockedHash := h\<rparr>) = votes_ok L vs rs"
  "votes_ok L vs (rs\<lparr>pendingRequest := q\<rparr>) = votes_ok L vs rs"
  by (simp_all add: votes_ok_def)

lemma phase_ok_frame [simp]:
  "phase_ok s w (rs\<lparr>lockedHash := h\<rparr>) = phase_ok s w rs"
  "phase_ok s w (rs\<lparr>pendingRequest := q\<rparr>) = phase_ok s w rs"
  by (simp_all add: phase_ok_def)

lemma votes_ok_empty:
  "votes_ok L vs rs \<Longrightarrow> messages (Prepares rs) = [] \<Longrightarrow> messages (Commits rs) = [] \<Longrightarrow>
     votes_ok L vs (rs\<lparr>rsPrePrepare := pp\<rparr>)"
  by (simp add: votes_ok_def ms_Values_def)

lemma ms_Values_Add: "m \<in> set (ms_Values (snd (ms_Add ms msg))) \<Longrightarrow> m = msg \<or> m \<in> set (ms_Values ms)"
  by (auto simp: ms_Add_def ms_Values_def split: option.splits dest!: in_update)

lemma votes_ok_Prepares:
  "votes_ok L vs rs \<Longrightarrow> vote_for L rs MsgPrepare msg \<Longrightarrow>
     votes_ok L vs (rs\<lparr>Prepares := snd (ms_Add (Prepares rs) msg)\<rparr>)"
  by (auto simp: votes_ok_def ms_inv_Add dest!: ms_Values_Add)

lemma votes_ok_Commits:
  "votes_ok L vs rs \<Longrightarrow> vote_for L rs MsgCommit msg \<Longrightarrow>
     votes_ok L vs (rs\<lparr>Commits := snd (ms_Add (Commits rs) msg)\<rparr>)"
  by (auto simp: votes_ok_def ms_inv_Add dest!: ms_Values_Add)

lemma LockHash_ok:
  assumes "LockHash rs = Some rs'" "lock_ok rs"
  shows "\<exists>h. rs' = rs\<lparr>lockedHash := h\<rparr> \<and> lock_ok (rs\<lparr>lockedHash := h\<rparr>)"
proof (cases "rsPrePrepare rs")
  case None
  with assms have "rs' = rs\<lparr>lockedHash := lockedHash rs\<rparr>" by (simp add: LockHash_def)
  with assms(2) show ?thesis by (metis roundState.surjective roundState.update_convs(6))
next
  case (Some pp)
  with assms show ?thesis by (auto simp: LockHash_def lock_ok_def elim!: bind_SomeE)
qed

lemma lock_ok_UnlockHash [simp]: "lock_ok rs \<Longrightarrow> lock_ok (rs\<lparr>lockedHash := emptyHash\<rparr>)"
  by (simp add: lock_ok_def)

text \<open>A message of the current view passes the check only outside a round change, and a prepare
  or a commit only once a pre-prepare has been accepted.\<close>

lemma checkMessage_mkView:
  assumes "currentRoundState c = Some rs"
  shows "checkMessage c code (Some (mkView s r)) =
    (let cs = big_of_u64 (rsSequence rs); cr = rsRound rs in
     if code = MsgRoundChange then
       Some (if s > cs then Some errFutureMessage
             else if s < cs \<or> r < cr then Some ErrOldMessage else None)
     else Some (if s > cs \<or> s = cs \<and> r > cr then Some errFutureMessage
             else if s < cs \<or> r < cr then Some ErrOldMessage
             else if waitingForRoundChange c then Some errFutureMessage
             else if state c = StateAcceptRequest \<and> code > MsgPrePrepare then Some errFutureMessage
             else None))"
  by (auto simp: checkMessage_def currentView_eq [OF assms] Let_def big_Cmp_def)

lemma checkMessage_None:
  assumes "checkMessage c code v = Some None" "currentRoundState c = Some rs"
  obtains s r where "v = Some (mkView s r)"
    "code \<noteq> MsgRoundChange \<Longrightarrow>
       s = big_of_u64 (rsSequence rs) \<and> r = rsRound rs \<and> \<not> waitingForRoundChange c \<and>
       (state c = StateAcceptRequest \<longrightarrow> code = MsgPrePrepare)"
    "code = MsgRoundChange \<Longrightarrow> s = big_of_u64 (rsSequence rs) \<and> r \<ge> rsRound rs"
proof -
  from assms(1) obtain w s r where v: "v = Some w" "Sequence w = Some s" "Round w = Some r"
    by (auto simp: checkMessage_def split: option.splits if_splits)
  then have w: "v = Some (mkView s r)" by simp
  show ?thesis
    by (rule that [OF w])
      (use assms(1) w in \<open>auto simp: checkMessage_mkView [OF assms(2)] Let_def word_gt_0
        split: if_splits\<close>)
qed

lemma setState_inv:
  assumes "setState L s c = Some c'" "core_inv L (c\<lparr>state := s\<rparr>)"
  shows "core_inv L c' \<and> committed c' = committed c \<and> peerId c' = peerId c"
  using kernel_setState [OF assms(1)] assms(2) core_inv_ckernel [OF kernel_setState [OF assms(1)]]
  by (simp add: ckernel_eq_iff)

lemma core_inv_enter_phase:
  assumes "core_inv L c" "currentRoundState c = Some rs" "state c = StateAcceptRequest"
    "\<not> waitingForRoundChange c" "ppProposal pp = Some p"
    "lockedHash rs \<noteq> emptyHash \<Longrightarrow> PHash p = lockedHash rs"
  shows "core_inv L (c\<lparr>consensusTimestamp := t, currentRoundState := Some (rs\<lparr>rsPrePrepare := Some pp\<rparr>),
     state := s\<rparr>)"
  using assms(1)
proof (rule core_invE)
  fix vs rs0 rcs
  assume c: "valSet c = Some vs" "currentRoundState c = Some rs0" "rcSet c = Some rcs" "lock_ok rs0"
    "votes_ok L vs rs0" "phase_ok (state c) (waitingForRoundChange c) rs0" "rcs_inv rcs"
    "ids (rcValSet rcs) = ids vs"
  with assms have "rs0 = rs" and empty: "messages (Prepares rs) = []" "messages (Commits rs) = []"
    by (auto simp: phase_ok_def)
  with c assms show ?thesis
    by (intro core_invI [of _ vs "rs\<lparr>rsPrePrepare := Some pp\<rparr>" rcs])
      (auto simp: lock_ok_def phase_ok_def votes_ok_empty)
qed

lemma acceptProposal_inv:
  assumes "acceptProposal E pp p c = Some c'" "core_inv (envLib E) c" "hash_ok (envLib E)"
    "state c = StateAcceptRequest" "\<not> waitingForRoundChange c" "ppProposal pp = Some p"
  shows "core_inv (envLib E) c' \<and> committed c' = committed c \<and> peerId c' = peerId c"
proof -
  obtain rs where rs: "currentRoundState c = Some rs" using assms(2) by (auto elim: core_invE)
  let ?c1 = "c\<lparr>consensusTimestamp := envNow E, currentRoundState := Some (rs\<lparr>rsPrePrepare := Some pp\<rparr>)\<rparr>"
  note enter = core_inv_enter_phase [OF assms(2) rs assms(4-6), where t = "envNow E"]
  show ?thesis
  proof (cases "lockedHash rs \<noteq> emptyHash \<and> PHash p \<noteq> lockedHash rs")
    case True
    with assms(1-3) rs show ?thesis
      by (auto simp: acceptProposal_def go_simps dest!: sendNextRoundChange_inv)
  next
    case False
    then obtain s c2 where c2: "setState (envLib E) s ?c1 = Some c2" and "ckernel c' = ckernel c2"
      using assms(1,3) rs
      by (auto simp: acceptProposal_def acceptPrePrepare_def go_simps elim!: bind_SomeE split: if_splits
          dest!: kernel_SendCommit kernel_SendPrepare)
    moreover have "core_inv (envLib E) c2 \<and> committed c2 = committed ?c1 \<and> peerId c2 = peerId ?c1"
      by (rule setState_inv [OF c2], rule enter) (use False in auto)
    ultimately show ?thesis
      using core_inv_ckernel [of c' c2] by (auto simp: ckernel_eq_iff)
  qed
qed

lemma oldPrePrepare_ckernel:
  "oldPrePrepare E pp p view val c = Some (e, c') \<Longrightarrow> ckernel c' = ckernel c"
  by (auto simp: oldPrePrepare_def sendCommitForOldBlock_def elim!: bind_SomeE split: if_splits
      dest!: kernel_broadcastCommit)

lemma HandlePrePrepare_inv:
  assumes "HandlePrePrepare E msg val c = Some (e, c')" "core_inv (envLib E) c" "hash_ok (envLib E)"
  shows "core_inv (envLib E) c' \<and> committed c' = committed c \<and> peerId c' = peerId c"
proof -
  obtain rs where rs: "currentRoundState c = Some rs" using assms(2) by (auto elim: core_invE)
  from assms(1) show ?thesis
  proof (cases rule: HandlePrePrepare_cases)
    case (old pp p view)
    from old(1) have "ckernel c' = ckernel c" by (rule oldPrePrepare_ckernel)
    then show ?thesis using assms(2) core_inv_ckernel [of c' c] by (simp add: ckernel_eq_iff)
  next
    case (accepted pp p view)
    then have "\<not> waitingForRoundChange c" by (auto elim: checkMessage_None [OF _ rs])
    with accepted assms(2,3) show ?thesis by (intro acceptProposal_inv)
  qed (simp add: assms(2))
qed


text \<open>A vote that passes the checks of its handler is for the current subject.\<close>

lemma accepted_vote:
  assumes "checkMessage c code (sbView sub) = Some None" "code = MsgPrepare \<or> code = MsgCommit"
    "verifySubject sub c = Some None" "decodeSubject L (Msg msg) = Some (Some sub)" "Code msg = code"
    "currentRoundState c = Some rs"
  shows "vote_for L rs code msg \<and> \<not> waitingForRoundChange c \<and> state c \<noteq> StateAcceptRequest"
  using assms(2-6)
  by (auto simp: verifySubject_def vote_for_def elim!: bind_SomeE split: if_splits
      intro: checkMessage_None [OF assms(1,6)])

lemma core_inv_addPrepare:
  assumes "acceptPrepare msg c = Some c'" "core_inv L c" "currentRoundState c = Some rs"
    "vote_for L rs MsgPrepare msg" "\<not> waitingForRoundChange c" "state c \<noteq> StateAcceptRequest"
  shows "core_inv L c' \<and> committed c' = committed c \<and> peerId c' = peerId c"
  using assms(2)
proof (rule core_invE)
  fix vs rs0 rcs
  assume c: "valSet c = Some vs" "currentRoundState c = Some rs0" "rcSet c = Some rcs" "lock_ok rs0"
    "votes_ok L vs rs0" "phase_ok (state c) (waitingForRoundChange c) rs0" "rcs_inv rcs"
    "ids (rcValSet rcs) = ids vs"
  let ?rs = "rs\<lparr>Prepares := snd (ms_Add (Prepares rs) msg)\<rparr>"
  have "c' = c\<lparr>currentRoundState := Some ?rs\<rparr>"
    using assms(1,3) by (simp add: acceptPrepare_def)
  then show ?thesis
    using c assms
    by (auto intro!: core_invI [of _ vs ?rs rcs] votes_ok_Prepares simp: phase_ok_def)
qed

lemma core_inv_addCommit:
  assumes "acceptCommit msg c = Some c'" "core_inv L c" "currentRoundState c = Some rs"
    "vote_for L rs MsgCommit msg" "\<not> waitingForRoundChange c" "state c \<noteq> StateAcceptRequest"
  shows "core_inv L c' \<and> committed c' = committed c \<and> peerId c' = peerId c"
  using assms(2)
proof (rule core_invE)
  fix vs rs0 rcs
  assume c: "valSet c = Some vs" "currentRoundState c = Some rs0" "rcSet c = Some rcs" "lock_ok rs0"
    "votes_ok L vs rs0" "phase_ok (state c) (waitingForRoundChange c) rs0" "rcs_inv rcs"
    "ids (rcValSet rcs) = ids vs"
  let ?rs = "rs\<lparr>Commits := snd (ms_Add (Commits rs) msg)\<rparr>"
  have "c' = c\<lparr>currentRoundState := Some ?rs\<rparr>"
    using assms(1,3) by (simp add: acceptCommit_def)
  then show ?thesis
    using c assms
    by (auto intro!: core_invI [of _ vs ?rs rcs] votes_ok_Commits simp: phase_ok_def)
qed

lemma lockHash_inv:
  assumes "lockHash c = Some c'" "core_inv L c"
  shows "core_inv L c' \<and>
    (\<exists>rs h. currentRoundState c = Some rs \<and> c' = c\<lparr>currentRoundState := Some (rs\<lparr>lockedHash := h\<rparr>)\<rparr>)"
  using assms(2)
proof (rule core_invE)
  fix vs rs rcs
  assume c: "valSet c = Some vs" "currentRoundState c = Some rs" "rcSet c = Some rcs" "lock_ok rs"
    "votes_ok L vs rs" "phase_ok (state c) (waitingForRoundChange c) rs" "rcs_inv rcs"
    "ids (rcValSet rcs) = ids vs"
  from assms(1) c obtain h where h: "c' = c\<lparr>currentRoundState := Some (rs\<lparr>lockedHash := h\<rparr>)\<rparr>"
      "lock_ok (rs\<lparr>lockedHash := h\<rparr>)"
    by (auto simp: lockHash_def elim!: bind_SomeE dest!: LockHash_ok)
  with c show ?thesis
    by (auto intro!: core_invI [of _ vs "rs\<lparr>lockedHash := h\<rparr>" rcs])
qed

lemma core_inv_later_phase:
  assumes "core_inv L c" "\<not> waitingForRoundChange c" "state c \<noteq> StateAcceptRequest"
    "s \<noteq> StateAcceptRequest"
  shows "core_inv L (c\<lparr>state := s\<rparr>)"
  using assms by (auto simp: core_inv_def phase_ok_def)

lemma core_inv_unlock:
  assumes "core_inv L c" "currentRoundState c = Some rs"
  shows "core_inv L (c\<lparr>currentRoundState := Some (rs\<lparr>lockedHash := emptyHash\<rparr>)\<rparr>)"
    and "core_inv L (c\<lparr>currentRoundState := Some (rs\<lparr>lockedHash := emptyHash, pendingRequest := None\<rparr>)\<rparr>)"
    and "core_inv L (c\<lparr>currentRoundState := Some (rs\<lparr>pendingRequest := q\<rparr>)\<rparr>)"
  using assms by (auto simp: core_inv_def)

lemma core_inv_committed [simp]: "core_inv L (c\<lparr>committed := x\<rparr>) = core_inv L c"
  by (simp add: core_inv_def)

lemma HandlePrepare_inv:
  assumes "HandlePrepare E msg val c = Some (e, c')" "core_inv (envLib E) c" "Code msg = MsgPrepare"
  shows "core_inv (envLib E) c' \<and> committed c' = committed c \<and> peerId c' = peerId c"
proof -
  obtain rs where rs: "currentRoundState c = Some rs" using assms(2) by (auto elim: core_invE)
  from assms(1) rs show ?thesis
  proof (cases rule: HandlePrepare_cases)
    case (accepted sub c1)
    with rs assms(3) have vote: "vote_for (envLib E) rs MsgPrepare msg" "\<not> waitingForRoundChange c"
        "state c \<noteq> StateAcceptRequest"
      using accepted_vote [of c MsgPrepare sub "envLib E" msg rs] by auto
    have "acceptPrepare msg c = Some c1" using rs accepted(4) by (simp add: acceptPrepare_def)
    note c1 = core_inv_addPrepare [OF this assms(2) rs vote]
    from accepted(4) vote have same: "\<not> waitingForRoundChange c1" "state c1 \<noteq> StateAcceptRequest"
      by auto
    from accepted(5) show ?thesis
    proof (elim disjE exE conjE)
      fix c2 c3
      assume lock: "lockHash c1 = Some c2" and set: "setState (envLib E) StatePrepared c2 = Some c3"
        and send: "SendCommit E c3 = Some c'"
      have "core_inv (envLib E) (c2\<lparr>state := StatePrepared\<rparr>) \<and> committed c2 = committed c \<and> peerId c2 = peerId c"
        using lockHash_inv [OF lock, of "envLib E"] c1 same by (auto intro!: core_inv_later_phase)
      then show ?thesis
        using setState_inv [OF set] core_inv_ckernel [OF kernel_SendCommit [OF send]]
          ckernelD [OF kernel_SendCommit [OF send]] by auto
    qed (simp add: c1)
  qed (simp add: assms(2))
qed


section \<open>Commit certificates\<close>

text \<open>What justifies handing a proposal to the backend: commit messages of different validators,
  enough of them for the threshold, all for the same subject.\<close>

definition commit_cert :: "lib \<Rightarrow> ValidatorSet \<Rightarrow> Subject \<Rightarrow> Message list \<Rightarrow> bool" where
  "commit_cert L vs sub ms \<longleftrightarrow>
     distinct (map MsgValidator ms) \<and> set (map MsgValidator ms) \<subseteq> set (ids vs) \<and>
     reachThreshold vs (int (length ms)) \<and>
     (\<forall>m \<in> set ms. Code m = MsgCommit \<and> decodeSubject L (Msg m) = Some (Some sub))"

lemma map_MsgValidator_Values: "ms_inv ms \<Longrightarrow> map MsgValidator (ms_Values ms) = keys (messages ms)"
  by (auto simp: ms_inv_def ms_Values_def)

lemma commit_certI:
  assumes "votes_ok L vs rs" "SubjectOf rs = Some (Some sub)" "reachThreshold vs (ms_Size (Commits rs))"
  shows "commit_cert L vs sub (ms_Values (Commits rs))"
proof -
  have inv: "ms_inv (Commits rs)" and ids: "ids (msValSet (Commits rs)) = ids vs"
    and votes: "\<forall>m \<in> set (ms_Values (Commits rs)). vote_for L rs MsgCommit m"
    using assms(1) by (simp_all add: votes_ok_def)
  moreover have "set (keys (messages (Commits rs))) \<subseteq> set (ids vs)"
    using inv ids by (auto simp: ms_inv_def)
  moreover have "distinct (keys (messages (Commits rs)))" using inv by (simp add: ms_inv_def)
  moreover have "ms_Size (Commits rs) = int (length (ms_Values (Commits rs)))"
    by (simp add: ms_Size_def ms_Values_def)
  ultimately show ?thesis
    using assms(2,3) unfolding commit_cert_def map_MsgValidator_Values [OF inv]
    by (simp add: vote_for_def)
qed

text \<open>The commit messages a core has counted in its round.\<close>

definition tallied :: "core \<Rightarrow> Message set" where
  "tallied c = (case currentRoundState c of None \<Rightarrow> {} | Some rs \<Rightarrow> set (ms_Values (Commits rs)))"

text \<open>A step that handles messages of \<open>M\<close> commits nothing, or a proposal with a certificate of
  messages counted before and messages of \<open>M\<close>.\<close>

definition cert_step :: "lib \<Rightarrow> Message set \<Rightarrow> core \<Rightarrow> core \<Rightarrow> bool" where
  "cert_step L M c c' \<longleftrightarrow> committed c' = committed c \<or>
     (\<exists>v p ms vs. committed c' = committed c @ [(v, p, map CommittedSeal ms)] \<and>
        valSet c = Some vs \<and> currentView c = Some v \<and> state c < StateCommitted \<and>
        \<not> waitingForRoundChange c \<and> commit_cert L vs \<lparr>sbView = Some v, Digest = PHash p\<rparr> ms \<and>
        set ms \<subseteq> tallied c \<union> M)"

lemma commitProposal_cases:
  assumes "commitProposal E c = Some c'" "currentRoundState c = Some rs" "ProposalOf rs = Some p"
  obtains c1 where "setState (envLib E) StateCommitted c = Some c1" "currentRoundState c1 = Some rs"
    "let v = mkView (big_of_u64 (rsSequence rs)) (rsRound rs);
         c2 = c1\<lparr>committed := committed c1 @ [(v, p, map CommittedSeal (ms_Values (Commits rs)))]\<rparr>
     in c' = c2 \<or> sendNextRoundChange E (c2\<lparr>currentRoundState := Some (UnlockHash rs)\<rparr>) = Some c'"
proof -
  from assms(1) obtain c1 where set: "setState (envLib E) StateCommitted c = Some c1"
    by (auto simp: commitProposal_def elim!: bind_SomeE)
  then have rs: "currentRoundState c1 = Some rs"
    using assms(2) by (auto simp: ckernel_eq_iff dest: kernel_setState)
  with set assms(1,3) show ?thesis
    by (intro that [of c1])
      (auto simp: commitProposal_def Let_def SequenceOf_def RoundOf_def split: option.splits)
qed

lemma commitProposal_inv:
  assumes "commitProposal E c = Some c'" "core_inv (envLib E) c" "currentRoundState c = Some rs"
    "ProposalOf rs = Some p" "\<not> waitingForRoundChange c" "state c \<noteq> StateAcceptRequest"
  shows "core_inv (envLib E) c' \<and> peerId c' = peerId c \<and>
    committed c' = committed c @ [(mkView (big_of_u64 (rsSequence rs)) (rsRound rs), p,
      map CommittedSeal (ms_Values (Commits rs)))]"
  using assms(1,3,4)
proof (rule commitProposal_cases)
  fix c1
  let ?seals = "map CommittedSeal (ms_Values (Commits rs))"
  assume set: "setState (envLib E) StateCommitted c = Some c1" and rs: "currentRoundState c1 = Some rs"
    and fin: "let v = mkView (big_of_u64 (rsSequence rs)) (rsRound rs);
         c2 = c1\<lparr>committed := committed c1 @ [(v, p, ?seals)]\<rparr>
     in c' = c2 \<or> sendNextRoundChange E (c2\<lparr>currentRoundState := Some (UnlockHash rs)\<rparr>) = Some c'"
  have c1: "core_inv (envLib E) c1 \<and> committed c1 = committed c \<and> peerId c1 = peerId c"
    by (rule setState_inv [OF set], rule core_inv_later_phase) (simp_all add: assms)
  have "core_inv (envLib E) (c1\<lparr>committed := x, currentRoundState := Some (UnlockHash rs)\<rparr>)" for x
    using core_inv_unlock(1) [of "envLib E" "c1\<lparr>committed := x\<rparr>" rs] c1 rs
    by (simp add: UnlockHash_def)
  with fin c1 show ?thesis
    by (auto simp: Let_def dest!: sendNextRoundChange_inv)
qed

lemma HandleCommit_inv:
  assumes "HandleCommit E msg val c = Some (e, c')" "core_inv (envLib E) c" "Code msg = MsgCommit"
  shows "core_inv (envLib E) c' \<and> cert_step (envLib E) {msg} c c' \<and> peerId c' = peerId c"
proof -
  obtain rs vs where rs: "currentRoundState c = Some rs" and vs: "valSet c = Some vs"
    using assms(2) by (auto elim: core_invE)
  from assms(1) rs show ?thesis
  proof (cases rule: HandleCommit_cases)
    case (accepted sub c1)
    let ?rs1 = "rs\<lparr>Commits := snd (ms_Add (Commits rs) msg)\<rparr>"
    from accepted rs assms(3) have vote: "vote_for (envLib E) rs MsgCommit msg" "\<not> waitingForRoundChange c"
        "state c \<noteq> StateAcceptRequest"
      using accepted_vote [of c MsgCommit sub "envLib E" msg rs] by auto
    note c1_eq = accepted(4)
    have "acceptCommit msg c = Some c1" using rs c1_eq by (simp add: acceptCommit_def)
    note c1 = core_inv_addCommit [OF this assms(2) rs vote]
    from accepted(3) rs have sub: "SubjectOf rs = Some (Some sub)"
      by (auto simp: verifySubject_def elim!: bind_SomeE split: if_splits)
    then obtain pp p where p: "rsPrePrepare rs = Some pp" "ppProposal pp = Some p"
        "sub = \<lparr>sbView = Some (mkView (big_of_u64 (rsSequence rs)) (rsRound rs)), Digest = PHash p\<rparr>"
      by (auto simp: SubjectOf_def elim!: bind_SomeE split: option.splits)
    from accepted(5) show ?thesis
    proof (elim disjE exE conjE)
      assume "c' = c1"
      then show ?thesis using c1 by (simp add: cert_step_def)
    next
      fix c2
      assume reach: "reachCommitThreshold c1 = Some True" and lock: "lockHash c1 = Some c2"
        and early: "state c < StateCommitted" and com: "commitProposal E c2 = Some c'"
      from lockHash_inv [OF lock] c1 c1_eq obtain h where
        c2: "core_inv (envLib E) c2" "c2 = c\<lparr>currentRoundState := Some (?rs1\<lparr>lockedHash := h\<rparr>)\<rparr>"
        by auto
      have fin: "core_inv (envLib E) c' \<and> peerId c' = peerId c2 \<and>
          committed c' = committed c2 @ [(mkView (big_of_u64 (rsSequence rs)) (rsRound rs), p,
            map CommittedSeal (ms_Values (Commits ?rs1)))]"
        using commitProposal_inv [OF com c2(1), of "?rs1\<lparr>lockedHash := h\<rparr>" p] c2(2) vote p
        by (simp add: ProposalOf_def)
      have "votes_ok (envLib E) vs ?rs1" using c1 c1_eq vs by (auto elim: core_invE)
      then have "commit_cert (envLib E) vs sub (ms_Values (Commits ?rs1))"
        by (rule commit_certI) (use sub reach c1_eq vs in \<open>simp_all add: reachCommitThreshold_def\<close>)
      moreover note early
      moreover have "set (ms_Values (Commits ?rs1)) \<subseteq> tallied c \<union> {msg}"
        using rs by (auto simp: tallied_def dest: ms_Values_Add)
      moreover have "committed c' = committed c @ [(mkView (big_of_u64 (rsSequence rs)) (rsRound rs), p,
          map CommittedSeal (ms_Values (Commits ?rs1)))]" "core_inv (envLib E) c'" "peerId c' = peerId c"
        using fin c2(2) by simp_all
      ultimately show ?thesis
        using p(3) vs vote(2) currentView_eq [OF rs] unfolding cert_step_def by blast
    qed
  qed (simp add: assms(2) cert_step_def)
qed


section \<open>The event loop keeps the invariant\<close>

lemma core_inv_rcSet:
  assumes "core_inv L c" "rcSet c = Some rcs" "rcs_inv rcs'" "rcValSet rcs' = rcValSet rcs"
  shows "core_inv L (c\<lparr>rcSet := Some rcs'\<rparr>)"
  using assms by (auto simp: core_inv_def)

lemma countedRoundChange_inv:
  assumes "countedRoundChange E cr r num c = Some (e, c')" "core_inv (envLib E) c"
  shows "core_inv (envLib E) c' \<and> committed c' = committed c \<and> peerId c' = peerId c"
  using assms
  by (auto simp: countedRoundChange_def elim!: bind_SomeE split: if_splits
      dest: StartNewRound_inv StartNewRound_committed sendRoundChange_inv)

lemma HandleRoundChange_inv:
  assumes "HandleRoundChange E msg val c = Some (e, c')" "core_inv (envLib E) c"
  shows "core_inv (envLib E) c' \<and> committed c' = committed c \<and> peerId c' = peerId c"
proof -
  obtain rcs where rcs: "rcSet c = Some rcs" "rcs_inv rcs" using assms(2) by (auto elim: core_invE)
  have added: "core_inv (envLib E) (c\<lparr>rcSet := Some (snd (rcs_Add rcs r msg))\<rparr>)" for r
    by (rule core_inv_rcSet [OF assms(2) rcs(1)]) (simp_all add: rcs rcs_inv_Add)
  obtain rs where rs: "currentRoundState c = Some rs" using assms(2) by (auto elim: core_invE)
  from assms(1) rs rcs(1) show ?thesis
  proof (cases rule: HandleRoundChange_cases)
    case (counted r num)
    from countedRoundChange_inv [OF this added] show ?thesis by simp
  qed (simp_all add: assms(2) added)
qed

lemma HandleRequest_inv:
  assumes "HandleRequest E r c = Some (e, c')" "core_inv (envLib E) c"
  shows "core_inv (envLib E) c' \<and> committed c' = committed c \<and> peerId c' = peerId c"
proof -
  obtain rs where rs: "currentRoundState c = Some rs" using assms(2) by (auto elim: core_invE)
  let ?c1 = "c\<lparr>currentRoundState := Some (rs\<lparr>pendingRequest := Some r\<rparr>)\<rparr>"
  have "core_inv (envLib E) ?c1" by (rule core_inv_unlock(3) [OF assms(2) rs])
  moreover have "ckernel c' = ckernel c \<or> ckernel c' = ckernel ?c1"
    using assms(1) rs by (cases rule: HandleRequest_cases) (auto dest: kernel_SendPrePrepare)
  ultimately show ?thesis
    using assms(2) core_inv_ckernel [of c' c] core_inv_ckernel [of c' ?c1]
    by (auto simp: ckernel_eq_iff)
qed

lemma cert_step_same: "committed c' = committed c \<Longrightarrow> cert_step L M c c'"
  by (simp add: cert_step_def)

lemma cert_step_ckernel: "ckernel c2 = ckernel c1 \<Longrightarrow> cert_step L M c c2 = cert_step L M c c1"
  by (simp add: cert_step_def ckernel_eq_iff)

lemma cert_step_ckernel_left: "ckernel c2 = ckernel c1 \<Longrightarrow> cert_step L M c2 c = cert_step L M c1 c"
  by (simp add: cert_step_def ckernel_eq_iff currentView_def tallied_def)

lemma cert_step_mono: "cert_step L M c c' \<Longrightarrow> M \<subseteq> M' \<Longrightarrow> cert_step L M' c c'"
  unfolding cert_step_def by blast

text \<open>A step of the core: the invariant stays, and a committed proposal has its certificate.\<close>

definition good_step :: "lib \<Rightarrow> Message set \<Rightarrow> core \<Rightarrow> core \<Rightarrow> bool" where
  "good_step L M c c' \<longleftrightarrow> core_inv L c' \<and> cert_step L M c c' \<and> peerId c' = peerId c"

lemma good_stepI:
  "core_inv L c' \<and> committed c' = committed c \<and> peerId c' = peerId c \<Longrightarrow> good_step L M c c'"
  by (simp add: good_step_def cert_step_same)

lemma good_step_right: "good_step L M c c1 \<Longrightarrow> ckernel c2 = ckernel c1 \<Longrightarrow> good_step L M c c2"
  using core_inv_ckernel [of c2 c1] cert_step_ckernel [of c2 c1]
  by (simp add: good_step_def ckernel_eq_iff)

lemma good_step_left: "good_step L M c1 c \<Longrightarrow> ckernel c2 = ckernel c1 \<Longrightarrow> good_step L M c2 c"
  using cert_step_ckernel_left [of c2 c1] by (simp add: good_step_def ckernel_eq_iff)

lemma good_step_mono: "good_step L M c c' \<Longrightarrow> M \<subseteq> M' \<Longrightarrow> good_step L M' c c'"
  by (auto simp: good_step_def intro: cert_step_mono)

lemma good_step_refl: "core_inv L c \<Longrightarrow> ckernel c' = ckernel c \<Longrightarrow> good_step L M c c'"
  using core_inv_ckernel [of c' c] by (auto intro: good_stepI simp: ckernel_eq_iff)

lemma handleMsg_inv:
  assumes "handleMsg E msg val c = Some (e, c')" "core_inv (envLib E) c" "hash_ok (envLib E)"
  shows "good_step (envLib E) {msg} c c'"
proof -
  from assms(1) show ?thesis
  proof (cases rule: handleMsg_cases)
    case (handled c1)
    from handled(1) have "good_step (envLib E) {msg} c c1"
      using assms(2,3) HandlePrePrepare_inv HandlePrepare_inv HandleCommit_inv HandleRoundChange_inv
      by (auto simp: good_step_def cert_step_same)
    then show ?thesis using handled_ckernel [OF handled(2)] by (rule good_step_right)
  qed (simp add: assms(2) good_step_refl)
qed

lemma handleTimeoutMsg_inv:
  assumes "handleTimeoutMsg E c = Some c'" "core_inv (envLib E) c"
  shows "core_inv (envLib E) c' \<and> committed c' = committed c \<and> peerId c' = peerId c"
proof -
  obtain rs where rs: "currentRoundState c = Some rs" using assms(2) by (auto elim: core_invE)
  let ?c1 = "c\<lparr>currentRoundState := Some (rs\<lparr>lockedHash := emptyHash, pendingRequest := None\<rparr>)\<rparr>"
  have "core_inv (envLib E) ?c1" by (rule core_inv_unlock(2) [OF assms(2) rs])
  moreover note handleTimeoutMsg_changes [OF assms(1) rs]
  ultimately show ?thesis
    by (auto dest: StartNewRound_inv StartNewRound_committed sendRoundChange_inv sendNextRoundChange_inv)
qed

lemma decodeMsg_Inr: "decodeMsg L c payload = Some (Inr (m, v)) \<Longrightarrow> decodeMessage L payload = Some m"
  by (auto simp: decodeMsg_def FromPayload_def elim!: bind_SomeE split: option.splits sum.splits)

lemma onP2PMsg_cases:
  assumes "onP2PMsg E d c = Some c'"
  obtains (same) "ckernel c' = ckernel c"
  | (handled) m v c1 e c2 where "ckernel c1 = ckernel c" "handleMsg E m v c1 = Some (e, c2)"
      "ckernel c' = ckernel c2" "decodeMessage (envLib E) d = Some m"
proof -
  let ?mark = "\<lambda>v. markPeer (envLib E) (ID v) (keccakHash (envLib E) d) c"
  have known: "ckernel ((?mark v)\<lparr>knownMessages := k\<rparr>) = ckernel c" for v k
    using kernel_markPeer [of "envLib E" "ID v" "keccakHash (envLib E) d" c] by (simp add: ckernel_def)
  from assms obtain res where res: "decodeMsg (envLib E) c d = Some res"
    by (auto simp: onP2PMsg_def elim!: bind_SomeE)
  show thesis
  proof (cases res)
    case (Inl e)
    with assms res have "c' = c" by (simp add: onP2PMsg_def)
    then show thesis by (simp add: same)
  next
    case (Inr mv)
    obtain m v where mv: "mv = (m, v)" by fastforce
    let ?hash = "keccakHash (envLib E) d" and ?k = "knownMessages (?mark v)"
    show thesis
    proof (cases "arcHitHash (envLib E) inmemoryMessages ?k ?hash")
      case True
      with assms res Inr mv have "c' = (?mark v)\<lparr>knownMessages := CGet ?hash # ?k\<rparr>"
        by (simp add: onP2PMsg_def Let_def)
      then show thesis by (simp add: same known)
    next
      case False
      with assms res Inr mv obtain e c2 where
        "handleMsg E m v ((?mark v)\<lparr>knownMessages := CAdd ?hash # CGet ?hash # ?k\<rparr>) = Some (e, c2)"
        "(if e = None then do { (_, c3) \<leftarrow> GossipPayload E d c2; ret c3 } else ret c2) = Some c'"
        by (auto simp: onP2PMsg_def Let_def elim!: bind_SomeE)
      moreover have "decodeMessage (envLib E) d = Some m" using res Inr mv by (simp add: decodeMsg_Inr)
      ultimately show thesis
        by - (rule handled [OF known], assumption,
            auto elim!: bind_SomeE split: if_splits dest: kernel_GossipPayload)
    qed
  qed
qed

lemma onMsg_cases:
  assumes "onLocalMsg E p c = Some c' \<or> onBacklog E b c = Some c'"
  obtains (same) "c' = c" | (handled) m v e where "handleMsg E m v c = Some (e, c')"
  using assms by (auto simp: onLocalMsg_def onBacklog_def elim!: bind_SomeE split: sum.splits)

lemma onRequest_cases:
  assumes "onRequest E r c = Some c'"
  obtains e c1 where "HandleRequest E r c = Some (e, c1)" "ckernel c' = ckernel c1"
  using assms
  by (auto simp: onRequest_def elim!: bind_SomeE split: if_splits dest!: kernel_StoreRequestMsg)

lemma loop_inv:
  assumes "core_inv (envLib E) c"
  shows "onRequest E r c = Some c' \<Longrightarrow> good_step (envLib E) {} c c'"
    and "HandleFinalCommitted E c = Some c' \<Longrightarrow> good_step (envLib E) {} c c'"
    and "hash_ok (envLib E) \<Longrightarrow> onLocalMsg E p c = Some c' \<Longrightarrow>
           good_step (envLib E) {m. decodeMessage (envLib E) p = Some m} c c'"
    and "hash_ok (envLib E) \<Longrightarrow> onBacklog E b c = Some c' \<Longrightarrow> good_step (envLib E) {snd b} c c'"
    and "hash_ok (envLib E) \<Longrightarrow> onP2PMsg E d c = Some c' \<Longrightarrow>
           good_step (envLib E) {m. decodeMessage (envLib E) d = Some m} c c'"
proof -
  show "onRequest E r c = Some c' \<Longrightarrow> good_step (envLib E) {} c c'"
    using assms by (auto elim!: onRequest_cases dest!: HandleRequest_inv intro: good_stepI good_step_right)
  show "HandleFinalCommitted E c = Some c' \<Longrightarrow> good_step (envLib E) {} c c'"
    using assms
    by (auto simp: HandleFinalCommitted_def intro!: good_stepI dest: StartNewRound_inv StartNewRound_committed)
  assume ok: "hash_ok (envLib E)"
  show "good_step (envLib E) {m. decodeMessage (envLib E) p = Some m} c c'" if "onLocalMsg E p c = Some c'"
    using that handleMsg_inv [OF _ assms ok] good_step_refl [OF assms]
    by (auto simp: onLocalMsg_def elim!: bind_SomeE split: sum.splits
        dest!: decodeMsg_Inr intro: good_step_mono)
  show "good_step (envLib E) {snd b} c c'" if "onBacklog E b c = Some c'"
    using that handleMsg_inv [OF _ assms ok] by (auto simp: onBacklog_def elim!: bind_SomeE)
  show "good_step (envLib E) {m. decodeMessage (envLib E) d = Some m} c c'" if "onP2PMsg E d c = Some c'"
    using that
  proof (rule onP2PMsg_cases)
    fix m v c1 e c2
    assume 1: "ckernel c1 = ckernel c" and "handleMsg E m v c1 = Some (e, c2)" "ckernel c' = ckernel c2"
      and m: "decodeMessage (envLib E) d = Some m"
    then have "good_step (envLib E) {m} c1 c2"
      using ok assms core_inv_ckernel [OF 1] by (auto intro: handleMsg_inv)
    with 1 \<open>ckernel c' = ckernel c2\<close> have "good_step (envLib E) {m} c c'"
      by (metis good_step_left good_step_right)
    then show ?thesis using m by (auto intro: good_step_mono)
  qed (simp add: assms good_step_refl)
qed

end
