(* ===== verification/Pbft_Progress.thy ===== *)
theory Pbft_Progress
  imports Pbft_CoreInv "HOL-Library.Product_Lexorder"
begin

text \<open>
  The view of a running core never goes back, and a view in which a proposal has been handed to
  \<open>backend.Commit\<close> is left only for a later one. Views are ordered by sequence and then by round, as
  \<open>View.Cmp\<close> orders them. A round change can reopen the round the core is waiting for; it can
  never reopen the round in which it has committed.
\<close>

section \<open>Positions\<close>

definition pos :: "roundState \<Rightarrow> int \<times> int" where
  "pos rs = (big_of_u64 (rsSequence rs), rsRound rs)"

definition settled :: "core \<Rightarrow> bool" where
  "settled c \<longleftrightarrow> state c = StateCommitted \<and> \<not> waitingForRoundChange c"

definition small_seq :: "roundState \<Rightarrow> bool" where
  "small_seq rs \<longleftrightarrow> unat (rsSequence rs) < 2 ^ 63"

text \<open>A core is engaged once it has accepted a pre-prepare in its view and until it asks for another.\<close>

definition engaged :: "core \<Rightarrow> bool" where
  "engaged c \<longleftrightarrow> state c \<noteq> StateAcceptRequest \<and> \<not> waitingForRoundChange c"

text \<open>From \<open>c\<close> to \<open>c'\<close> the view does not go back; in the same view a settled core is not back at
  work, and an engaged core stays engaged with the same pre-prepare.\<close>

definition forward :: "core \<Rightarrow> core \<Rightarrow> bool" where
  "forward c c' \<longleftrightarrow> (\<exists>rs rs'. currentRoundState c = Some rs \<and> currentRoundState c' = Some rs' \<and>
     small_seq rs' \<and> (pos rs < pos rs' \<or> pos rs = pos rs' \<and> (settled c \<longrightarrow> settled c') \<and>
       (engaged c \<longrightarrow> engaged c' \<and> rsPrePrepare rs' = rsPrePrepare rs)))"

lemma forward_refl: "currentRoundState c = Some rs \<Longrightarrow> small_seq rs \<Longrightarrow> forward c c"
  by (simp add: forward_def)

lemma forward_trans [trans]: "forward c c1 \<Longrightarrow> forward c1 c2 \<Longrightarrow> forward c c2"
  by (fastforce simp: forward_def)

lemma forward_ckernel:
  "ckernel c1 = ckernel c2 \<Longrightarrow> forward c1 c \<longleftrightarrow> forward c2 c"
  "ckernel c1 = ckernel c2 \<Longrightarrow> forward c c1 \<longleftrightarrow> forward c c2"
  by (simp_all add: forward_def settled_def engaged_def ckernel_eq_iff)

text \<open>The backend's heights fit in an \<open>int64\<close> with room for the next one.\<close>

definition small_heights :: "env \<Rightarrow> bool" where
  "small_heights E \<longleftrightarrow> (case fst (beLastProposal (envBackend E)) of
     None \<Rightarrow> True | Some lp \<Rightarrow> unat (Height lp) < 2 ^ 63 - 1)"

lemma next_sequence:
  fixes h s :: u64
  assumes "unat h < 2 ^ 63 - 1"
  shows "big_Uint64 (big_of_u64 h + 1) = h + 1" "unat (h + 1) < 2 ^ 63"
    "s \<le> h \<Longrightarrow> big_of_u64 s < big_of_u64 (h + 1)"
proof -
  have h: "big_of_u64 h = int (unat h)" using assms by (simp add: big_of_u64_small)
  then show "big_Uint64 (big_of_u64 h + 1) = h + 1"
    by (simp add: big_Uint64_def)
  have suc: "unat (h + 1) = unat h + 1" using assms by (simp add: unat_word_ariths)
  with assms show small: "unat (h + 1) < 2 ^ 63" by simp
  assume "s \<le> h"
  then have "unat s \<le> unat h" by (simp add: word_le_nat_alt)
  then show "big_of_u64 s < big_of_u64 (h + 1)"
    using assms suc big_of_u64_small [of s] big_of_u64_small [of "h + 1"]
    by (simp del: of_nat_unat)
qed

lemma previous_sequence: "unat (s - 1 :: u64) < 2 ^ 63 - 1 \<Longrightarrow> unat s < 2 ^ 63"
  using next_sequence(2) [of "s - 1"] by simp

section \<open>Round changes\<close>

lemma enterRound_pos:
  assumes "enterRound E (mkView s r) vs lp change c = Some c'"
  obtains rs' where "currentRoundState c' = Some rs'" "rsSequence rs' = big_Uint64 s" "rsRound rs' = r"
    "\<not> waitingForRoundChange c'"
  using enterRound_ckernel [OF assms] by (auto simp: ckernel_def)

lemma newRoundKind_change:
  assumes "newRoundKind rnd lp c = Some (True, c0)"
  obtains rs p where "c0 = c" "currentRoundState c = Some rs" "rnd \<noteq> 0" "rsRound rs \<le> rnd"
    "lp = Some p" "Height p = rsSequence rs - 1"
  using assms
  by (auto simp: newRoundKind_def RoundOf_def SequenceOf_def big_Cmp_def split: option.splits if_splits)

lemma newRoundKind_catchup:
  assumes "newRoundKind rnd lp c = Some (False, c0)" "currentRoundState c = Some rs"
  obtains p where "lp = Some p" "rsSequence rs \<le> Height p" "ckernel c0 = ckernel c"
  using assms newRoundKind_same [OF assms(1)]
  by (auto simp: newRoundKind_def SequenceOf_def split: option.splits if_splits)

lemma StartNewRound_forward:
  assumes "StartNewRound E rnd c = Some c'" "currentRoundState c = Some rs" "small_heights E" "small_seq rs"
    "rnd = 0 \<or> rsRound rs < rnd \<or> waitingForRoundChange c"
  shows "forward c c'"
proof (cases "newRoundKind rnd (fst (beLastProposal (envBackend E))) c")
  case None
  with assms show ?thesis by (auto simp: StartNewRound_def case_prod_unfold forward_def)
next
  case (Some kc)
  obtain change c0 where kc: "kc = (change, c0)" by fastforce
  show ?thesis
  proof (cases change)
    case True
    with Some kc assms(2) have c0: "c0 = c" "rnd \<noteq> 0" "rsRound rs \<le> rnd"
      by (auto elim: newRoundKind_change)
    have seq: "big_Uint64 (big_of_u64 (rsSequence rs)) = rsSequence rs"
      using assms(4) by (simp add: big_Uint64_of_u64 small_seq_def)
    from c0 assms(1,2) Some kc True obtain vs where
      "enterRound E (mkView (big_of_u64 (rsSequence rs)) rnd) vs (snd (beLastProposal (envBackend E)))
         True c = Some c'"
      by (auto simp: StartNewRound_def case_prod_unfold SequenceOf_def elim!: bind_SomeE)
    then show ?thesis
      by (rule enterRound_pos)
        (use assms(2,4,5) c0 seq in \<open>auto simp: forward_def pos_def settled_def engaged_def small_seq_def\<close>)
  next
    case False
    with Some kc assms(2) obtain p :: Proposal where p: "fst (beLastProposal (envBackend E)) = Some p"
        "rsSequence rs \<le> Height p"
      by (auto elim: newRoundKind_catchup)
    with False Some kc assms(1) obtain vs where
      "enterRound E (mkView (big_of_u64 (Height p) + 1) 0) vs (snd (beLastProposal (envBackend E)))
         False (c0\<lparr>valSet := Some vs\<rparr>) = Some c'"
      by (auto simp: StartNewRound_def case_prod_unfold Let_def elim!: bind_SomeE)
    then show ?thesis
    proof (rule enterRound_pos)
      fix rs'
      assume rs': "currentRoundState c' = Some rs'"
        "rsSequence rs' = big_Uint64 (big_of_u64 (Height p) + 1)" "rsRound rs' = 0"
      have h: "unat (Height p) < 2 ^ 63 - 1" using p(1) assms(3) by (simp add: small_heights_def)
      then show ?thesis
        using rs' assms(2) next_sequence [OF h] p(2)
        by (simp add: forward_def pos_def small_seq_def)
    qed
  qed
qed

lemma sendRoundChange_forward:
  assumes "sendRoundChange E r c = Some c'" "currentRoundState c = Some rs" "small_seq rs"
  shows "forward c c' \<and> (rsRound rs < r \<longrightarrow> (\<exists>rs'. currentRoundState c' = Some rs' \<and> pos rs < pos rs'))"
proof (cases "rsRound rs < r")
  case True
  with assms obtain c1 cv1 where
    c1: "catchUpRound E (mkView (big_of_u64 (rsSequence rs)) r) c = Some c1"
    and send: "(case encodeSubject (envLib E) \<lparr>sbView = Some cv1, Digest = emptyHash\<rparr> of
        None \<Rightarrow> ret c1 | Some body \<Rightarrow> Broadcast E (newMsg MsgRoundChange body) c1) = Some c'"
    by (auto simp: sendRoundChange_def currentView_eq elim!: bind_SomeE)
  from send have "ckernel c' = ckernel c1" by (auto split: option.splits dest: kernel_Broadcast)
  with c1 obtain rs' where "currentRoundState c' = Some rs'" "rsSequence rs' = rsSequence rs"
      "rsRound rs' = r"
    using assms(3)
    by (elim catchUpRound_ckernel) (auto simp: ckernel_def big_Uint64_of_u64 small_seq_def)
  then show ?thesis using True assms(2,3) by (auto simp: forward_def pos_def small_seq_def)
next
  case False
  with assms show ?thesis by (auto simp: sendRoundChange_def currentView_eq forward_def)
qed

lemma sendNextRoundChange_forward:
  assumes "sendNextRoundChange E c = Some c'" "currentRoundState c = Some rs" "small_seq rs"
  shows "forward c c' \<and> (\<exists>rs'. currentRoundState c' = Some rs' \<and> pos rs < pos rs')"
  using assms sendRoundChange_forward [of E "rsRound rs + 1" c c' rs]
  by (auto simp: sendNextRoundChange_def currentView_eq elim!: bind_SomeE)


section \<open>Handlers\<close>

lemma forward_same:
  assumes "currentRoundState c = Some rs" "currentRoundState c' = Some rs'" "small_seq rs"
    "rsSequence rs' = rsSequence rs" "rsRound rs' = rsRound rs" "settled c \<Longrightarrow> settled c'"
    "engaged c \<Longrightarrow> engaged c' \<and> rsPrePrepare rs' = rsPrePrepare rs"
  shows "forward c c'"
  using assms by (simp add: forward_def pos_def small_seq_def)

lemma small_seq_frame [simp]:
  "small_seq (rs\<lparr>lockedHash := h\<rparr>) = small_seq rs" "small_seq (rs\<lparr>pendingRequest := q\<rparr>) = small_seq rs"
  "pos (rs\<lparr>lockedHash := h\<rparr>) = pos rs" "pos (rs\<lparr>pendingRequest := q\<rparr>) = pos rs"
  by (simp_all add: small_seq_def pos_def)

lemma acceptProposal_forward:
  assumes "acceptProposal E pp p c = Some c'" "currentRoundState c = Some rs" "small_seq rs"
    "state c = StateAcceptRequest"
  shows "forward c c'"
proof -
  have "sendNextRoundChange E c = Some c' \<or>
      (\<exists>s c1. ckernel c' = ckernel c1 \<and>
         ckernel c1 = ckernel (c\<lparr>currentRoundState := Some (rs\<lparr>rsPrePrepare := Some pp\<rparr>), state := s\<rparr>))"
    using assms(1,2)
    by (auto simp: acceptProposal_def acceptPrePrepare_def SetPrePrepare_def ckernel_eq_iff
        elim!: bind_SomeE split: if_splits
        dest!: kernel_SendCommit kernel_SendPrepare kernel_setState)
  then show ?thesis
    using assms(2-4) sendNextRoundChange_forward [of E c c' rs]
      forward_same [of c rs c' "rs\<lparr>rsPrePrepare := Some pp\<rparr>"]
    by (auto simp: ckernel_eq_iff settled_def engaged_def)
qed

lemma HandlePrePrepare_forward:
  assumes "HandlePrePrepare E msg val c = Some (e, c')" "currentRoundState c = Some rs" "small_seq rs"
  shows "forward c c'"
proof -
  have stay: "forward c c'" if "ckernel c' = ckernel c"
    using that forward_ckernel(2) [OF that] forward_refl assms(2,3) by blast
  from assms(1) show ?thesis
  proof (cases rule: HandlePrePrepare_cases)
    case (accepted pp p view)
    then show ?thesis using assms(2,3) by (auto intro: acceptProposal_forward)
  next
    case (old pp p view)
    then show ?thesis by (intro stay oldPrePrepare_ckernel)
  qed (rule stay, simp)
qed

lemma lockHash_frame:
  assumes "lockHash c = Some c'" "currentRoundState c = Some rs"
  obtains h where "c' = c\<lparr>currentRoundState := Some (rs\<lparr>lockedHash := h\<rparr>)\<rparr>"
proof -
  from assms obtain rs' where "LockHash rs = Some rs'" and c': "c' = c\<lparr>currentRoundState := Some rs'\<rparr>"
    by (auto simp: lockHash_def elim!: bind_SomeE)
  then obtain h where "rs' = rs\<lparr>lockedHash := h\<rparr>"
    by (cases "rsPrePrepare rs")
      (auto simp: LockHash_def elim!: bind_SomeE intro: that [of "lockedHash rs"])
  with c' show thesis by (simp add: that)
qed

lemma HandlePrepare_forward:
  assumes "HandlePrepare E msg val c = Some (e, c')" "currentRoundState c = Some rs" "small_seq rs"
  shows "forward c c'"
proof -
  let ?rs1 = "rs\<lparr>Prepares := snd (ms_Add (Prepares rs) msg)\<rparr>"
  let ?c1 = "c\<lparr>currentRoundState := Some ?rs1\<rparr>"
  consider "c' = c" | "c' = ?c1"
    | c2 c3 where "state c < StatePrepared" "lockHash ?c1 = Some c2"
        "setState (envLib E) StatePrepared c2 = Some c3" "SendCommit E c3 = Some c'"
    using assms(1,2) by (cases rule: HandlePrepare_cases) blast+
  then show ?thesis
  proof cases
    case 1
    then show ?thesis using assms(2,3) by (auto intro: forward_refl)
  next
    case 2
    then show ?thesis
      using assms(2,3) by (intro forward_same [of c rs c' ?rs1]) (auto simp: settled_def engaged_def)
  next
    case (3 c2 c3)
    then have "\<not> settled c" by (auto simp: settled_def)
    moreover from 3(2) obtain h where "c2 = ?c1\<lparr>currentRoundState := Some (?rs1\<lparr>lockedHash := h\<rparr>)\<rparr>"
      by (auto elim: lockHash_frame)
    moreover have "currentRoundState c' = currentRoundState c2" "state c' = StatePrepared"
      "waitingForRoundChange c' = waitingForRoundChange c2"
      using kernel_setState [OF 3(3)] kernel_SendCommit [OF 3(4)] by (simp_all add: ckernel_eq_iff)
    ultimately show ?thesis
      using assms(2,3)
      by (intro forward_same [of c rs c' "?rs1\<lparr>lockedHash := h\<rparr>"]) (auto simp: engaged_def)
  qed
qed

text \<open>The core as \<open>commitProposal\<close> leaves it before it calls the backend.\<close>

definition sealed :: "core \<Rightarrow> core" where
  "sealed c = c\<lparr>state := StateCommitted, waitingForRoundChange := False\<rparr>"

definition advance :: "core \<Rightarrow> core \<Rightarrow> bool" where
  "advance c c' \<longleftrightarrow> forward c c' \<and> (committed c' = committed c \<or> forward (sealed c) c')"

lemma advanceI: "forward c c' \<Longrightarrow> committed c' = committed c \<Longrightarrow> advance c c'"
  by (simp add: advance_def)

lemma forward_sealed: "forward (sealed c) c' \<Longrightarrow> forward c c'"
  by (auto simp: forward_def sealed_def settled_def engaged_def)

lemma HandleCommit_advance:
  assumes "HandleCommit E msg val c = Some (e, c')" "core_inv (envLib E) c" "Code msg = MsgCommit"
    "currentRoundState c = Some rs" "small_seq rs"
  shows "advance c c'"
proof -
  let ?rs1 = "rs\<lparr>Commits := snd (ms_Add (Commits rs) msg)\<rparr>"
  let ?c1 = "c\<lparr>currentRoundState := Some ?rs1\<rparr>"
  consider "c' = c" | "c' = ?c1"
    | sub c2 where "checkMessage c MsgCommit (sbView sub) = Some None"
        "verifySubject sub c = Some None" "lockHash ?c1 = Some c2" "commitProposal E c2 = Some c'"
    using assms(1,4) by (cases rule: HandleCommit_cases) blast+
  then show ?thesis
  proof cases
    case (3 sub c2)
    from 3(2) assms(4) obtain p where p: "ProposalOf rs = Some p"
      by (auto simp: verifySubject_def SubjectOf_def ProposalOf_def elim!: bind_SomeE
          split: option.splits if_splits)
    from 3(3) obtain h where c2: "c2 = ?c1\<lparr>currentRoundState := Some (?rs1\<lparr>lockedHash := h\<rparr>)\<rparr>"
      by (auto elim: lockHash_frame)
    let ?rs2 = "?rs1\<lparr>lockedHash := h\<rparr>"
    have waiting: "\<not> waitingForRoundChange c" using 3(1) by (auto elim: checkMessage_None [OF _ assms(4)])
    have rs2: "currentRoundState c2 = Some ?rs2" "ProposalOf ?rs2 = Some p" "small_seq ?rs2"
      "pos ?rs2 = pos rs"
      using p c2 assms(5) by (simp_all add: ProposalOf_def small_seq_def pos_def)
    from 3(4) rs2(1,2) show ?thesis
    proof (rule commitProposal_cases)
      fix c1 :: core
      let ?c3 = "c1\<lparr>committed := committed c1 @ [(mkView (big_of_u64 (rsSequence ?rs2)) (rsRound ?rs2), p,
          map CommittedSeal (ms_Values (Commits ?rs2)))]\<rparr>"
      assume set: "setState (envLib E) StateCommitted c2 = Some c1" and c1: "currentRoundState c1 = Some ?rs2"
        and "let v = mkView (big_of_u64 (rsSequence ?rs2)) (rsRound ?rs2);
               c2 = c1\<lparr>committed := committed c1 @ [(v, p, map CommittedSeal (ms_Values (Commits ?rs2)))]\<rparr>
             in c' = c2 \<or> sendNextRoundChange E (c2\<lparr>currentRoundState := Some (UnlockHash ?rs2)\<rparr>) = Some c'"
      then have fin: "c' = ?c3 \<or>
          sendNextRoundChange E (?c3\<lparr>currentRoundState := Some (UnlockHash ?rs2)\<rparr>) = Some c'"
        by (simp add: Let_def)
      have "settled c1"
        using kernel_setState [OF set] c2 waiting by (simp add: settled_def ckernel_eq_iff)
      then have "forward (sealed c) ?c3"
        using c1 rs2(3,4) assms(4) by (auto simp: forward_def sealed_def settled_def engaged_def)
      moreover have "forward (sealed c) c'"
        if "sendNextRoundChange E (?c3\<lparr>currentRoundState := Some (UnlockHash ?rs2)\<rparr>) = Some c'"
        using sendNextRoundChange_forward [OF that, of "UnlockHash ?rs2"] rs2(3,4) assms(4)
        by (auto simp: forward_def sealed_def UnlockHash_def)
      ultimately have "forward (sealed c) c'" using fin by blast
      then show ?thesis by (simp add: advance_def forward_sealed)
    qed
  next
    case 1
    then show ?thesis using assms(4,5) by (auto intro: forward_refl advanceI)
  next
    case 2
    then show ?thesis
      using assms(4,5)
      by (intro advanceI forward_same [of c rs c' ?rs1]) (auto simp: settled_def engaged_def)
  qed
qed


lemma countedRoundChange_forward:
  assumes "countedRoundChange E (rsRound rs) r num c = Some (e, c')" "currentRoundState c = Some rs"
    "small_seq rs" "small_heights E"
  shows "forward c c'"
  using assms forward_refl [of c rs]
  by (auto simp: countedRoundChange_def elim!: bind_SomeE split: if_splits
      dest: sendRoundChange_forward intro: StartNewRound_forward)

lemma HandleRoundChange_forward:
  assumes "HandleRoundChange E msg val c = Some (e, c')" "currentRoundState c = Some rs" "small_seq rs"
    "small_heights E" "rcSet c = Some rcs"
  shows "forward c c'"
proof -
  have rc: "forward c (c\<lparr>rcSet := x\<rparr>)" for x
    using assms(2,3) by (intro forward_same [of c rs _ rs]) (auto simp: settled_def engaged_def)
  from assms(1,2,5) show ?thesis
  proof (cases rule: HandleRoundChange_cases)
    case (counted r num)
    then have "forward (c\<lparr>rcSet := Some (snd (rcs_Add rcs r msg))\<rparr>) c'"
      using assms(2-4) by (intro countedRoundChange_forward [OF counted]) simp_all
    then show ?thesis using rc forward_trans by blast
  qed (use assms(2,3) rc forward_refl in auto)
qed

lemma HandleRequest_forward:
  assumes "HandleRequest E r c = Some (e, c')" "currentRoundState c = Some rs" "small_seq rs"
  shows "forward c c'"
proof -
  let ?rs1 = "rs\<lparr>pendingRequest := Some r\<rparr>"
  have "ckernel c' = ckernel c \<or> ckernel c' = ckernel (c\<lparr>currentRoundState := Some ?rs1\<rparr>)"
    using assms(1,2) by (cases rule: HandleRequest_cases) (auto dest: kernel_SendPrePrepare)
  moreover have "forward c (c\<lparr>currentRoundState := Some ?rs1\<rparr>)"
    using assms(2,3) by (intro forward_same [of c rs _ ?rs1]) (auto simp: settled_def engaged_def)
  ultimately show ?thesis
    using forward_ckernel(2) forward_refl [OF assms(2,3)] by blast
qed

lemma handleTimeoutMsg_forward:
  assumes "handleTimeoutMsg E c = Some c'" "currentRoundState c = Some rs" "small_seq rs" "small_heights E"
  shows "forward c c'"
proof -
  let ?rs1 = "rs\<lparr>lockedHash := emptyHash, pendingRequest := None\<rparr>"
  let ?c1 = "c\<lparr>currentRoundState := Some ?rs1\<rparr>"
  have "forward ?c1 c'"
    using handleTimeoutMsg_changes [OF assms(1,2)] assms(3,4) by (auto dest: sendRoundChange_forward sendNextRoundChange_forward StartNewRound_forward)
  moreover have "forward c ?c1"
    using assms(2,3) by (intro forward_same [of c rs _ ?rs1]) (auto simp: settled_def engaged_def)
  ultimately show ?thesis by (rule forward_trans [rotated])
qed

section \<open>The event loop\<close>

lemma advance_ckernel:
  "ckernel c1 = ckernel c2 \<Longrightarrow> advance c c1 \<longleftrightarrow> advance c c2"
  "ckernel c1 = ckernel c2 \<Longrightarrow> advance c1 c \<longleftrightarrow> advance c2 c"
  by (simp_all add: advance_def forward_def sealed_def settled_def engaged_def ckernel_eq_iff)

lemma handleMsg_advance:
  assumes "handleMsg E msg val c = Some (e, c')" "core_inv (envLib E) c" "hash_ok (envLib E)"
    "currentRoundState c = Some rs" "small_seq rs" "small_heights E"
  shows "advance c c'"
proof -
  obtain rcs where "rcSet c = Some rcs" using assms(2) by (auto elim: core_invE)
  from assms(1) show ?thesis
  proof (cases rule: handleMsg_cases)
    case (handled c1)
    then have "advance c c1"
      using \<open>rcSet c = Some rcs\<close> assms HandlePrePrepare_inv HandlePrepare_inv HandleRoundChange_inv HandlePrePrepare_forward
        HandlePrepare_forward HandleRoundChange_forward HandleCommit_advance
      by (elim disjE conjE) (auto intro!: advanceI)
    then show ?thesis using advance_ckernel(1) [OF handled_ckernel [OF handled(2)]] by simp
  qed (use assms(4,5) in \<open>auto intro: forward_refl advanceI\<close>)
qed


lemma loop_advance:
  assumes "core_inv (envLib E) c" "currentRoundState c = Some rs" "small_seq rs" "small_heights E"
    "hash_ok (envLib E)"
  shows "onRequest E r c = Some c' \<Longrightarrow> advance c c'"
    and "HandleFinalCommitted E c = Some c' \<Longrightarrow> advance c c'"
    and "handleTimeoutMsg E c = Some c' \<Longrightarrow> advance c c'"
    and "onLocalMsg E p c = Some c' \<or> onBacklog E b c = Some c' \<Longrightarrow> advance c c'"
    and "onP2PMsg E d c = Some c' \<Longrightarrow> advance c c'"
proof -
  show "advance c c'" if "onRequest E r c = Some c'"
    using that
  proof (rule onRequest_cases)
    fix e c1
    assume h: "HandleRequest E r c = Some (e, c1)" and same: "ckernel c' = ckernel c1"
    have "advance c c1"
      using HandleRequest_inv [OF h assms(1)] HandleRequest_forward [OF h assms(2,3)] by (simp add: advanceI)
    then show ?thesis using advance_ckernel(1) [OF same] by simp
  qed
  show "advance c c'" if "HandleFinalCommitted E c = Some c'"
    using that assms
    by (intro advanceI) (auto simp: HandleFinalCommitted_def intro: StartNewRound_forward
        dest: StartNewRound_committed)
  show "advance c c'" if t: "handleTimeoutMsg E c = Some c'"
    using handleTimeoutMsg_inv [OF t assms(1)] handleTimeoutMsg_forward [OF t assms(2-4)]
    by (simp add: advanceI)
  show "advance c c'" if "onLocalMsg E p c = Some c' \<or> onBacklog E b c = Some c'"
    using that
    by (rule onMsg_cases) (use assms in \<open>auto intro: handleMsg_advance advanceI forward_refl\<close>)
  show "advance c c'" if "onP2PMsg E d c = Some c'"
    using that
  proof (rule onP2PMsg_cases)
    fix m v c1 e c2
    assume 1: "ckernel c1 = ckernel c" and "handleMsg E m v c1 = Some (e, c2)" and 2: "ckernel c' = ckernel c2"
    then have "advance c1 c2"
      using assms core_inv_ckernel [OF 1] ckernelD [OF 1] by (auto intro: handleMsg_advance)
    then show ?thesis using advance_ckernel(1) [OF 2] advance_ckernel(2) [OF 1] by simp
  next
    assume same: "ckernel c' = ckernel c"
    then show ?thesis
      using advance_ckernel(1) [OF same] advanceI [OF forward_refl [OF assms(2,3)]] by simp
  qed
qed

end
