(* ===== verification/Pbft_Loop.thy ===== *)
theory Pbft_Loop
  imports Pbft_Progress
begin

text \<open>
  The running engine as a transition system. A step is one case of the \<open>select\<close> of
  \<open>core.handleLoop\<close> (src/core/pbft.go), the expiry of the round-change timer, or a call of the
  engine's interface from another goroutine. Sends are made by goroutines of their own, so a value may be
  received in any order; the p2p layer may deliver any bytes at any time. The environment
  (backend, broadcaster, clock) may differ from step to step.
\<close>

section \<open>Transition systems\<close>

locale invariant_system =
  fixes init :: "'s \<Rightarrow> bool"
    and step :: "'s \<Rightarrow> 's \<Rightarrow> bool"
    and inv :: "'s \<Rightarrow> bool"
  assumes init_inv: "init s \<Longrightarrow> inv s"
    and step_inv: "inv s \<Longrightarrow> step s s' \<Longrightarrow> inv s'"
begin

lemma steps_inv: "step\<^sup>*\<^sup>* s s' \<Longrightarrow> inv s \<Longrightarrow> inv s'"
  by (induction rule: rtranclp_induct) (blast intro: step_inv)+

lemma reachable_inv: "init s \<Longrightarrow> step\<^sup>*\<^sup>* s s' \<Longrightarrow> inv s'"
  by (blast intro: steps_inv init_inv)

end

text \<open>A system that appends to a log; every entry is justified by the state it is appended in.\<close>

locale logged_system = invariant_system init step inv
  for init :: "'s \<Rightarrow> bool" and step and inv +
  fixes log :: "'s \<Rightarrow> 'e list"
    and justified :: "'s \<Rightarrow> 'e \<Rightarrow> bool"
  assumes init_log: "init s \<Longrightarrow> log s = []"
    and step_log: "inv s \<Longrightarrow> step s s' \<Longrightarrow>
          log s' = log s \<or> (\<exists>e. log s' = log s @ [e] \<and> justified s e)"
begin

lemma log_justified:
  assumes "init s" "step\<^sup>*\<^sup>* s s'" "e \<in> set (log s')"
  shows "\<exists>t t'. step\<^sup>*\<^sup>* s t \<and> step t t' \<and> step\<^sup>*\<^sup>* t' s' \<and> log t' = log t @ [e] \<and> justified t e"
  using assms(2,3)
proof (induction rule: rtranclp_induct)
  case base
  then show ?case using assms(1) init_log by simp
next
  case (step t t')
  have "inv t" using assms(1) step.hyps(1) by (rule reachable_inv)
  from step_log [OF this step.hyps(2)] consider "e \<in> set (log t)" | "log t' = log t @ [e]" "justified t e"
    using step.prems by auto
  then show ?case
  proof cases
    case 1
    then show ?thesis using step.IH step.hyps(2) by (meson rtranclp.rtrancl_into_rtrancl)
  next
    case 2
    then show ?thesis using step.hyps by blast
  qed
qed

end

text \<open>A log whose entries carry the rank of the state they were appended in. If the rank never
  falls, and an entry closes its rank for good, then the ranks in the log are strictly increasing.\<close>

locale ranked_log = logged_system init step inv log justified
  for init :: "'s \<Rightarrow> bool" and step and inv and log :: "'s \<Rightarrow> 'e list" and justified +
  fixes rank :: "'s \<Rightarrow> 'r :: linorder"
    and mark :: "'e \<Rightarrow> 'r"
    and closed :: "'s \<Rightarrow> bool"
  assumes justified_mark: "justified s e \<Longrightarrow> mark e = rank s \<and> \<not> closed s"
    and step_rank: "inv s \<Longrightarrow> step s s' \<Longrightarrow>
          rank s < rank s' \<or> rank s = rank s' \<and> (closed s \<or> log s' \<noteq> log s \<longrightarrow> closed s')"
begin

definition log_inv :: "'s \<Rightarrow> bool" where
  "log_inv s \<longleftrightarrow> sorted_wrt (<) (map mark (log s)) \<and>
     (\<forall>e \<in> set (log s). mark e < rank s \<or> mark e = rank s \<and> closed s)"

lemma log_inv_step:
  assumes "inv s" "step s s'" "log_inv s"
  shows "log_inv s'"
proof -
  have grow: "rank s \<le> rank s'" using step_rank [OF assms(1,2)] by auto
  from step_log [OF assms(1,2)] show ?thesis
  proof (elim disjE exE conjE)
    assume "log s' = log s"
    with assms(3) step_rank [OF assms(1,2)] show ?thesis by (auto simp: log_inv_def)
  next
    fix e
    assume e: "log s' = log s @ [e]" "justified s e"
    then have mark: "mark e = rank s" "\<not> closed s" using justified_mark by auto
    with assms(3) have "\<forall>e' \<in> set (log s). mark e' < mark e" by (auto simp: log_inv_def)
    moreover have "rank s < rank s' \<or> rank s = rank s' \<and> closed s'"
      using step_rank [OF assms(1,2)] e(1) by auto
    ultimately show ?thesis
      using assms(3) e(1) mark(1) grow by (auto simp: log_inv_def sorted_wrt_append)
  qed
qed

lemma marks_increase:
  assumes "init s" "step\<^sup>*\<^sup>* s s'"
  shows "sorted_wrt (<) (map mark (log s'))"
proof -
  from assms(2) have "log_inv s'"
  proof (induction rule: rtranclp_induct)
    case base
    show ?case using init_log [OF assms(1)] by (simp add: log_inv_def)
  next
    case (step t t')
    then show ?case using reachable_inv [OF assms(1)] log_inv_step by blast
  qed
  then show ?thesis by (simp add: log_inv_def)
qed

lemma rank_grows:
  assumes "step\<^sup>*\<^sup>* s s'" "inv s"
  shows "rank s \<le> rank s'"
  using assms
proof (induction rule: rtranclp_induct)
  case (step t t')
  then have "inv t" by (blast intro: steps_inv)
  with step step_rank show ?case by fastforce
qed simp

end

section \<open>Steps of the engine\<close>

text \<open>\<open>core_step_on D Env\<close> is a step in which the p2p layer delivers only bytes that satisfy \<open>D\<close>.\<close>

inductive core_step_on :: "(bytes \<Rightarrow> bool) \<Rightarrow> (env \<Rightarrow> bool) \<Rightarrow> core \<Rightarrow> core \<Rightarrow> bool" for D Env where
  request: "Env E \<Longrightarrow> r \<in> set (requestCh c) \<Longrightarrow>
     onRequest E r (c\<lparr>requestCh := remove1 r (requestCh c)\<rparr>) = Some c' \<Longrightarrow> core_step_on D Env c c'"
| local_msg: "Env E \<Longrightarrow> p \<in> set (localMsgCh c) \<Longrightarrow>
     onLocalMsg E p (c\<lparr>localMsgCh := remove1 p (localMsgCh c)\<rparr>) = Some c' \<Longrightarrow> core_step_on D Env c c'"
| backlog: "Env E \<Longrightarrow> b \<in> set (backlogCh c) \<Longrightarrow>
     onBacklog E b (c\<lparr>backlogCh := remove1 b (backlogCh c)\<rparr>) = Some c' \<Longrightarrow> core_step_on D Env c c'"
| final: "Env E \<Longrightarrow> 0 < finalCommitCh c \<Longrightarrow>
     HandleFinalCommitted E (c\<lparr>finalCommitCh := finalCommitCh c - 1\<rparr>) = Some c' \<Longrightarrow> core_step_on D Env c c'"
| p2p: "Env E \<Longrightarrow> D data \<Longrightarrow> onP2PMsg E data c = Some c' \<Longrightarrow> core_step_on D Env c c'"
| timeout: "Env E \<Longrightarrow> 0 < timeoutCh c \<Longrightarrow>
     handleTimeoutMsg E (c\<lparr>timeoutCh := timeoutCh c - 1\<rparr>) = Some c' \<Longrightarrow> core_step_on D Env c c'"
| timer: "roundChangeTimer c = Some d \<Longrightarrow> core_step_on D Env c (sendTimeoutEvent (stopTimer c))"
| call_Request: "core_Request r c = Some (e, c') \<Longrightarrow> core_step_on D Env c c'"
| call_RequestTimeout: "core_step_on D Env c (RequestTimeout c)"
| call_FinalCommit: "core_step_on D Env c (FinalCommit c)"
| call_NewChainHead: "core_step_on D Env c (NewChainHead c)"
| call_Stop: "core_step_on D Env c (Stop c)"

abbreviation core_step :: "(env \<Rightarrow> bool) \<Rightarrow> core \<Rightarrow> core \<Rightarrow> bool" where
  "core_step \<equiv> core_step_on (\<lambda>_. True)"

lemma core_step_on_mono:
  assumes "core_step_on D Env c c'" "\<And>data. D data \<Longrightarrow> D' data" "\<And>E. Env E \<Longrightarrow> Env' E"
  shows "core_step_on D' Env' c c'"
  using assms(1) by (cases rule: core_step_on.cases) (auto intro: core_step_on.intros assms(2,3))

text \<open>The environments of a run: the third-party functions are the same throughout and recognise
  the nil hash, and heights stay below the limit of \<open>int64\<close>.\<close>

lemma kernel_channels [simp]:
  "ckernel (c\<lparr>requestCh := x1\<rparr>) = ckernel c" "ckernel (c\<lparr>localMsgCh := x2\<rparr>) = ckernel c"
  "ckernel (c\<lparr>backlogCh := x3\<rparr>) = ckernel c" "ckernel (c\<lparr>finalCommitCh := x4\<rparr>) = ckernel c"
  "ckernel (c\<lparr>timeoutCh := x4\<rparr>) = ckernel c" "ckernel (c\<lparr>knownMessages := x5\<rparr>) = ckernel c"
  "ckernel (sendTimeoutEvent c) = ckernel c" "ckernel (stopTimer c) = ckernel c"
  "ckernel (RequestTimeout c) = ckernel c" "ckernel (FinalCommit c) = ckernel c"
  "ckernel (NewChainHead c) = ckernel c" "ckernel (Stop c) = ckernel c"
  by (simp_all add: ckernel_def sendTimeoutEvent_def stopTimer_def RequestTimeout_def FinalCommit_def
      NewChainHead_def Stop_def)

lemma kernel_core_Request: "core_Request r c = Some (e, c') \<Longrightarrow> ckernel c' = ckernel c"
  by (auto simp: core_Request_def elim!: bind_SomeE split: if_splits)

text \<open>What a step does to the kernel of the core.\<close>

lemma core_step_kernel:
  assumes "core_step_on D Env c c'" "currentRoundState c = Some rs"
  obtains (same) "ckernel c' = ckernel c"
  | (request) r where "ckernel c' = ckernel (c\<lparr>currentRoundState := Some (rs\<lparr>pendingRequest := Some r\<rparr>)\<rparr>)"
  | (handled) E m v e c0 c1 where "Env E" "ckernel c0 = ckernel c" "handleMsg E m v c0 = Some (e, c1)"
      "ckernel c' = ckernel c1"
  | (final) E c0 where "Env E" "ckernel c0 = ckernel c" "StartNewRound E 0 c0 = Some c'"
  | (timeout) E c1 where "Env E"
      "ckernel c1 = ckernel (c\<lparr>currentRoundState := Some (rs\<lparr>lockedHash := emptyHash, pendingRequest := None\<rparr>)\<rparr>)"
      "(\<exists>m. sendRoundChange E m c1 = Some c') \<or> sendNextRoundChange E c1 = Some c' \<or> StartNewRound E 0 c1 = Some c'"
  using assms(1)
proof (cases rule: core_step_on.cases)
  case (request E r)
  let ?c0 = "c\<lparr>requestCh := remove1 r (requestCh c)\<rparr>"
  from request(3) obtain e c1 where h: "HandleRequest E r ?c0 = Some (e, c1)" "ckernel c' = ckernel c1"
    by (rule onRequest_cases)
  have "currentRoundState ?c0 = Some rs" using assms(2) by simp
  with h(1) show thesis
  proof (cases rule: HandleRequest_cases)
    case sent
    from kernel_SendPrePrepare [OF this] h(2) show thesis
      by (intro that(2) [of r]) (simp add: ckernel_eq_iff)
  qed (use h(2) that(1,2) in \<open>simp_all add: ckernel_eq_iff\<close>)
next
  case (local_msg E p)
  from disjI1 [OF local_msg(3)] show thesis
    by (rule onMsg_cases) (auto intro: that(1) that(3) [OF local_msg(1), of "c\<lparr>localMsgCh := remove1 p (localMsgCh c)\<rparr>"])
next
  case (backlog E b)
  from disjI2 [OF backlog(3)] show thesis
    by (rule onMsg_cases) (auto intro: that(1) that(3) [OF backlog(1), of "c\<lparr>backlogCh := remove1 b (backlogCh c)\<rparr>"])
next
  case (final E)
  show thesis by (rule that(4) [OF final(1) _ final(3) [unfolded HandleFinalCommitted_def]]) (simp add: ckernel_eq_iff)
next
  case (p2p E data)
  from p2p(3) show thesis by (rule onP2PMsg_cases) (use p2p(1) that(1,3) in auto)
next
  case (timeout E)
  let ?c1 = "c\<lparr>timeoutCh := timeoutCh c - 1,
      currentRoundState := Some (rs\<lparr>lockedHash := emptyHash, pendingRequest := None\<rparr>)\<rparr>"
  show thesis
    by (rule that(5) [OF timeout(1), of ?c1])
      (use handleTimeoutMsg_changes [OF timeout(3), of rs] assms(2) in \<open>auto simp: ckernel_eq_iff\<close>)
next
  case (call_Request r e)
  from that(1) kernel_core_Request [OF this] show thesis .
qed (use that(1) in simp)+

definition runs :: "lib \<Rightarrow> env \<Rightarrow> bool" where
  "runs L E \<longleftrightarrow> envLib E = L \<and> hash_ok L \<and> small_heights E"

definition started :: "lib \<Rightarrow> string \<Rightarrow> core \<Rightarrow> bool" where
  "started L x c \<longleftrightarrow> (\<exists>E. runs L E \<and> Start E (NewEngine x) = Some c)"

definition engine_inv :: "lib \<Rightarrow> string \<Rightarrow> core \<Rightarrow> bool" where
  "engine_inv L x c \<longleftrightarrow> core_inv L c \<and> peerId c = x \<and> (\<exists>rs. currentRoundState c = Some rs \<and> small_seq rs)"


section \<open>Every step keeps the invariant\<close>

lemma engine_inv_ckernel: "ckernel c' = ckernel c \<Longrightarrow> engine_inv L x c' = engine_inv L x c"
  using core_inv_ckernel [of c' c] by (simp add: engine_inv_def ckernel_eq_iff)

text \<open>The messages a step may handle: those in the channels, and those the p2p layer may deliver.\<close>

definition inbox :: "lib \<Rightarrow> (bytes \<Rightarrow> bool) \<Rightarrow> core \<Rightarrow> Message set" where
  "inbox L D c = {m. \<exists>p. (p \<in> set (localMsgCh c) \<or> D p) \<and> decodeMessage L p = Some m} \<union>
     snd ` set (backlogCh c)"

lemma core_step_good:
  assumes "core_step_on D (runs L) c c'" "engine_inv L x c"
  shows "good_step L (inbox L D c) c c' \<and> advance c c'"
proof -
  let ?M = "inbox L D c"
  obtain rs where c: "core_inv L c" "currentRoundState c = Some rs" "small_seq rs"
    using assms(2) by (auto simp: engine_inv_def)
  have run: "good_step L ?M c c' \<and> advance c c'"
    if same: "ckernel c0 = ckernel c" and E: "runs L E"
      and step: "\<And>rs. core_inv (envLib E) c0 \<Longrightarrow> currentRoundState c0 = Some rs \<Longrightarrow> small_seq rs \<Longrightarrow>
        small_heights E \<Longrightarrow> hash_ok (envLib E) \<Longrightarrow> good_step (envLib E) M c0 c' \<and> advance c0 c'"
      and M: "M \<subseteq> ?M" for c0 E M
  proof -
    have "envLib E = L" "small_heights E" "hash_ok (envLib E)" using E by (auto simp: runs_def)
    then have "good_step L M c0 c'" "advance c0 c'"
      using step [of rs] c core_inv_ckernel [OF same] ckernelD [OF same] by auto
    then show ?thesis
      using good_step_left [OF _ same [symmetric]] good_step_mono [OF _ M] advance_ckernel(2) [OF same]
      by blast
  qed
  have stay: "good_step L ?M c c' \<and> advance c c'" if "ckernel c' = ckernel c"
    using good_step_refl [OF c(1) that, of ?M] advance_ckernel(1) [OF that]
      advanceI [OF forward_refl [OF c(2,3)]]
    by simp
  show ?thesis
    using assms(1)
  proof (cases rule: core_step_on.cases)
    case (request E r)
    show ?thesis
      by (rule run [of "c\<lparr>requestCh := remove1 r (requestCh c)\<rparr>" E "{}"])
        (use request loop_inv(1) [OF _ request(3)] loop_advance(1) [OF _ _ _ _ _ request(3)] in \<open>auto\<close>)
  next
    case (local_msg E p)
    show ?thesis
      by (rule run [of "c\<lparr>localMsgCh := remove1 p (localMsgCh c)\<rparr>" E "{m. decodeMessage (envLib E) p = Some m}"])
        (use local_msg loop_inv(3) [OF _ _ local_msg(3)] loop_advance(4) [OF _ _ _ _ _ disjI1 [OF local_msg(3)]] in \<open>auto simp: runs_def inbox_def\<close>)
  next
    case (backlog E b)
    show ?thesis
      by (rule run [of "c\<lparr>backlogCh := remove1 b (backlogCh c)\<rparr>" E "{snd b}"])
        (use backlog loop_inv(4) [OF _ _ backlog(3)] loop_advance(4) [OF _ _ _ _ _ disjI2 [OF backlog(3)]] in \<open>auto simp: inbox_def\<close>)
  next
    case (final E)
    show ?thesis
      by (rule run [of "c\<lparr>finalCommitCh := finalCommitCh c - 1\<rparr>" E "{}"])
        (use final loop_inv(2) [OF _ final(3)] loop_advance(2) [OF _ _ _ _ _ final(3)] in \<open>auto\<close>)
  next
    case (p2p E data)
    show ?thesis
      by (rule run [of "c" E "{m. decodeMessage (envLib E) data = Some m}"])
        (use p2p loop_inv(5) [OF _ _ p2p(3)] loop_advance(5) [OF _ _ _ _ _ p2p(3)] in \<open>auto simp: runs_def inbox_def\<close>)
  next
    case (timeout E)
    show ?thesis
      by (rule run [of "c\<lparr>timeoutCh := timeoutCh c - 1\<rparr>" E "{}"])
        (use timeout good_stepI [OF handleTimeoutMsg_inv [OF timeout(3)]] loop_advance(3) [OF _ _ _ _ _ timeout(3)] in \<open>auto\<close>)
  next
    case (call_Request r e)
    show ?thesis by (rule stay) (rule kernel_core_Request [OF call_Request])
  qed (rule stay, simp)+
qed

section \<open>The engine as a ranked log\<close>

text \<open>The log of an engine is its calls of \<open>backend.Commit\<close>, the rank of a state its view. A call is
  justified by a commit certificate of the validators and the view of the state it is made in.\<close>

definition view_pos :: "View \<Rightarrow> int \<times> int" where
  "view_pos v = (the (Sequence v), the (Round v))"

definition core_pos :: "core \<Rightarrow> int \<times> int" where
  "core_pos c = (case currentRoundState c of None \<Rightarrow> (0, 0) | Some rs \<Rightarrow> pos rs)"

definition commit_justified :: "lib \<Rightarrow> core \<Rightarrow> View \<times> Proposal \<times> SignResult ptr list \<Rightarrow> bool" where
  "commit_justified L c e \<longleftrightarrow>
     (case e of (v, p, seals) \<Rightarrow> \<exists>ms vs. seals = map CommittedSeal ms \<and> valSet c = Some vs \<and>
        currentView c = Some v \<and> \<not> settled c \<and>
        commit_cert L vs \<lparr>sbView = Some v, Digest = PHash p\<rparr> ms)"

lemma currentView_pos: "currentView c = Some v \<Longrightarrow> view_pos v = core_pos c"
  by (auto simp: currentView_def view_pos_def core_pos_def pos_def SequenceOf_def RoundOf_def
      elim!: bind_SomeE)

lemma forward_pos:
  "forward c c' \<Longrightarrow> core_pos c < core_pos c' \<or> core_pos c = core_pos c' \<and> (settled c \<longrightarrow> settled c')"
  by (auto simp: forward_def core_pos_def)

lemma advance_pos:
  "advance c c' \<Longrightarrow> core_pos c < core_pos c' \<or>
     core_pos c = core_pos c' \<and> (settled c \<or> committed c' \<noteq> committed c \<longrightarrow> settled c')"
  using forward_pos [of c c'] forward_pos [of "sealed c" c']
  by (auto simp: advance_def sealed_def settled_def core_pos_def)

lemma started_inv:
  assumes "started L x c"
  shows "engine_inv L x c \<and> committed c = []"
proof -
  from assms obtain E where E: "runs L E" "Start E (NewEngine x) = Some c" by (auto simp: started_def)
  then have "core_inv L c" using Start_inv [OF E(2)] by (simp add: runs_def)
  moreover have "committed c = [] \<and> peerId c = x"
    using E(2) StartNewRound_committed [of E 0 "NewEngine x" c] by (simp add: Start_def NewEngine_def)
  moreover obtain lp :: Proposal and vs where lp: "fst (beLastProposal (envBackend E)) = Some lp"
      "enterRound E (mkView (big_of_u64 (Height lp) + 1) 0) vs (snd (beLastProposal (envBackend E)))
         False ((NewEngine x)\<lparr>valSet := Some vs\<rparr>) = Some c"
    using E(2)
    by (auto simp: Start_def StartNewRound_def newRoundKind_def NewEngine_def case_prod_unfold Let_def
        elim!: bind_SomeE)
  moreover have "unat (Height lp) < 2 ^ 63 - 1"
    using E(1) lp(1) by (simp add: runs_def small_heights_def)
  ultimately show ?thesis
    using next_sequence(1,2) [of "Height lp"]
    by (auto simp: engine_inv_def small_seq_def elim!: enterRound_pos)
qed

interpretation engine: ranked_log "started L x" "core_step (runs L)" "engine_inv L x" committed
  "commit_justified L" core_pos "\<lambda>(v, p, seals). view_pos v" settled
  for L x
proof unfold_locales
  fix s s' :: core and e
  show "started L x s \<Longrightarrow> engine_inv L x s" "started L x s \<Longrightarrow> committed s = []"
    by (simp_all add: started_inv)
  show "commit_justified L s e \<Longrightarrow> (case e of (v, p, seals) \<Rightarrow> view_pos v) = core_pos s \<and> \<not> settled s"
    by (auto simp: commit_justified_def currentView_pos)
  assume inv: "engine_inv L x s" and "core_step (runs L) s s'"
  then have step: "good_step L (inbox L (\<lambda>_. True) s) s s'" "advance s s'" by (auto dest: core_step_good)
  show "core_pos s < core_pos s' \<or>
      core_pos s = core_pos s' \<and> (settled s \<or> committed s' \<noteq> committed s \<longrightarrow> settled s')"
    using step(2) by (rule advance_pos)
  show "committed s' = committed s \<or> (\<exists>e. committed s' = committed s @ [e] \<and> commit_justified L s e)"
    using step(1) unfolding good_step_def cert_step_def commit_justified_def settled_def by auto
  show "engine_inv L x s'"
    using step inv by (auto simp: engine_inv_def good_step_def advance_def forward_def)
qed

end
