(* ===== verification/Pbft_Example.thy ===== *)
theory Pbft_Example
  imports Pbft_CoreFrame
begin

text \<open>
  A concrete environment on which the definitions of the core run: a codec on small values, a
  backend with one committed block, and validators \<open>a\<close> to \<open>d\<close>. It shows that the hypotheses of
  the theorems can hold, and it carries their witnesses.
\<close>

definition small :: "int \<Rightarrow> bool" where
  "small n \<longleftrightarrow> 0 \<le> n \<and> n < 256"

definition ex_encodeSubject :: "Subject \<Rightarrow> bytes option" where
  "ex_encodeSubject s =
     (case sbView s of
        Some v \<Rightarrow>
          (case (Sequence v, Round v) of
             (Some q, Some r) \<Rightarrow>
               if small q \<and> small r \<and> small (uint (Digest s))
               then Some [word_of_int q, word_of_int r, word_of_int (uint (Digest s))] else None
           | _ \<Rightarrow> None)
      | None \<Rightarrow> None)"

definition ex_decodeSubject :: "bytes \<Rightarrow> Subject ptr option" where
  "ex_decodeSubject b =
     (case b of
        [q, r, d] \<Rightarrow> Some (Some \<lparr>sbView = Some (mkView (uint q) (uint r)), Digest = word_of_int (uint d)\<rparr>)
      | _ \<Rightarrow> None)"

definition ex_encodePrePrepare :: "PrePrepare \<Rightarrow> bytes option" where
  "ex_encodePrePrepare x =
     (case (ppView x, ppProposal x) of
        (Some v, Some p) \<Rightarrow>
          (case (Sequence v, Round v) of
             (Some q, Some r) \<Rightarrow>
               if small q \<and> small r \<and> small (uint (Height p)) \<and> small (uint (PHash p)) \<and>
                  small (uint (Timestamp p))
               then Some (word_of_int q # word_of_int r # word_of_int (uint (Height p)) #
                          word_of_int (uint (PHash p)) # word_of_int (uint (Timestamp p)) # Block p)
               else None
           | _ \<Rightarrow> None)
      | _ \<Rightarrow> None)"

definition ex_decodePrePrepare :: "bytes \<Rightarrow> PrePrepare ptr option" where
  "ex_decodePrePrepare b =
     (case b of
        q # r # h # d # t # blk \<Rightarrow>
          Some (Some \<lparr>ppView = Some (mkView (uint q) (uint r)),
            ppProposal = Some \<lparr>Height = word_of_int (uint h), PHash = word_of_int (uint d),
              Timestamp = word_of_int (uint t), Block = blk\<rparr>\<rparr>)
      | _ \<Rightarrow> None)"

text \<open>A message of a validator with a one-letter identifier; a signature or a seal is at most one
  byte.\<close>

definition ex_encodeSig :: "SignResult ptr \<Rightarrow> bytes option" where
  "ex_encodeSig s = (case s of None \<Rightarrow> Some [0, 0] | Some [x] \<Rightarrow> Some [1, x] | _ \<Rightarrow> None)"

definition ex_decodeSig :: "byte \<Rightarrow> byte \<Rightarrow> SignResult ptr" where
  "ex_decodeSig k x = (if k = 0 then None else Some [x])"

definition ex_encodeMessage :: "Message \<Rightarrow> bytes option" where
  "ex_encodeMessage m =
     (case (MsgValidator m, ex_encodeSig (Signature m), ex_encodeSig (CommittedSeal m)) of
        ([ch], Some s, Some t) \<Rightarrow>
          if small (uint (Code m))
          then Some (word_of_int (uint (Code m)) # word_of_nat (of_char ch) # s @ t @ Msg m) else None
      | _ \<Rightarrow> None)"

definition ex_decodeMessage :: "bytes \<Rightarrow> Message option" where
  "ex_decodeMessage b =
     (case b of
        k # ch # s1 # s2 # t1 # t2 # body \<Rightarrow>
          Some \<lparr>Code = word_of_int (uint k), Msg = body, MsgValidator = [char_of (unat ch)],
            Signature = ex_decodeSig s1 s2, CommittedSeal = ex_decodeSig t1 t2\<rparr>
      | _ \<Rightarrow> None)"

definition ex_maxIndex :: "int list \<Rightarrow> nat" where
  "ex_maxIndex ps = length (takeWhile (\<lambda>p. p \<noteq> Max (set ps)) ps)"

definition exLib :: lib where
  "exLib = \<lparr>hashNil = (\<lambda>h. h = 0), hashBytes = (\<lambda>h. [word_of_int (uint h)]),
     keccakHash = (\<lambda>b. foldl (\<lambda>h x. 256 * h + word_of_int (uint x) + 1) 0 b), IDFromString = (\<lambda>s. s),
     encodePrePrepare = ex_encodePrePrepare, decodePrePrepare = ex_decodePrePrepare,
     encodeSubject = ex_encodeSubject, decodeSubject = ex_decodeSubject,
     encodeMessage = ex_encodeMessage, decodeMessage = ex_decodeMessage,
     popIndex = ex_maxIndex,
     arcHitStr = (\<lambda>n ops k. CAdd k \<in> set ops), arcHitHash = (\<lambda>n ops k. CAdd k \<in> set ops),
     f64ToI64Overflow = (\<lambda>r. - (2 ^ 63))\<rparr>"

definition exBlock :: "u64 \<Rightarrow> Proposal" where
  "exBlock h = \<lparr>Height = h, PHash = word_of_int (uint h) + 100, Timestamp = 10, Block = []\<rparr>"

definition exValidators :: "string list \<Rightarrow> ValidatorSet" where
  "exValidators xs = newDefaultSet 0 xs RoundRobin"

definition exEnv :: "string list \<Rightarrow> env" where
  "exEnv xs = \<lparr>envLib = exLib,
     envBackend = \<lparr>beValidators = (\<lambda>p. Some (exValidators xs)),
       beParentValidators = (\<lambda>p. Some (exValidators xs)), beVerify = (\<lambda>p. None),
       beCommit = (\<lambda>p s. None), beSign = (\<lambda>b. Inr (Some [7])),
       beLastProposal = (Some (exBlock 4), ''a''), beHasProposal = (\<lambda>h n. False),
       beGetProposer = (\<lambda>n. ''a'')\<rparr>,
     envBroadcaster = Some (\<lambda>ts b. None), envNow = 1\<rparr>"

lemma small_word: "small x \<Longrightarrow> uint (word_of_int x :: byte) = x"
  by (simp add: small_def uint_word_of_int take_bit_eq_mod)

lemma small_ucast:
  "small (uint (w :: u64)) \<Longrightarrow> ucast (ucast w :: byte) = w"
  "small (uint (h :: Hash)) \<Longrightarrow> ucast (ucast h :: byte) = h"
  by (rule word_uint_eqI, simp add: small_def unsigned_ucast_eq take_bit_eq_mod uint_mod)+

lemma ex_codec_Subject: "ex_encodeSubject x = Some b \<Longrightarrow> ex_decodeSubject b = Some (Some x)"
  by (auto simp: ex_encodeSubject_def ex_decodeSubject_def small_word small_ucast split: option.splits if_splits)

lemma ex_codec_PrePrepare: "ex_encodePrePrepare x = Some b \<Longrightarrow> ex_decodePrePrepare b = Some (Some x)"
  by (auto simp: ex_encodePrePrepare_def ex_decodePrePrepare_def small_word small_ucast split: option.splits if_splits)

lemma ex_codec_Message: "ex_encodeMessage x = Some b \<Longrightarrow> ex_decodeMessage b = Some x"
  by (auto simp: ex_encodeMessage_def ex_decodeMessage_def ex_encodeSig_def ex_decodeSig_def small_ucast
      unat_of_nat split: option.splits if_splits list.splits)

lemma exLib_allocates: "decode_allocates exLib"
  by (auto simp: decode_allocates_def view_full_def exLib_def ex_decodePrePrepare_def ex_decodeSubject_def
      split: list.splits)

lemma exLib_ok: "hash_ok exLib" "codec_ok exLib"
  using exLib_allocates
  by (auto simp: exLib_def hash_ok_def codec_ok_def ex_codec_Subject ex_codec_PrePrepare ex_codec_Message)

lemma exLib_prque: "prque_ok exLib"
proof -
  have "length (takeWhile (\<lambda>p. p \<noteq> Max (set ps)) ps) < length ps" if "ps \<noteq> []" for ps :: "int list"
  proof -
    have "takeWhile (\<lambda>p. p \<noteq> Max (set ps)) ps \<noteq> ps"
      using Max_in [of "set ps"] that by (auto simp: takeWhile_eq_all_conv)
    then show ?thesis
      by (metis length_takeWhile_le le_neq_implies_less takeWhile_eq_take take_all_iff)
  qed
  moreover have "ps ! length (takeWhile (\<lambda>p. p \<noteq> Max (set ps)) ps) = Max (set ps)"
    if "length (takeWhile (\<lambda>p. p \<noteq> Max (set ps)) ps) < length ps" for ps :: "int list"
    using nth_length_takeWhile [OF that] by simp
  ultimately show ?thesis by (simp add: prque_ok_def exLib_def ex_maxIndex_def)
qed

section \<open>A run of one validator to its first commit\<close>

declare FaultTolerantNum_div [code]

definition exRequest :: Request where
  "exRequest = \<lparr>rqProposal = Some (exBlock 5)\<rparr>"

definition exAsk :: "core \<Rightarrow> core go" where
  "exAsk c = (case core_Request exRequest c of None \<Rightarrow> None | Some (e, c') \<Rightarrow> Some c')"

definition exTake :: "env \<Rightarrow> core \<Rightarrow> core go" where
  "exTake E c = (case requestCh c of [] \<Rightarrow> None | r # rs \<Rightarrow> onRequest E r (c\<lparr>requestCh := rs\<rparr>))"

definition exLocal :: "env \<Rightarrow> core \<Rightarrow> core go" where
  "exLocal E c = (case localMsgCh c of [] \<Rightarrow> None | p # ps \<Rightarrow> onLocalMsg E p (c\<lparr>localMsgCh := ps\<rparr>))"

definition exStart :: core where
  "exStart = the (Start (exEnv [''a'']) (NewEngine ''a''))"

definition exRun :: "core \<Rightarrow> core go" where
  "exRun c = do {
     c1 \<leftarrow> exAsk c;
     c2 \<leftarrow> exTake (exEnv [''a'']) c1;
     c3 \<leftarrow> exLocal (exEnv [''a'']) c2;
     c4 \<leftarrow> exLocal (exEnv [''a'']) c3;
     exLocal (exEnv [''a'']) c4
   }"

definition exMsg :: "string \<Rightarrow> u64 \<Rightarrow> bytes \<Rightarrow> Message" where
  "exMsg x code body =
     \<lparr>Code = code, Msg = body, MsgValidator = x, Signature = Some [7], CommittedSeal = None\<rparr>"

text \<open>The states of the run after the pre-prepare and after the prepare.\<close>

definition exPrePrepared :: core where
  "exPrePrepared = the (do {
     c1 \<leftarrow> exAsk exStart;
     c2 \<leftarrow> exTake (exEnv [''a'']) c1;
     exLocal (exEnv [''a'']) c2
   })"

definition exPrepared :: core where
  "exPrepared = the (exLocal (exEnv [''a'']) exPrePrepared)"

definition exPrepare :: Message where
  "exPrepare = exMsg ''a'' MsgPrepare [5, 0, 105]"

definition exCommit :: Message where
  "exCommit = exMsg ''a'' MsgCommit [5, 0, 105]"

lemma exStart_Start: "Start (exEnv [''a'']) (NewEngine ''a'') = Some exStart"
proof -
  have "Start (exEnv [''a'']) (NewEngine ''a'') \<noteq> None" by code_simp
  then show ?thesis unfolding exStart_def by simp
qed

lemma exStart_round: "currentRoundState exStart \<noteq> None"
  by code_simp

lemma exRun_log: "map_option committed (exRun exStart) = Some [(mkView 5 0, exBlock 5, [Some [7]])]"
  by code_simp

end
