(* ===== verification/Pbft_Queues.thy ===== *)
theory Pbft_Queues
  imports Pbft_Example
begin

text \<open>
  The two queues of postponed work: the pending requests (src/core/request.go) and the backlog of
  future messages (src/core/backlog.go). Both loops are shown to be instances of one reference
  function, \<open>drain\<close>, whose properties are proved once; then the priorities under which the queues
  are kept.
\<close>

section \<open>The reference loop\<close>

datatype verdict = Ready | Future | Stale

function (sequential) drain ::
  "lib \<Rightarrow> ('a \<Rightarrow> verdict) \<Rightarrow> 'a prque \<Rightarrow> 'a list \<Rightarrow> 'a prque \<times> 'a list" where
  "drain L f [] posted = ([], posted)"
| "drain L f q posted =
     (case prque_Pop L q of
        ((x, prio), q1) \<Rightarrow>
          (case f x of
             Future \<Rightarrow> (prque_Push q1 x prio, posted)
           | Stale \<Rightarrow> drain L f q1 posted
           | Ready \<Rightarrow> drain L f q1 (posted @ [x])))"
  by pat_completeness auto
termination
  by (relation "measure (\<lambda>(L, f, q, posted). length q)")
    (auto dest!: length_prque_Pop [OF sym])

lemma mset_prque_Pop:
  assumes "prque_Pop L q = (e, q1)" "q \<noteq> []"
  shows "mset q = add_mset e (mset q1)"
proof -
  let ?i = "popIndex L (map snd q) mod length q"
  have i: "?i < length q" using assms(2) by simp
  then have "q = take ?i q @ q ! ?i # drop (Suc ?i) q" by (rule id_take_nth_drop)
  then have "mset q = mset (take ?i q @ q ! ?i # drop (Suc ?i) q)" by simp
  also have "\<dots> = add_mset e (mset q1)" using assms(1) by (auto simp: prque_Pop_def Let_def)
  finally show ?thesis .
qed

lemma prque_Pop_max:
  assumes "prque_Pop L q = ((x, p), q1)" "q \<noteq> []" "prque_ok L" "(y, p') \<in> set q"
  shows "p' \<le> p"
proof -
  let ?ps = "map snd q"
  have ok: "popIndex L ?ps < length ?ps" "\<forall>p \<in> set ?ps. p \<le> ?ps ! popIndex L ?ps"
    using assms(2,3) by (auto simp: prque_ok_def)
  then have "p = ?ps ! popIndex L ?ps" using assms(1) by (auto simp: prque_Pop_def Let_def)
  moreover have "p' \<in> set ?ps" using assms(4) by force
  ultimately show ?thesis using ok(2) by blast
qed

text \<open>Everything taken out is either posted, in the order taken, or dropped as stale; the loop
  ends with an empty queue or with a future entry of the highest priority.\<close>

definition drained :: "lib \<Rightarrow> ('a \<Rightarrow> verdict) \<Rightarrow> 'a prque \<Rightarrow> 'a prque \<Rightarrow> 'a list \<Rightarrow> bool" where
  "drained L f q q' ps \<longleftrightarrow>
     (\<exists>ds. mset (map fst q) = mset ps + mset ds + mset (map fst q') \<and> (\<forall>x \<in> set ds. f x = Stale)) \<and>
     (\<forall>x \<in> set ps. f x = Ready) \<and> set q' \<subseteq> set q \<and>
     (q' = [] \<or> (\<exists>x p. (x, p) \<in> set q' \<and> f x = Future \<and>
        (prque_ok L \<longrightarrow> (\<forall>(y, p') \<in> set q'. p' \<le> p))))"

lemma drained_step:
  assumes pop: "prque_Pop L q = ((x, prio), q1)" "q \<noteq> []" and d: "drained L f q1 q' ps"
  shows "f x = Stale \<Longrightarrow> drained L f q q' ps"
    and "f x = Ready \<Longrightarrow> drained L f q q' (x # ps)"
proof -
  have "mset q = add_mset (x, prio) (mset q1)" using mset_prque_Pop [OF pop] .
  then have m: "mset (map fst q) = add_mset x (mset (map fst q1))" and s: "set q1 \<subseteq> set q"
    by (auto dest: arg_cong [where f = set_mset])
  from d obtain ds where ds: "mset (map fst q1) = mset ps + mset ds + mset (map fst q')"
      "\<forall>x \<in> set ds. f x = Stale" by (auto simp: drained_def)
  show "drained L f q q' ps" if "f x = Stale"
    using d s m ds that unfolding drained_def by (intro conjI exI [of _ "x # ds"]) auto
  show "drained L f q q' (x # ps)" if "f x = Ready"
    using d s m ds that unfolding drained_def by (intro conjI exI [of _ ds]) auto
qed

lemma drain_drained:
  "drain L f q posted = (q', posted') \<Longrightarrow> \<exists>ps. posted' = posted @ ps \<and> drained L f q q' ps"
proof (induction L f q posted rule: drain.induct)
  case (1 L f posted)
  then show ?case by (simp add: drained_def)
next
  case (2 L f e es posted)
  obtain x prio q1 where pop: "prque_Pop L (e # es) = ((x, prio), q1)" by (metis surj_pair)
  note drop = drained_step [OF pop, of f]
  show ?case
  proof (cases "f x")
    case Ready
    then show ?thesis using "2.prems" "2.IH"(1) [OF pop [symmetric]] pop drop(2) by force
  next
    case Future
    have "mset (e # es) = add_mset (x, prio) (mset q1)" using mset_prque_Pop [OF pop] by simp
    then have all: "mset (map fst (e # es)) = mset (map fst (prque_Push q1 x prio))"
        "set (prque_Push q1 x prio) = set (e # es)"
      using mset_eq_setD [of "e # es" "(x, prio) # q1"]
      by (auto simp: prque_Push_def simp flip: mset_map dest: arg_cong [where f = "image_mset fst"])
    have "q' = prque_Push q1 x prio" "posted' = posted" using "2.prems" pop Future by auto
    moreover have "drained L f (e # es) (prque_Push q1 x prio) []"
      using all Future prque_Pop_max [OF pop] unfolding drained_def
      by (auto simp: prque_Push_def intro!: exI [of _ x] exI [of _ prio])
    ultimately show ?thesis by auto
  next
    case Stale
    then show ?thesis using "2.prems" "2.IH"(2) [OF pop [symmetric]] pop drop(1) by force
  qed
qed


section \<open>The two loops\<close>

definition request_verdict :: "core \<Rightarrow> Request \<Rightarrow> verdict" where
  "request_verdict c r =
     (case checkRequestMsg c (Some r) of
        Some None \<Rightarrow> Ready
      | Some (Some e) \<Rightarrow> if e = errFutureMessage then Future else Stale
      | None \<Rightarrow> Stale)"

definition message_verdict :: "lib \<Rightarrow> core \<Rightarrow> Message \<Rightarrow> verdict" where
  "message_verdict L c m =
     (case msgView L m of
        Some (Some v) \<Rightarrow>
          (case checkMessage c (Code m) (Some v) of
             Some None \<Rightarrow> Ready
           | Some (Some e) \<Rightarrow> if e = errFutureMessage then Future else Stale
           | None \<Rightarrow> Stale)
      | _ \<Rightarrow> Stale)"

lemma checkRequestMsg_total:
  "currentRoundState c \<noteq> None \<Longrightarrow> \<exists>e. checkRequestMsg c r = Some e"
  by (auto simp: checkRequestMsg_def split: option.splits)

lemma checkMessage_total:
  "currentRoundState c \<noteq> None \<Longrightarrow> \<exists>e. checkMessage c code v = Some e"
  by (auto simp: checkMessage_def currentView_def View_Cmp_def split: option.splits)

lemma set_prque_Pop: "prque_Pop L q = (e, q1) \<Longrightarrow> q \<noteq> [] \<Longrightarrow> e \<in> set q \<and> set q1 \<subseteq> set q"
  using mset_prque_Pop [of L q e q1] by (auto dest: arg_cong [where f = set_mset])

lemma pending_loop_drain:
  "currentRoundState c \<noteq> None \<Longrightarrow> \<forall>(r, p) \<in> set q. rqProposal r \<noteq> None \<Longrightarrow>
     pending_loop L c q posted = Some (drain L (request_verdict c) q posted)"
proof (induction L c q posted rule: pending_loop.induct)
  case (2 L c e es posted)
  obtain r prio q1 where pop: "prque_Pop L (e # es) = ((r, prio), q1)" by (metis surj_pair)
  have sub: "(r, prio) \<in> set (e # es)" "set q1 \<subseteq> set (e # es)" using set_prque_Pop [OF pop] by auto
  obtain p where p: "rqProposal r = Some p" using sub(1) "2.prems"(2) by fastforce
  obtain v where v: "checkRequestMsg c (Some r) = Some v" using checkRequestMsg_total "2.prems"(1) by blast
  have rest: "\<forall>(r, p) \<in> set q1. rqProposal r \<noteq> None" using sub(2) "2.prems"(2) by blast
  show ?case
    using pop p v rest "2.prems"(1) "2.IH" [OF pop [symmetric] refl]
    by (auto simp: request_verdict_def split: option.splits)
qed simp

lemma backlog_loop_drain:
  "currentRoundState c \<noteq> None \<Longrightarrow> \<forall>(m, p) \<in> set q. msgView L m \<noteq> None \<Longrightarrow>
     backlog_loop L c q posted = Some (drain L (message_verdict L c) q posted)"
proof (induction L c q posted rule: backlog_loop.induct)
  case (2 L c e es posted)
  obtain m prio q1 where pop: "prque_Pop L (e # es) = ((m, prio), q1)" by (metis surj_pair)
  have sub: "(m, prio) \<in> set (e # es)" "set q1 \<subseteq> set (e # es)" using set_prque_Pop [OF pop] by auto
  obtain view where view: "msgView L m = Some view" using sub(1) "2.prems"(2) by fastforce
  have rest: "\<forall>(m, p) \<in> set q1. msgView L m \<noteq> None" using sub(2) "2.prems"(2) by blast
  obtain v where v: "checkMessage c (Code m) view = Some v" using checkMessage_total "2.prems"(1) by blast
  show ?case
    using pop view v rest "2.prems"(1) "2.IH" [OF pop [symmetric] refl]
    by (auto simp: message_verdict_def split: option.splits)
qed simp


lemma process_backlogs_drain:
  "currentRoundState c \<noteq> None \<Longrightarrow> \<forall>(v, q) \<in> set bs. \<forall>(m, p) \<in> set q. msgView L m \<noteq> None \<Longrightarrow>
     process_backlogs L c bs =
       Some (map (\<lambda>(v, q). (v, fst (drain L (message_verdict L c) q []))) bs,
             concat (map (\<lambda>(v, q). map (Pair v) (snd (drain L (message_verdict L c) q []))) bs))"
  by (induction bs) (auto simp: backlog_loop_drain split: prod.splits)

section \<open>Priorities\<close>

lemma f32_shift_small: "n < 2 ^ 24 \<Longrightarrow> f32_shift n = 0"
  by (simp add: f32_shift.simps)

lemma f32_exact: "n < 2 ^ 24 \<Longrightarrow> f32_of_nat n = int n"
  by (simp add: f32_of_nat_def f32_shift_small)

lemma f32_shift_range: "2 ^ (23 + k) \<le> n \<Longrightarrow> n < 2 ^ (24 + k) \<Longrightarrow> f32_shift n = k"
proof (induction k arbitrary: n)
  case (Suc k)
  have "2 * 2 ^ (23 + k) \<le> n" "n < 2 * 2 ^ (24 + k)" using Suc.prems by (simp_all add: power_add)
  then have "2 ^ (23 + k) \<le> n div 2" "n div 2 < 2 ^ (24 + k)" by linarith+
  moreover have "\<not> n < 2 ^ 24"
    using Suc.prems(1) power_increasing [of 24 "23 + Suc k" "2 :: nat"] by simp
  ultimately show ?case using Suc.IH [of "n div 2"] by (simp add: f32_shift.simps [of n])
qed (simp add: f32_shift_small)

lemma f32_top:
  assumes "1 \<le> h" "h \<le> 2 ^ 39"
  shows "f32_of_nat (2 ^ 64 - h) = 2 ^ 64"
proof -
  define r where "r = 2 ^ 40 - h"
  have n: "2 ^ 64 - h = (2 ^ 24 - 1) * 2 ^ 40 + r" and r: "2 ^ 39 \<le> r" "r < 2 ^ 40"
    using assms by (simp_all add: r_def)
  have shift: "f32_shift (2 ^ 64 - h) = 40"
    using assms by (intro f32_shift_range) simp_all
  have "(2 ^ 64 - h) div 2 ^ 40 = 2 ^ 24 - 1" "(2 ^ 64 - h) mod 2 ^ 40 = r"
    unfolding n using r(2) mod_mult_self3 [of "2 ^ 24 - 1" "2 ^ 40" r] by simp_all
  then show ?thesis using r(1) unfolding f32_of_nat_def shift Let_def by auto
qed

lemma unat_uminus: "(h :: u64) \<noteq> 0 \<Longrightarrow> unat (- h) = 2 ^ 64 - unat h"
proof -
  assume "h \<noteq> 0"
  then have "uint h \<noteq> 0" by (simp add: uint_0_iff)
  moreover have "0 \<le> uint h" "uint h < 2 ^ 64" using uint_lt2p [of h] by simp_all
  ultimately have small: "0 \<le> 2 ^ 64 - uint h" "2 ^ 64 - uint h < 2 ^ 64" by linarith+
  have "uint (- h) = - uint h mod 2 ^ 64" using uint_word_ariths(4) [of h] by simp
  also have "\<dots> = (2 ^ 64 - uint h) mod 2 ^ 64" by (simp only: minus_mod_self1)
  also have "\<dots> = 2 ^ 64 - uint h" using small by (rule mod_pos_pos_trivial)
  finally have "int (unat (- h)) = 2 ^ 64 - int (unat h)" by (simp only: uint_nat)
  then have "int (unat (- h) + unat h) = int (2 ^ 64)" by simp
  then have "unat (- h) + unat h = 2 ^ 64" by (simp only: of_nat_eq_iff)
  then show ?thesis by (rule add_implies_diff)
qed

text \<open>The value a backlog priority negates, when nothing wraps or rounds.\<close>

lemma toPriority_exact:
  assumes "0 \<le> s" "0 \<le> r" "s * 1000 + r * 10 + 3 < 2 ^ 24"
  shows "toPriority code (Some (mkView s r)) =
    Some (- (if code = MsgRoundChange then s * 1000 else s * 1000 + r * 10 + uint (msgPriority code)))"
proof -
  have u: "big_Uint64 s = word_of_int s" "big_Uint64 r = word_of_int r"
    using assms by (simp_all add: big_Uint64_def)
  have p: "uint (msgPriority code) \<le> 3" by (simp add: msgPriority_def)
  have "uint (word_of_int s * 1000 :: u64) = s * 1000"
    "uint (word_of_int s * 1000 + word_of_int r * 10 + msgPriority code) =
       s * 1000 + r * 10 + uint (msgPriority code)"
    using assms p by (simp_all add: uint_word_ariths uint_word_of_int_eq take_bit_eq_mod mod_simps)
  then have "f32_of_nat (unat (word_of_int s * 1000 :: u64)) = s * 1000"
    "f32_of_nat (unat (word_of_int s * 1000 + word_of_int r * 10 + msgPriority code)) =
       s * 1000 + r * 10 + uint (msgPriority code)"
    using assms p by (simp_all add: f32_exact unat_eq_nat_uint nat_less_iff)
  then show ?thesis by (simp add: toPriority_def u)
qed


section \<open>Properties\<close>

text \<open>C28: no pending request is lost. \<open>ProcessPendingRequests\<close> returns, touches nothing but the
  pending queue and the request channel, and splits the queue: ready requests are posted to the
  request channel, stale ones are dropped, and what remains is empty or has a future
  request of the highest priority.\<close>

theorem pending_requests_conserved:
  assumes "currentRoundState c \<noteq> None" "\<forall>(r, p) \<in> set (pendingRequests c). rqProposal r \<noteq> None"
  shows "\<exists>q ps. ProcessPendingRequests L c = Some (c\<lparr>pendingRequests := q, requestCh := requestCh c @ ps\<rparr>) \<and>
    drained L (request_verdict c) (pendingRequests c) q ps"
proof -
  obtain q ps where d: "drain L (request_verdict c) (pendingRequests c) [] = (q, ps)" by fastforce
  then have "ProcessPendingRequests L c = Some (c\<lparr>pendingRequests := q, requestCh := requestCh c @ ps\<rparr>)"
    using pending_loop_drain [OF assms] by (simp add: ProcessPendingRequests_def)
  with drain_drained [OF d] show ?thesis by auto
qed

definition exPending :: core where
  "exPending = exStart\<lparr>pendingRequests := [(exRequest, 1), (\<lparr>rqProposal = Some (exBlock 9)\<rparr>, 2)]\<rparr>"

theorem pending_requests_conserved_witness:
  "\<exists>q ps. ProcessPendingRequests exLib exPending =
      Some (exPending\<lparr>pendingRequests := q, requestCh := requestCh exPending @ ps\<rparr>) \<and>
    drained exLib (request_verdict exPending) (pendingRequests exPending) q ps"
  by (rule pending_requests_conserved) (simp_all add: exPending_def exRequest_def exStart_round)

text \<open>C29: no backlogged message is lost. \<open>ProcessBacklog\<close> returns and treats the queue of every
  validator alike: ready messages are posted to the backlog channel under that validator,
  stale ones are dropped, and what remains is empty or has a future message of the highest
  priority.\<close>

theorem backlog_conserved:
  assumes "currentRoundState c \<noteq> None"
    "\<forall>(v, q) \<in> set (backlogs c). \<forall>(m, p) \<in> set q. msgView L m \<noteq> None"
  shows "\<exists>qs pss. ProcessBacklog L c = Some (c\<lparr>backlogs := zip (map fst (backlogs c)) qs,
        backlogCh := backlogCh c @ concat (map2 (\<lambda>v. map (Pair v)) (map fst (backlogs c)) pss)\<rparr>) \<and>
    list_all2 (\<lambda>(v, q) (q', ps). drained L (message_verdict L c) q q' ps) (backlogs c) (zip qs pss) \<and>
    length qs = length (backlogs c) \<and> length pss = length (backlogs c)"
proof -
  let ?d = "\<lambda>q. drain L (message_verdict L c) q []"
  define qs pss where "qs = map (\<lambda>(v, q). fst (?d q)) (backlogs c)"
    and "pss = map (\<lambda>(v, q). snd (?d q)) (backlogs c)"
  have q: "map (\<lambda>(v, q). (v, fst (?d q))) (backlogs c) = zip (map fst (backlogs c)) qs"
    unfolding qs_def by (simp add: zip_map_map case_prod_unfold zip_same_conv_map)
  have e: "map (\<lambda>(v, q). map (Pair v) (snd (?d q))) (backlogs c) =
      map2 (\<lambda>v. map (Pair v)) (map fst (backlogs c)) pss"
    unfolding pss_def by (simp add: zip_map_map case_prod_unfold zip_same_conv_map)
  have z: "zip qs pss = map (\<lambda>(v, q). ?d q) (backlogs c)"
    unfolding qs_def pss_def by (simp add: zip_map_map case_prod_unfold zip_same_conv_map)
  have dr: "drained L (message_verdict L c) q (fst (?d q)) (snd (?d q))" for q
    using drain_drained [of L "message_verdict L c" q "[]" "fst (?d q)" "snd (?d q)"] by simp
  have "ProcessBacklog L c = Some (c\<lparr>backlogs := zip (map fst (backlogs c)) qs,
        backlogCh := backlogCh c @ concat (map2 (\<lambda>v. map (Pair v)) (map fst (backlogs c)) pss)\<rparr>)"
    using process_backlogs_drain [OF assms] by (simp add: ProcessBacklog_def q e)
  moreover have "list_all2 (\<lambda>(v, q) (q', ps). drained L (message_verdict L c) q q' ps) (backlogs c) (zip qs pss)"
    unfolding z list.rel_map by (rule list.rel_refl_strong) (use dr in \<open>simp add: case_prod_unfold\<close>)
  ultimately show ?thesis by (intro exI [of _ qs] exI [of _ pss]) (simp add: qs_def pss_def)
qed

definition exBacklog :: core where
  "exBacklog = exStart\<lparr>backlogs := [(\<lparr>vref = 0, ID = ''a''\<rparr>, [(exMsg ''a'' MsgPrepare [5, 0, 1], 1),
     (exMsg ''a'' MsgRoundChange [5, 2, 0], 2)])]\<rparr>"

theorem backlog_conserved_witness:
  "\<exists>qs pss. ProcessBacklog exLib exBacklog = Some (exBacklog\<lparr>backlogs := zip (map fst (backlogs exBacklog)) qs,
        backlogCh := backlogCh exBacklog @
          concat (map2 (\<lambda>v. map (Pair v)) (map fst (backlogs exBacklog)) pss)\<rparr>) \<and>
    list_all2 (\<lambda>(v, q) (q', ps). drained exLib (message_verdict exLib exBacklog) q q' ps)
      (backlogs exBacklog) (zip qs pss) \<and>
    length qs = length (backlogs exBacklog) \<and> length pss = length (backlogs exBacklog)"
  by (rule backlog_conserved)
    (simp_all add: exBacklog_def exStart_round exMsg_def msgView_def exLib_def ex_decodeSubject_def)



text \<open>C37: the pending requests have no order. Because the height is negated in \<open>uint64\<close> before the
  conversion to \<open>float32\<close>, every request for a height from 1 to \<open>2 ^ 39\<close> is stored with the same
  priority.\<close>

theorem pending_priorities_collapse:
  assumes "rqProposal r = Some p" "1 \<le> unat (Height p)" "unat (Height p) \<le> 2 ^ 39"
  shows "StoreRequestMsg r c = Some (c\<lparr>pendingRequests := pendingRequests c @ [(r, 2 ^ 64)]\<rparr>)"
proof -
  have "Height p \<noteq> 0" using assms(2) by auto
  then have "f32_of_nat (unat (- Height p)) = 2 ^ 64"
    using f32_top [OF assms(2,3)] unat_uminus [of "Height p"] by metis
  then show ?thesis using assms(1) by (simp add: StoreRequestMsg_def prque_Push_def)
qed

theorem pending_priorities_collapse_witness:
  "StoreRequestMsg exRequest exStart = Some (exStart\<lparr>pendingRequests := pendingRequests exStart @ [(exRequest, 2 ^ 64)]\<rparr>) \<and>
   StoreRequestMsg \<lparr>rqProposal = Some (exBlock 900)\<rparr> exStart =
     Some (exStart\<lparr>pendingRequests := pendingRequests exStart @ [(\<lparr>rqProposal = Some (exBlock 900)\<rparr>, 2 ^ 64)]\<rparr>)"
  using pending_priorities_collapse [of exRequest "exBlock 5" exStart]
    pending_priorities_collapse [of "\<lparr>rqProposal = Some (exBlock 900)\<rparr>" "exBlock 900" exStart]
  by (simp add: exRequest_def exBlock_def)

end
