(* ===== verification/Pbft_Provenance.thy ===== *)
theory Pbft_Provenance
  imports Pbft_Loop Pbft_Queues
begin

text \<open>
  Where the commit messages of a core come from. A commit message that a core holds after a step,
  wherever it keeps it, was there before, or came in with the step, or is the core's own vote
  for the subject it is working on, or its answer for a block that is in the chain already. With the
  network of theory \<open>Pbft_Network\<close> this traces every vote of an honest validator back to the state it was
  cast in.
\<close>

section \<open>The commit messages a core holds\<close>

definition posted :: "lib \<Rightarrow> core \<Rightarrow> Message set" where
  "posted L c = {m. \<exists>p \<in> set (localMsgCh c) \<union> snd ` set (broadcasts c). decodeMessage L p = Some m}"

definition deferred :: "core \<Rightarrow> Message set" where
  "deferred c = {m. \<exists>v q prio. (v, q) \<in> set (backlogs c) \<and> (m, prio) \<in> set q} \<union> snd ` set (backlogCh c)"

definition heard :: "lib \<Rightarrow> core \<Rightarrow> Message set" where
  "heard L c = {m \<in> posted L c \<union> deferred c \<union> tallied c. Code m = MsgCommit}"

definition adds :: "lib \<Rightarrow> (Message \<Rightarrow> bool) \<Rightarrow> core \<Rightarrow> core \<Rightarrow> bool" where
  "adds L P c c' \<longleftrightarrow> (\<forall>m \<in> heard L c'. m \<in> heard L c \<or> P m)"

lemma adds_refl [simp, intro]: "adds L P c c"
  by (simp add: adds_def)

lemma adds_trans [trans]: "adds L P c c1 \<Longrightarrow> adds L P c1 c2 \<Longrightarrow> adds L P c c2"
  by (auto simp: adds_def)

lemma adds_weaken: "adds L P c c' \<Longrightarrow> (\<And>m. P m \<Longrightarrow> Q m) \<Longrightarrow> adds L Q c c'"
  by (auto simp: adds_def)

lemma adds_subset:
  "localMsgCh c' = localMsgCh c \<Longrightarrow> broadcasts c' = broadcasts c \<Longrightarrow> deferred c' \<subseteq> deferred c \<Longrightarrow>
     tallied c' \<subseteq> tallied c \<Longrightarrow> adds L P c c'"
  by (auto simp: adds_def heard_def posted_def)

lemma deferred_cong: "backlogs c' = backlogs c \<Longrightarrow> backlogCh c' = backlogCh c \<Longrightarrow> deferred c' = deferred c"
  by (simp add: deferred_def)

lemma tallied_ckernel: "ckernel c' = ckernel c \<Longrightarrow> tallied c' = tallied c"
  by (simp add: tallied_def ckernel_eq_iff)

lemma tallied_new: "Commits rs = NewMessageSet vs \<Longrightarrow> currentRoundState c = Some rs \<Longrightarrow> tallied c = {}"
  by (simp add: tallied_def ms_Values_def)

section \<open>Sending\<close>

lemma finalizeMessage_decodes:
  assumes "finalizeMessage E c msg = Some (Inr payload)" "codec_ok (envLib E)"
  obtains m where "decodeMessage (envLib E) payload = Some m" "MsgValidator m = peerId c"
    "Code m = Code msg" "Msg m = Msg msg"
proof -
  from assms(1) obtain msg1 sr where msg1: "commitSeal E c (msg\<lparr>MsgValidator := peerId c\<rparr>) = Some (Inr msg1)"
      "encodeMessage (envLib E) (msg1\<lparr>Signature := sr\<rparr>) = Some payload"
    by (auto simp: finalizeMessage_def Payload_def elim!: bind_SomeE split: sum.splits option.splits)
  from msg1(1) have "MsgValidator msg1 = peerId c \<and> Code msg1 = Code msg \<and> Msg msg1 = Msg msg"
    by (auto simp: commitSeal_def elim!: bind_SomeE split: if_splits option.splits sum.splits)
  with codec_okD(3) [OF assms(2) msg1(2)] show thesis by (intro that [of "msg1\<lparr>Signature := sr\<rparr>"]) auto
qed

lemma adds_GossipPayload:
  assumes "GossipPayload E payload c = Some (e, c')"
    "\<And>m. decodeMessage (envLib E) payload = Some m \<Longrightarrow> Code m = MsgCommit \<Longrightarrow> m \<in> heard (envLib E) c \<or> P m"
  shows "adds (envLib E) P c c'"
proof -
  from assms(1) obtain vs where vs: "valSet c = Some vs" by (auto simp: GossipPayload_def elim!: bind_SomeE)
  obtain c1 ts where loop:
    "gossip_loop (envLib E) (keccakHash (envLib E) payload) (ListOf vs) c [] = (c1, ts)" by fastforce
  have frame: "localMsgCh c1 = localMsgCh c" "broadcasts c1 = broadcasts c" "deferred c1 = deferred c"
      "tallied c1 = tallied c"
    using gossip_loop_frame [of "envLib E" "keccakHash (envLib E) payload" "ListOf vs" c "[]"]
      tallied_ckernel [OF kernel_gossip_loop_eq [OF loop]]
    by (simp_all add: loop deferred_def)
  from assms(1) loop vs have "c' = c1 \<or> c' = c1\<lparr>broadcasts := broadcasts c1 @ [(ts, payload)]\<rparr>"
    by (auto simp: GossipPayload_def split: if_splits option.splits)
  then show ?thesis
  proof
    assume "c' = c1"
    with frame show ?thesis by (auto intro: adds_subset)
  next
    assume c': "c' = c1\<lparr>broadcasts := broadcasts c1 @ [(ts, payload)]\<rparr>"
    have "deferred c' = deferred c" "tallied c' = tallied c"
      using frame by (simp_all add: c' deferred_def tallied_def)
    then show ?thesis
      using assms(2) frame(1,2) by (auto simp: adds_def heard_def posted_def c')
  qed
qed

lemma adds_Broadcast:
  assumes "Broadcast E msg c = Some c'" "codec_ok (envLib E)"
    "\<And>m. Code msg = MsgCommit \<Longrightarrow> MsgValidator m = peerId c \<Longrightarrow> Msg m = Msg msg \<Longrightarrow> P m"
  shows "adds (envLib E) P c c'"
proof -
  from assms(1) obtain fin where fin: "finalizeMessage E c msg = Some fin"
    by (auto simp: Broadcast_def elim!: bind_SomeE)
  show ?thesis
  proof (cases fin)
    case (Inl e)
    with assms(1) fin show ?thesis by (auto simp: Broadcast_def adds_def)
  next
    case (Inr payload)
    with fin assms(2) obtain m where m: "decodeMessage (envLib E) payload = Some m"
        "MsgValidator m = peerId c" "Code m = Code msg" "Msg m = Msg msg"
      by (auto elim: finalizeMessage_decodes)
    let ?c1 = "c\<lparr>localMsgCh := localMsgCh c @ [payload]\<rparr>"
    from assms(1) fin Inr obtain e where "GossipPayload E payload ?c1 = Some (e, c')"
      by (auto simp: Broadcast_def elim!: bind_SomeE)
    then have "adds (envLib E) P ?c1 c'"
      by (rule adds_GossipPayload) (use m assms(3) in auto)
    moreover have "adds (envLib E) P c ?c1"
      using m assms(3) by (auto simp: adds_def heard_def posted_def deferred_def tallied_def)
    ultimately show ?thesis by (rule adds_trans [rotated])
  qed
qed

lemma adds_send_other:
  assumes "(case x of None \<Rightarrow> ret c | Some body \<Rightarrow> Broadcast E (newMsg code body) c) = Some c'"
    "code \<noteq> MsgCommit" "codec_ok (envLib E)"
  shows "adds (envLib E) P c c'"
proof (cases x)
  case (Some body)
  with assms(1) have "Broadcast E (newMsg code body) c = Some c'" by simp
  then show ?thesis by (rule adds_Broadcast) (use assms in \<open>simp_all add: newMsg_def\<close>)
qed (use assms(1) in simp)

lemma adds_SendPrePrepare:
  "SendPrePrepare E r c = Some c' \<Longrightarrow> codec_ok (envLib E) \<Longrightarrow> adds (envLib E) P c c'"
  by (auto simp: SendPrePrepare_def elim!: bind_SomeE split: if_splits) (erule adds_send_other, simp_all)

lemma adds_SendPrepare:
  "SendPrepare E c = Some c' \<Longrightarrow> codec_ok (envLib E) \<Longrightarrow> adds (envLib E) P c c'"
  by (auto simp: SendPrepare_def elim!: bind_SomeE intro: adds_send_other)

lemma adds_broadcastCommit:
  assumes "broadcastCommit E sub c = Some c'" "codec_ok (envLib E)" "view_full (sbView sub)"
    "\<And>m. MsgValidator m = peerId c \<Longrightarrow> decodeSubject (envLib E) (Msg m) = Some (Some sub) \<Longrightarrow> P m"
  shows "adds (envLib E) P c c'"
proof (cases "encodeSubject (envLib E) sub")
  case (Some body)
  with assms(1) have "Broadcast E (newMsg MsgCommit body) c = Some c'" by (simp add: broadcastCommit_def)
  then show ?thesis
    by (rule adds_Broadcast [OF _ assms(2)])
      (use Some assms(4) codec_okD(2) [OF assms(2,3)] in \<open>auto simp: newMsg_def\<close>)
qed (use assms(1) in \<open>auto simp: broadcastCommit_def adds_def\<close>)

lemma adds_reproposal:
  "reproposal E c = Some c' \<Longrightarrow> codec_ok (envLib E) \<Longrightarrow> adds (envLib E) P c c'"
  by (auto simp: reproposal_def split: option.splits if_splits intro: adds_SendPrePrepare)

section \<open>Queues and rounds\<close>

lemma backlog_loop_subset:
  "backlog_loop L c q ps = Some (q', ps') \<Longrightarrow> set q' \<subseteq> set q \<and> set ps' \<subseteq> set ps \<union> fst ` set q"
proof (induction L c q ps arbitrary: q' ps' rule: backlog_loop.induct)
  case (2 L c e es ps)
  obtain m prio q1 where pop: "prque_Pop L (e # es) = ((m, prio), q1)" by (metis surj_pair)
  then have sub: "(m, prio) \<in> set (e # es)" "set q1 \<subseteq> set (e # es)" "fst ` set q1 \<subseteq> fst ` set (e # es)"
      "m \<in> fst ` set (e # es)"
    using set_prque_Pop [OF pop] by force+
  from "2.prems" pop obtain view where view: "msgView L m = Some view"
    by (auto elim!: bind_SomeE)
  show ?case
  proof (cases view)
    case None
    with "2.prems" pop view have "backlog_loop L c q1 ps = Some (q', ps')" by simp
    from "2.IH"(1) [OF pop [symmetric] refl view None this] sub show ?thesis by blast
  next
    case (Some v)
    with "2.prems" pop view obtain er where er: "checkMessage c (Code m) (Some v) = Some er"
      by (auto elim!: bind_SomeE)
    show ?thesis
    proof (cases er)
      case ok: None
      with "2.prems" pop view Some er have "backlog_loop L c q1 (ps @ [m]) = Some (q', ps')" by simp
      from "2.IH"(2) [OF pop [symmetric] refl view Some er ok this]
      have "set q' \<subseteq> set q1 \<and> set ps' \<subseteq> insert m (set ps) \<union> fst ` set q1" by simp
      with sub show ?thesis by blast
    next
      case (Some er')
      show ?thesis
      proof (cases "er' = errFutureMessage")
        case True
        with "2.prems" pop view \<open>view = Some v\<close> er Some sub show ?thesis by (auto simp: prque_Push_def)
      next
        case False
        with "2.prems" pop view \<open>view = Some v\<close> er Some have "backlog_loop L c q1 ps = Some (q', ps')" by simp
        from "2.IH"(3) [OF pop [symmetric] refl view \<open>view = Some v\<close> er Some False this] sub
        show ?thesis by blast
      qed
    qed
  qed
qed simp

lemma process_backlogs_subset:
  assumes "process_backlogs L c bs = Some (qs, evs)" "m \<in> snd ` set evs \<or> (v, q) \<in> set qs \<and> (m, prio) \<in> set q"
  shows "\<exists>v q prio. (v, q) \<in> set bs \<and> (m, prio) \<in> set q"
  using assms
proof (induction bs arbitrary: qs evs)
  case (Cons b bs)
  obtain src backlog where b: "b = (src, backlog)" by fastforce
  from Cons.prems(1) b obtain q1 ps qs1 evs1 where res: "backlog_loop L c backlog [] = Some (q1, ps)"
      "process_backlogs L c bs = Some (qs1, evs1)" "qs = (src, q1) # qs1" "evs = map (Pair src) ps @ evs1"
    by (auto elim!: bind_SomeE)
  note sub = backlog_loop_subset [OF res(1)]
  from Cons.prems(2) res(3,4) consider "m \<in> set ps \<or> (m, prio) \<in> set q1"
    | "m \<in> snd ` set evs1 \<or> (v, q) \<in> set qs1 \<and> (m, prio) \<in> set q"
    by (auto simp: image_Un image_image)
  then show ?case
  proof cases
    case 1
    then show ?thesis using sub b by fastforce
  next
    case 2
    from Cons.IH [OF res(2) 2] show ?thesis by auto
  qed
qed auto

lemma adds_ProcessBacklog:
  assumes "ProcessBacklog L c = Some c'"
  shows "adds L' P c c'"
proof -
  from assms obtain qs evs where pb: "process_backlogs L c (backlogs c) = Some (qs, evs)"
      and c': "c' = c\<lparr>backlogs := qs, backlogCh := backlogCh c @ evs\<rparr>"
    by (auto simp: ProcessBacklog_def elim!: bind_SomeE)
  have "deferred c' \<subseteq> deferred c"
    using process_backlogs_subset [OF pb] unfolding deferred_def c' by (simp add: image_Un) blast
  then show ?thesis by (intro adds_subset) (simp_all add: c' tallied_def)
qed

lemma adds_setState:
  assumes "setState L s c = Some c'"
  shows "adds L' P c c'"
proof -
  let ?c1 = "if state c \<noteq> s then c\<lparr>state := s\<rparr> else c"
  from assms obtain c2 where c2: "(if s = StateAcceptRequest then ProcessPendingRequests L ?c1 else ret ?c1) = Some c2"
      "ProcessBacklog L c2 = Some c'"
    by (auto simp: setState_def elim!: bind_SomeE)
  from c2(1) have "adds L' P c c2"
    by (intro adds_subset)
      (auto simp: ProcessPendingRequests_def deferred_def tallied_def elim!: bind_SomeE split: if_splits)
  also have "adds L' P c2 c'" using c2(2) by (rule adds_ProcessBacklog)
  finally show ?thesis .
qed

lemma adds_newRoundChangeTimer: "newRoundChangeTimer L c = Some c' \<Longrightarrow> adds L' P c c'"
  by (rule adds_subset)
    (auto simp: newRoundChangeTimer_def stopTimer_def deferred_def tallied_def elim!: bind_SomeE)

lemma adds_enterRound:
  assumes "enterRound E (mkView s r) vs lp change c = Some c'" "codec_ok (envLib E)"
  shows "adds (envLib E) P c c'"
proof -
  let ?c2 = "c\<lparr>rcSet := Some (newRoundChangeSet vs),
      currentRoundState := Some (nextRoundState (envLib E) s r vs change (currentRoundState c)),
      valSet := Some (CalcProposer vs lp (big_Uint64 r)), waitingForRoundChange := False\<rparr>"
  from assms(1) obtain c3 c4 where
    c3: "setState (envLib E) StateAcceptRequest ?c2 = Some c3"
    "(if change \<and> isProposer c3 then reproposal E c3 else ret c3) = Some c4"
    "newRoundChangeTimer (envLib E) c4 = Some c'"
    by (auto simp: enterRound_def updateRoundState_mkView elim!: bind_SomeE)
  have "adds (envLib E) P c ?c2"
    by (rule adds_subset) (simp_all add: deferred_def tallied_def ms_Values_def)
  also have "adds (envLib E) P ?c2 c3" using c3(1) by (rule adds_setState)
  also have "adds (envLib E) P c3 c4"
    using c3(2) adds_reproposal [OF _ assms(2)] by (auto split: if_splits)
  also have "adds (envLib E) P c4 c'" using c3(3) by (rule adds_newRoundChangeTimer)
  finally show ?thesis .
qed

lemma adds_StartNewRound:
  assumes "StartNewRound E rnd c = Some c'" "codec_ok (envLib E)"
  shows "adds (envLib E) P c c'"
proof -
  let ?lp = "fst (beLastProposal (envBackend E))"
  show ?thesis
  proof (cases "newRoundKind rnd ?lp c")
    case None
    with assms(1) show ?thesis by (simp add: StartNewRound_def case_prod_unfold adds_def)
  next
    case (Some kc)
    obtain change c0 where kc: "kc = (change, c0)" by fastforce
    from Some kc have c0: "adds (envLib E) P c (c0\<lparr>valSet := w\<rparr>)" "adds (envLib E) P c c0" for w
      by (auto simp: newRoundKind_def deferred_def tallied_def intro!: adds_subset
          split: option.splits if_splits)
    show ?thesis
    proof (cases change)
      case True
      with assms(1) Some kc obtain rs vs where
        "enterRound E (mkView (big_of_u64 (SequenceOf rs)) rnd) vs (snd (beLastProposal (envBackend E))) True c0 = Some c'"
        by (auto simp: StartNewRound_def case_prod_unfold elim!: bind_SomeE)
      from adds_trans [OF c0(2) adds_enterRound [OF this assms(2)]] show ?thesis .
    next
      case False
      with assms(1) Some kc obtain lp :: Proposal and vs where
        "enterRound E (mkView (big_of_u64 (Height lp) + 1) 0) vs (snd (beLastProposal (envBackend E))) False
           (c0\<lparr>valSet := Some vs\<rparr>) = Some c'"
        by (auto simp: StartNewRound_def case_prod_unfold Let_def elim!: bind_SomeE)
      from adds_trans [OF c0(1) adds_enterRound [OF this assms(2)]] show ?thesis .
    qed
  qed
qed

lemma adds_catchUpRound:
  assumes "catchUpRound E (mkView s r) c = Some c'"
  shows "adds L P c c'"
proof -
  from assms obtain vs rcs where
    timer: "newRoundChangeTimer (envLib E) (c\<lparr>waitingForRoundChange := True,
       currentRoundState := Some (nextRoundState (envLib E) s r vs True (currentRoundState c)),
       rcSet := Some (rcs_Clear rcs r)\<rparr>) = Some c'" (is "newRoundChangeTimer _ ?c2 = _")
    by (auto simp: catchUpRound_def updateRoundState_mkView elim!: bind_SomeE)
  have "adds L P c ?c2"
    by (rule adds_subset) (simp_all add: deferred_def tallied_def ms_Values_def)
  also have "adds L P ?c2 c'" using timer by (rule adds_newRoundChangeTimer)
  finally show ?thesis .
qed

lemma adds_sendRoundChange:
  "sendRoundChange E rnd c = Some c' \<Longrightarrow> codec_ok (envLib E) \<Longrightarrow> adds (envLib E) P c c'"
  by (auto simp: sendRoundChange_def elim!: bind_SomeE split: if_splits)
    (rule adds_trans, erule adds_catchUpRound, erule adds_send_other, simp_all)

lemma adds_sendNextRoundChange:
  "sendNextRoundChange E c = Some c' \<Longrightarrow> codec_ok (envLib E) \<Longrightarrow> adds (envLib E) P c c'"
  by (auto simp: sendNextRoundChange_def elim!: bind_SomeE intro: adds_sendRoundChange)

section \<open>Votes\<close>

text \<open>A core that is engaged in its view votes for the subject of its round. A message is cast by a
  core if it is such a vote, or if its digest is that of a block of the chain.\<close>

definition ballot :: "core \<Rightarrow> Subject \<Rightarrow> bool" where
  "ballot c sub \<longleftrightarrow> engaged c \<and> (\<exists>rs. currentRoundState c = Some rs \<and> SubjectOf rs = Some (Some sub))"

definition casts :: "env \<Rightarrow> core \<Rightarrow> Message \<Rightarrow> bool" where
  "casts E c m \<longleftrightarrow> MsgValidator m = peerId c \<and>
     (\<exists>sub. decodeSubject (envLib E) (Msg m) = Some (Some sub) \<and>
        (ballot c sub \<or> (\<exists>n. beHasProposal (envBackend E) (Digest sub) n)))"

lemma ballot_ckernel: "ckernel c' = ckernel c \<Longrightarrow> ballot c' sub = ballot c sub"
  by (simp add: ballot_def engaged_def ckernel_eq_iff)

lemma casts_ckernel: "ckernel c' = ckernel c \<Longrightarrow> casts E c' m = casts E c m"
  using ballot_ckernel [of c' c] by (simp add: casts_def ckernel_eq_iff)

lemma SubjectOf_full: "SubjectOf rs = Some (Some sub) \<Longrightarrow> view_full (sbView sub)"
  by (auto simp: SubjectOf_def view_full_def elim!: bind_SomeE split: option.splits)

lemma adds_SendCommit:
  assumes "SendCommit E c = Some c'" "codec_ok (envLib E)" "engaged c"
  shows "adds (envLib E) (casts E c') c c'"
proof -
  from assms(1) obtain rs sub where rs: "currentRoundState c = Some rs" "SubjectOf rs = Some (Some sub)"
      "broadcastCommit E sub c = Some c'"
    by (auto simp: SendCommit_def elim!: bind_SomeE)
  have "casts E c m" if "MsgValidator m = peerId c" "decodeSubject (envLib E) (Msg m) = Some (Some sub)" for m
    using that rs(1,2) assms(3) by (auto simp: casts_def ballot_def)
  then show ?thesis
    using adds_broadcastCommit [OF rs(3) assms(2) SubjectOf_full [OF rs(2)]]
      casts_ckernel [OF kernel_broadcastCommit [OF rs(3)]]
    by simp
qed

lemma adds_tally:
  assumes "tallied c' \<subseteq> insert msg (tallied c)" "localMsgCh c' = localMsgCh c" "broadcasts c' = broadcasts c"
    "backlogs c' = backlogs c" "backlogCh c' = backlogCh c" "P msg"
  shows "adds L P c c'"
  using assms by (auto simp: adds_def heard_def posted_def deferred_def)

lemma adds_lockHash:
  assumes "lockHash c = Some c'"
  shows "adds L P c c'"
proof -
  obtain rs where rs: "currentRoundState c = Some rs" using assms by (auto simp: lockHash_def elim!: bind_SomeE)
  obtain h where "c' = c\<lparr>currentRoundState := Some (rs\<lparr>lockedHash := h\<rparr>)\<rparr>"
    using assms rs by (rule lockHash_frame)
  then show ?thesis using rs by (intro adds_subset) (simp_all add: deferred_def tallied_def)
qed

lemma adds_acceptProposal:
  assumes "acceptProposal E pp p c = Some c'" "codec_ok (envLib E)" "\<not> waitingForRoundChange c"
  shows "adds (envLib E) (casts E c') c c'"
proof -
  from assms(1) obtain rs where rs: "currentRoundState c = Some rs"
    by (auto simp: acceptProposal_def elim!: bind_SomeE)
  let ?c1 = "c\<lparr>consensusTimestamp := envNow E, currentRoundState := Some (SetPrePrepare pp rs)\<rparr>"
  have c1: "adds (envLib E) P c ?c1" for P
    using rs by (intro adds_subset) (simp_all add: deferred_def tallied_def SetPrePrepare_def)
  from assms(1) rs consider "sendNextRoundChange E c = Some c'"
    | s c2 where "setState (envLib E) s ?c1 = Some c2" "s \<noteq> StateAcceptRequest"
        "SendCommit E c2 = Some c' \<or> SendPrepare E c2 = Some c'"
    by (auto simp: acceptProposal_def acceptPrePrepare_def elim!: bind_SomeE split: if_splits)
  then show ?thesis
  proof cases
    case 1
    then show ?thesis using assms(2) by (rule adds_sendNextRoundChange)
  next
    case (2 s c2)
    have "engaged c2" using kernel_setState [OF 2(1)] 2(2) assms(3) by (simp add: engaged_def ckernel_eq_iff)
    then have "adds (envLib E) (casts E c') c2 c'"
      using 2(3) assms(2) adds_SendCommit adds_SendPrepare by blast
    with adds_setState [OF 2(1)] c1 show ?thesis by (blast intro: adds_trans)
  qed
qed

lemma adds_HandlePrePrepare:
  assumes "HandlePrePrepare E msg val c = Some (e, c')" "codec_ok (envLib E)" "currentRoundState c = Some rs"
  shows "adds (envLib E) (casts E c') c c'"
proof -
  from assms(1) show ?thesis
  proof (cases rule: HandlePrePrepare_cases)
    case (accepted pp p view)
    from accepted(1) have "\<not> waitingForRoundChange c" by (auto elim: checkMessage_None [OF _ assms(3)])
    with accepted(4) assms(2) show ?thesis by (rule adds_acceptProposal)
  next
    case (old pp p view)
    have full: "view_full (ppView pp)"
      using old(2) codec_okD(4) [OF assms(2)] by (fastforce simp: decode_allocates_def)
    from old(1) consider "c' = c" | "broadcastCommit E \<lparr>sbView = ppView pp, Digest = PHash p\<rparr> c = Some c'"
        "beHasProposal (envBackend E) (PHash p) (Height p)"
      by (auto simp: oldPrePrepare_def sendCommitForOldBlock_def elim!: bind_SomeE split: if_splits)
    then show ?thesis
    proof cases
      case 2
      then show ?thesis
        by (intro adds_broadcastCommit [OF 2(1) assms(2)])
          (auto simp: full, auto simp: casts_def ckernelD [OF kernel_broadcastCommit [OF 2(1)]])
    qed simp
  qed simp
qed

lemma adds_HandlePrepare:
  assumes "HandlePrepare E msg val c = Some (e, c')" "codec_ok (envLib E)" "currentRoundState c = Some rs"
  shows "adds (envLib E) (casts E c') c c'"
proof -
  let ?c1 = "c\<lparr>currentRoundState := Some (rs\<lparr>Prepares := snd (ms_Add (Prepares rs) msg)\<rparr>)\<rparr>"
  have c1: "adds (envLib E) P c ?c1" for P
    using assms(3) by (intro adds_subset) (simp_all add: deferred_def tallied_def)
  from assms(1,3) show ?thesis
  proof (cases rule: HandlePrepare_cases)
    case (accepted sub c1)
    from accepted(5) show ?thesis
    proof (elim disjE exE conjE)
      fix c2 c3
      assume c2: "lockHash c1 = Some c2" and c3: "setState (envLib E) StatePrepared c2 = Some c3"
        and send: "SendCommit E c3 = Some c'"
      from accepted(2) have "\<not> waitingForRoundChange c" by (auto elim: checkMessage_None [OF _ assms(3)])
      moreover have "waitingForRoundChange c2 = waitingForRoundChange c"
        using c2 accepted(4) by (auto simp: lockHash_def elim!: bind_SomeE)
      ultimately have "engaged c3" using kernel_setState [OF c3] by (simp add: engaged_def ckernel_eq_iff)
      have "adds (envLib E) (casts E c') c c1" unfolding accepted(4) by (rule c1)
      also have "adds (envLib E) (casts E c') c1 c2" using c2 by (rule adds_lockHash)
      also have "adds (envLib E) (casts E c') c2 c3" using c3 by (rule adds_setState)
      also have "adds (envLib E) (casts E c') c3 c'" using send assms(2) \<open>engaged c3\<close> by (rule adds_SendCommit)
      finally show ?thesis .
    qed (simp add: accepted(4) c1)
  qed simp
qed

lemma adds_commitProposal:
  assumes "commitProposal E c = Some c'" "codec_ok (envLib E)"
  shows "adds (envLib E) P c c'"
proof -
  from assms(1) obtain c1 rs where c1: "setState (envLib E) StateCommitted c = Some c1"
      "currentRoundState c1 = Some rs"
    by (auto simp: commitProposal_def elim!: bind_SomeE)
  have same: "adds (envLib E) P c1 (c1\<lparr>committed := x\<rparr>)"
    "adds (envLib E) P c1 (c1\<lparr>committed := x, currentRoundState := Some (UnlockHash rs)\<rparr>)" for x
    using c1(2) by (auto intro!: adds_subset simp: deferred_def tallied_def UnlockHash_def)
  have "adds (envLib E) P c1 c'"
  proof (cases "ProposalOf rs")
    case None
    with assms(1) c1 show ?thesis by (simp add: commitProposal_def)
  next
    case (Some p)
    let ?seals = "map CommittedSeal (ms_Values (Commits rs))"
    show ?thesis
      using assms(1) c1 Some same adds_trans [OF same(2) adds_sendNextRoundChange [OF _ assms(2)]]
      by (cases "beCommit (envBackend E) p ?seals") (auto simp: commitProposal_def Let_def)
  qed
  with adds_setState [OF c1(1)] show ?thesis by (rule adds_trans)
qed

lemma adds_HandleCommit:
  assumes "HandleCommit E msg val c = Some (e, c')" "codec_ok (envLib E)" "currentRoundState c = Some rs"
  shows "adds (envLib E) (\<lambda>m. m = msg) c c'"
proof -
  let ?P = "\<lambda>m. m = msg"
  let ?c1 = "c\<lparr>currentRoundState := Some (rs\<lparr>Commits := snd (ms_Add (Commits rs) msg)\<rparr>)\<rparr>"
  have c1: "adds (envLib E) ?P c ?c1"
    by (rule adds_tally) (use assms(3) in \<open>auto simp: tallied_def dest: ms_Values_Add\<close>)
  from assms(1,3) show ?thesis
  proof (cases rule: HandleCommit_cases)
    case (accepted sub c1)
    from accepted(5) show ?thesis
    proof (elim disjE exE conjE)
      fix c2
      assume c2: "lockHash c1 = Some c2" and com: "commitProposal E c2 = Some c'"
      have "adds (envLib E) ?P c c1" unfolding accepted(4) by (rule c1)
      also have "adds (envLib E) ?P c1 c2" using c2 by (rule adds_lockHash)
      also have "adds (envLib E) ?P c2 c'" using com assms(2) by (rule adds_commitProposal)
      finally show ?thesis .
    qed (simp add: accepted(4) c1)
  qed simp
qed

lemma adds_HandleRoundChange:
  assumes "HandleRoundChange E msg val c = Some (e, c')" "codec_ok (envLib E)" "currentRoundState c = Some rs"
    "rcSet c = Some rcs"
  shows "adds (envLib E) P c c'"
proof -
  have rc: "adds (envLib E) P c (c\<lparr>rcSet := x\<rparr>)" for x
    by (rule adds_subset) (simp_all add: deferred_def tallied_def)
  from assms(1,3,4) show ?thesis
  proof (cases rule: HandleRoundChange_cases)
    case (counted r num)
    then have "adds (envLib E) P (c\<lparr>rcSet := Some (snd (rcs_Add rcs r msg))\<rparr>) c'"
      using assms(2)
      by (auto simp: countedRoundChange_def elim!: bind_SomeE split: if_splits
          intro: adds_StartNewRound adds_sendRoundChange)
    with rc show ?thesis by (rule adds_trans)
  qed (use rc in auto)
qed

lemma adds_StoreBacklog:
  assumes "StoreBacklog L msg val c = Some c'"
  shows "adds L (\<lambda>m. m = msg) c c'"
proof -
  define old where "old = (case map_of (backlogs c) val of None \<Rightarrow> [] | Some q \<Rightarrow> q)"
  from assms consider "c' = c" | "c' = c\<lparr>backlogs := AList.update val old (backlogs c)\<rparr>"
    | prio where "c' = c\<lparr>backlogs := AList.update val (old @ [(msg, prio)]) (backlogs c)\<rparr>"
    unfolding StoreBacklog_def Let_def prque_Push_def old_def [symmetric]
    by (auto elim!: bind_SomeE split: if_splits option.splits)
  then show ?thesis
  proof cases
    case 2
    then have "c' = c\<lparr>backlogs := AList.update val old (backlogs c)\<rparr>" .
    moreover have "deferred c' \<subseteq> deferred c"
      using 2 by (auto simp: deferred_def old_def split: option.splits dest!: in_update map_of_SomeD)
    ultimately show ?thesis by (intro adds_subset) (simp_all add: tallied_def)
  next
    case (3 prio)
    then have "deferred c' \<subseteq> insert msg (deferred c)"
      by (auto simp: deferred_def old_def split: option.splits dest!: in_update map_of_SomeD)
    then show ?thesis using 3 by (auto simp: adds_def heard_def posted_def tallied_def)
  qed simp
qed

section \<open>Steps of the loop\<close>

lemma adds_handleMsg:
  assumes "handleMsg E msg val c = Some (e, c')" "codec_ok (envLib E)" "currentRoundState c = Some rs"
    "rcSet c = Some rcs"
  shows "adds (envLib E) (\<lambda>m. m = msg \<or> casts E c' m) c c'"
proof -
  let ?P = "\<lambda>m. m = msg \<or> casts E c' m"
  from assms(1) show ?thesis
  proof (cases rule: handleMsg_cases)
    case (handled c1)
    have store: "ckernel c' = ckernel c1" "adds (envLib E) (\<lambda>m. m = msg) c1 c'"
      using handled(2) by (auto split: if_splits intro: adds_StoreBacklog dest: kernel_StoreBacklog)
    have "adds (envLib E) (\<lambda>m. m = msg \<or> casts E c1 m) c c1"
      using handled(1)
    proof (elim disjE conjE)
      assume "HandlePrePrepare E msg val c = Some (e, c1)"
      from adds_HandlePrePrepare [OF this assms(2,3)] show ?thesis by (rule adds_weaken) simp
    next
      assume "HandlePrepare E msg val c = Some (e, c1)"
      from adds_HandlePrepare [OF this assms(2,3)] show ?thesis by (rule adds_weaken) simp
    next
      assume "HandleCommit E msg val c = Some (e, c1)"
      from adds_HandleCommit [OF this assms(2,3)] show ?thesis by (rule adds_weaken) simp
    next
      assume "HandleRoundChange E msg val c = Some (e, c1)"
      from this assms(2-4) show ?thesis by (rule adds_HandleRoundChange)
    qed
    then have "adds (envLib E) ?P c c1" using casts_ckernel [OF store(1)] by simp
    moreover have "adds (envLib E) ?P c1 c'" using store(2) by (rule adds_weaken) simp
    ultimately show ?thesis by (rule adds_trans)
  qed simp
qed

lemma heard_le:
  assumes "set (localMsgCh c') \<subseteq> set (localMsgCh c)" "broadcasts c' = broadcasts c"
    "backlogs c' = backlogs c" "set (backlogCh c') \<subseteq> set (backlogCh c)" "tallied c' = tallied c"
  shows "adds L P c c'"
proof -
  have "posted L c' \<subseteq> posted L c" using assms(1,2) unfolding posted_def by auto
  moreover have "deferred c' \<subseteq> deferred c" using assms(3,4) unfolding deferred_def by auto
  ultimately show ?thesis using assms(5) by (auto simp: adds_def heard_def)
qed

lemma adds_onP2PMsg:
  assumes "onP2PMsg E data c = Some c'" "codec_ok (envLib E)" "currentRoundState c = Some rs"
    "rcSet c = Some rcs"
  shows "adds (envLib E) (\<lambda>m. decodeMessage (envLib E) data = Some m \<or> casts E c' m) c c'"
proof -
  let ?P = "\<lambda>m. decodeMessage (envLib E) data = Some m \<or> casts E c' m"
  from assms(1) obtain d where d: "decodeMsg (envLib E) c data = Some d"
    by (auto simp: onP2PMsg_def elim!: bind_SomeE)
  show ?thesis
  proof (cases d)
    case (Inl e)
    with assms(1) d show ?thesis by (simp add: onP2PMsg_def)
  next
    case (Inr mv)
    obtain m v where mv: "mv = (m, v)" by fastforce
    let ?c0 = "\<lambda>k. (markPeer (envLib E) (ID v) (keccakHash (envLib E) data) c)\<lparr>knownMessages := k\<rparr>"
    have m: "decodeMessage (envLib E) data = Some m" using d Inr mv by (simp add: decodeMsg_Inr)
    have c0: "adds (envLib E) P c (?c0 k)" for k P
      by (rule heard_le) (simp_all add: markPeer_def Let_def tallied_def)
    have rs: "currentRoundState (?c0 k) = Some rs" "rcSet (?c0 k) = Some rcs" for k
      using assms(3,4) by (simp_all add: markPeer_def Let_def)
    from assms(1) d Inr mv consider k where "c' = ?c0 k"
      | k e c2 where "handleMsg E m v (?c0 k) = Some (e, c2)" "c' = c2"
      | k e c2 e' where "handleMsg E m v (?c0 k) = Some (e, c2)" "GossipPayload E data c2 = Some (e', c')"
      by (auto simp: onP2PMsg_def Let_def elim!: bind_SomeE split: if_splits)
    then show ?thesis
    proof cases
      case (2 k e c2)
      have "adds (envLib E) ?P (?c0 k) c'"
        by (rule adds_weaken [OF adds_handleMsg [OF 2(1) assms(2) rs, folded 2(2)]]) (use m in auto)
      with c0 show ?thesis by (rule adds_trans)
    next
      case (3 k e c2 e')
      have same: "casts E c' x = casts E c2 x" for x
        using kernel_GossipPayload [OF 3(2)] by (rule casts_ckernel)
      have "adds (envLib E) ?P (?c0 k) c2"
        by (rule adds_weaken [OF adds_handleMsg [OF 3(1) assms(2) rs]]) (use m same in auto)
      also have "adds (envLib E) ?P c2 c'" by (rule adds_GossipPayload [OF 3(2)]) auto
      finally show ?thesis by (rule adds_trans [OF c0])
    qed (simp add: c0)
  qed
qed

lemma adds_HandleRequest:
  assumes "HandleRequest E r c = Some (e, c')" "codec_ok (envLib E)" "currentRoundState c = Some rs"
  shows "adds (envLib E) P c c'"
proof -
  let ?c1 = "c\<lparr>currentRoundState := Some (rs\<lparr>pendingRequest := Some r\<rparr>)\<rparr>"
  have c1: "adds (envLib E) P c ?c1"
    using assms(3) by (intro adds_subset) (simp_all add: deferred_def tallied_def)
  from assms(1,3) show ?thesis
  proof (cases rule: HandleRequest_cases)
    case sent
    from adds_SendPrePrepare [OF this assms(2)] show ?thesis by (rule adds_trans [OF c1])
  qed (simp_all add: c1)
qed

lemma adds_onRequest:
  assumes "onRequest E r c = Some c'" "codec_ok (envLib E)" "currentRoundState c = Some rs"
  shows "adds (envLib E) P c c'"
proof -
  from assms(1) obtain e c1 where h: "HandleRequest E r c = Some (e, c1)"
      "c' = c1 \<or> StoreRequestMsg r c1 = Some c'"
    by (auto simp: onRequest_def elim!: bind_SomeE split: if_splits)
  have "adds (envLib E) P c1 c'"
    using h(2) by (auto simp: StoreRequestMsg_def deferred_def tallied_def elim!: bind_SomeE intro!: adds_subset)
  with adds_HandleRequest [OF h(1) assms(2,3)] show ?thesis by (rule adds_trans)
qed

lemma adds_handleTimeoutMsg:
  assumes "handleTimeoutMsg E c = Some c'" "codec_ok (envLib E)" "currentRoundState c = Some rs"
  shows "adds (envLib E) P c c'"
proof -
  let ?c1 = "c\<lparr>currentRoundState := Some (rs\<lparr>lockedHash := emptyHash, pendingRequest := None\<rparr>)\<rparr>"
  have "adds (envLib E) P ?c1 c'"
    using handleTimeoutMsg_changes [OF assms(1,3)] assms(2) adds_sendRoundChange adds_sendNextRoundChange adds_StartNewRound by blast
  moreover have "adds (envLib E) P c ?c1"
    using assms(3) by (intro adds_subset) (simp_all add: deferred_def tallied_def)
  ultimately show ?thesis by (rule adds_trans [rotated])
qed

text \<open>The step of a core as a whole: what it holds afterwards was there, or could be delivered, or is
  its own.\<close>

lemma inbox_heard: "m \<in> inbox L D c \<Longrightarrow> Code m = MsgCommit \<Longrightarrow>
    m \<in> heard L c \<or> (\<exists>p. D p \<and> decodeMessage L p = Some m)"
  by (auto simp: inbox_def heard_def posted_def deferred_def)

lemma adds_core_step:
  assumes "core_step_on D Env c c'" "\<And>E. Env E \<Longrightarrow> envLib E = L" "codec_ok L" "currentRoundState c = Some rs"
    "rcSet c = Some rcs"
  shows "adds L (\<lambda>m. (\<exists>p. D p \<and> decodeMessage L p = Some m) \<or> (\<exists>E. Env E \<and> casts E c' m)) c c'"
    (is "adds L ?P c c'")
proof -
  have take: "adds L ?P c c0"
    if "set (localMsgCh c0) \<subseteq> set (localMsgCh c)" "broadcasts c0 = broadcasts c" "backlogs c0 = backlogs c"
      "set (backlogCh c0) \<subseteq> set (backlogCh c)" "currentRoundState c0 = currentRoundState c" for c0
    using that by (intro heard_le) (auto simp: tallied_def)
  have msg: "adds L ?P c c'"
    if E: "Env E" and m: "m \<in> inbox L D c"
      and c0: "adds L ?P c c0" "currentRoundState c0 = Some rs" "rcSet c0 = Some rcs"
      and h: "handleMsg E m v c0 = Some (e, c')" for E m v e c0
  proof -
    have "adds L (\<lambda>x. x = m \<or> casts E c' x) c0 c'"
      using adds_handleMsg [OF h _ c0(2,3)] assms(2) [OF E] assms(3) by simp
    with c0(1) inbox_heard [OF m] E show ?thesis unfolding adds_def heard_def by blast
  qed
  show ?thesis
    using assms(1)
  proof (cases rule: core_step_on.cases)
    case (request E r)
    have "adds L ?P (c\<lparr>requestCh := remove1 r (requestCh c)\<rparr>) c'"
      using adds_onRequest [OF request(3), of rs] assms(2) [OF request(1)] assms(3,4) by simp
    from adds_trans [OF take this] show ?thesis by simp
  next
    case (local_msg E p)
    let ?c0 = "c\<lparr>localMsgCh := remove1 p (localMsgCh c)\<rparr>"
    have c0: "adds L ?P c ?c0" by (rule take) (simp_all add: set_remove1_subset)
    from local_msg(3) consider "c' = ?c0"
      | m v e where "decodeMsg (envLib E) ?c0 p = Some (Inr (m, v))" "handleMsg E m v ?c0 = Some (e, c')"
      by (auto simp: onLocalMsg_def elim!: bind_SomeE split: sum.splits)
    then show ?thesis
    proof cases
      case (2 m v e)
      show ?thesis
        by (rule msg [OF local_msg(1) _ c0 _ _ 2(2)])
          (use decodeMsg_Inr [OF 2(1)] local_msg(2) assms(2) [OF local_msg(1)] assms(4,5) in \<open>auto simp: inbox_def\<close>)
    qed (use c0 in simp)
  next
    case (backlog E b)
    let ?c0 = "c\<lparr>backlogCh := remove1 b (backlogCh c)\<rparr>"
    have c0: "adds L ?P c ?c0" by (rule take) (simp_all add: set_remove1_subset)
    from backlog(3) obtain e where h: "handleMsg E (snd b) (fst b) ?c0 = Some (e, c')"
      by (auto simp: onBacklog_def elim!: bind_SomeE)
    show ?thesis
      by (rule msg [OF backlog(1) _ c0 _ _ h]) (use backlog(2) assms(4,5) in \<open>auto simp: inbox_def\<close>)
  next
    case (final E)
    have "adds L ?P (c\<lparr>finalCommitCh := finalCommitCh c - 1\<rparr>) c'"
      using adds_StartNewRound [OF final(3) [unfolded HandleFinalCommitted_def]] assms(2) [OF final(1)] assms(3)
      by simp
    from adds_trans [OF take this] show ?thesis by simp
  next
    case (p2p E data)
    then show ?thesis
      using adds_onP2PMsg [OF p2p(3) _ assms(4,5)] assms(2) [OF p2p(1)] assms(3) by (auto intro: adds_weaken)
  next
    case (timeout E)
    have "adds L ?P (c\<lparr>timeoutCh := timeoutCh c - 1\<rparr>) c'"
      using adds_handleTimeoutMsg [OF timeout(3), of rs] assms(2) [OF timeout(1)] assms(3,4) by simp
    from adds_trans [OF take this] show ?thesis by simp
  next
    case (call_Request r e)
    then show ?thesis by (intro take) (auto simp: core_Request_def elim!: bind_SomeE split: if_splits)
  qed (rule take; simp add: sendTimeoutEvent_def stopTimer_def RequestTimeout_def FinalCommit_def
      NewChainHead_def Stop_def)+
qed

end
