(* ===== verification/Pbft_Network.thy ===== *)
theory Pbft_Network
  imports Pbft_Provenance
begin

text \<open>
  Several nodes and the network between them. The honest nodes run the core; the rest of the world,
  faulty validators included, may send any bytes, except that it cannot make up a message of an honest
  validator: what is delivered under the name of an honest validator was broadcast by an honest node
  at some time before (which a check of signatures would ensure; \<open>signature_not_checked\<close> shows that the code
  leaves it to the network). The network may lose, delay, reorder and repeat messages. Two honest nodes
  that commit in the same view commit the same block.
\<close>

section \<open>Validators of a height\<close>

text \<open>\<open>V\<close> gives the validators of every height. The backends agree with it, and a core works with the
  validators of its height.\<close>

definition agreed :: "lib \<Rightarrow> (u64 \<Rightarrow> string list) \<Rightarrow> env \<Rightarrow> bool" where
  "agreed L V E \<longleftrightarrow> runs L E \<and>
     (\<forall>lp vs. fst (beLastProposal (envBackend E)) = Some lp \<and> beValidators (envBackend E) lp = Some vs \<longrightarrow>
        ids vs = V (Height lp + 1))"

definition placed :: "(u64 \<Rightarrow> string list) \<Rightarrow> core \<Rightarrow> bool" where
  "placed V c \<longleftrightarrow> (\<exists>vs rs. valSet c = Some vs \<and> currentRoundState c = Some rs \<and>
     ids vs = V (rsSequence rs) \<and> small_seq rs)"

lemma placed_same:
  assumes "placed V c" "valSet c' = valSet c" "currentRoundState c = Some rs"
    "currentRoundState c' = Some rs'" "rsSequence rs' = rsSequence rs"
  shows "placed V c'"
  using assms by (auto simp: placed_def small_seq_def)

lemma placed_ckernel: "ckernel c' = ckernel c \<Longrightarrow> placed V c' = placed V c"
  by (simp add: placed_def ckernel_eq_iff)

lemma placed_round: "placed V c \<Longrightarrow> currentRoundState c = Some rs \<Longrightarrow> small_seq rs"
  by (auto simp: placed_def)

lemma placed_sendRoundChange:
  assumes "sendRoundChange E r c = Some c'" "placed V c"
  shows "placed V c'"
proof -
  obtain vs rs where c: "valSet c = Some vs" "currentRoundState c = Some rs" "small_seq rs"
      "ids vs = V (rsSequence rs)"
    using assms(2) by (auto simp: placed_def)
  have seq: "big_Uint64 (big_of_u64 (rsSequence rs)) = rsSequence rs"
    using c(3) by (simp add: big_Uint64_of_u64 small_seq_def)
  show ?thesis
  proof (cases "rsRound rs < r")
    case True
    with assms(1) c obtain c1 cv1 where
      c1: "catchUpRound E (mkView (big_of_u64 (rsSequence rs)) r) c = Some c1"
      and send: "(case encodeSubject (envLib E) \<lparr>sbView = Some cv1, Digest = emptyHash\<rparr> of
          None \<Rightarrow> ret c1 | Some body \<Rightarrow> Broadcast E (newMsg MsgRoundChange body) c1) = Some c'"
      by (auto simp: sendRoundChange_def currentView_eq elim!: bind_SomeE)
    from send have "ckernel c' = ckernel c1" by (auto split: option.splits dest: kernel_Broadcast)
    moreover from c1 have "placed V c1"
    proof (rule catchUpRound_ckernel)
      fix ws rcs
      assume "valSet c = Some ws" and k: "ckernel c1 = (peerId c, state c, Some ws,
         Some (nextRoundState (envLib E) (big_of_u64 (rsSequence rs)) r ws True (currentRoundState c)), True,
         Some (rcs_Clear rcs r), committed c)"
      then have "valSet c1 = Some vs"
        "currentRoundState c1 = Some (nextRoundState (envLib E) (big_of_u64 (rsSequence rs)) r vs True (currentRoundState c))"
        using c(1) by (simp_all add: ckernel_def)
      then show ?thesis using c(3,4) by (simp add: placed_def small_seq_def seq)
    qed
    ultimately show ?thesis using placed_ckernel by blast
  qed (use assms c in \<open>auto simp: sendRoundChange_def currentView_eq\<close>)
qed

lemma placed_sendNextRoundChange: "sendNextRoundChange E c = Some c' \<Longrightarrow> placed V c \<Longrightarrow> placed V c'"
  by (auto simp: sendNextRoundChange_def elim!: bind_SomeE intro: placed_sendRoundChange)

lemma placed_caught_up:
  assumes "enterRound E (mkView (big_of_u64 (Height lp) + 1) 0) vs x False c = Some c'"
    "fst (beLastProposal (envBackend E)) = Some lp" "beValidators (envBackend E) lp = Some vs" "agreed L V E"
  shows "placed V c'"
proof -
  have "unat (Height lp) < 2 ^ 63 - 1" using assms(2,4) by (simp add: agreed_def runs_def small_heights_def)
  then show ?thesis
    using enterRound_ckernel [OF assms(1)] next_sequence(1,2) assms(2-4)
    by (auto simp: placed_def ckernel_def small_seq_def agreed_def)
qed

lemma placed_StartNewRound:
  assumes "StartNewRound E rnd c = Some c'" "placed V c" "agreed L V E"
  shows "placed V c'"
proof (cases "newRoundKind rnd (fst (beLastProposal (envBackend E))) c")
  case None
  with assms show ?thesis by (simp add: StartNewRound_def case_prod_unfold)
next
  case (Some kc)
  obtain change c0 where kc: "kc = (change, c0)" by fastforce
  obtain vs rs where c: "valSet c = Some vs" "currentRoundState c = Some rs" "small_seq rs"
      "ids vs = V (rsSequence rs)"
    using assms(2) by (auto simp: placed_def)
  show ?thesis
  proof (cases change)
    case True
    with Some kc have c0: "c0 = c" by (auto elim: newRoundKind_change)
    with Some kc True assms(1) c have
      "enterRound E (mkView (big_of_u64 (rsSequence rs)) rnd) vs (snd (beLastProposal (envBackend E))) True c = Some c'"
      by (auto simp: StartNewRound_def case_prod_unfold SequenceOf_def)
    from enterRound_ckernel [OF this] c show ?thesis
      by (auto simp: placed_def ckernel_def small_seq_def big_Uint64_of_u64)
  next
    case False
    with Some kc assms(1) obtain lp :: Proposal and ws where
      lp: "fst (beLastProposal (envBackend E)) = Some lp" "beValidators (envBackend E) lp = Some ws"
        "enterRound E (mkView (big_of_u64 (Height lp) + 1) 0) ws (snd (beLastProposal (envBackend E)))
           False (c0\<lparr>valSet := Some ws\<rparr>) = Some c'"
      by (auto simp: StartNewRound_def case_prod_unfold Let_def elim!: bind_SomeE)
    show ?thesis by (rule placed_caught_up [OF lp(3,1,2) assms(3)])
  qed
qed

lemma placed_acceptProposal:
  assumes "acceptProposal E pp p c = Some c'" "placed V c"
  shows "placed V c'"
proof -
  obtain rs where rs: "currentRoundState c = Some rs" using assms(2) by (auto simp: placed_def)
  from assms(1) rs show ?thesis
  proof (cases rule: acceptProposal_cases)
    case (taken s)
    show ?thesis
      by (rule placed_same [OF assms(2) _ rs, of _ "rs\<lparr>rsPrePrepare := Some pp\<rparr>"])
        (use taken in \<open>simp_all add: ckernel_eq_iff\<close>)
  qed (blast intro: placed_sendNextRoundChange assms(2))
qed

lemma placed_lockHash:
  assumes "lockHash c = Some c'" "placed V c"
  shows "placed V c'"
proof -
  obtain rs where rs: "currentRoundState c = Some rs" using assms(2) by (auto simp: placed_def)
  with assms(1) obtain h where "c' = c\<lparr>currentRoundState := Some (rs\<lparr>lockedHash := h\<rparr>)\<rparr>" by (rule lockHash_frame)
  then show ?thesis using assms(2) rs by (auto simp: placed_def small_seq_def)
qed

lemma placed_commitProposal:
  assumes "commitProposal E c = Some c'" "placed V c"
  shows "placed V c'"
proof -
  from assms(1) obtain c1 rs where c1: "setState (envLib E) StateCommitted c = Some c1"
      "currentRoundState c1 = Some rs"
    by (auto simp: commitProposal_def elim!: bind_SomeE)
  have "placed V c1"
    using assms(2) placed_ckernel [OF kernel_setState [OF c1(1)]] by (simp add: placed_def)
  then have c2: "placed V (c1\<lparr>committed := x\<rparr>)"
    "placed V (c1\<lparr>committed := x, currentRoundState := Some (UnlockHash rs)\<rparr>)" for x
    using c1(2) by (auto simp: placed_def UnlockHash_def small_seq_def)
  show ?thesis
  proof (cases "ProposalOf rs")
    case None
    with assms(1) c1 \<open>placed V c1\<close> show ?thesis by (simp add: commitProposal_def)
  next
    case (Some p)
    then show ?thesis
      using assms(1) c1 c2 placed_sendNextRoundChange [OF _ c2(2)]
      by (cases "beCommit (envBackend E) p (map CommittedSeal (ms_Values (Commits rs)))")
        (auto simp: commitProposal_def Let_def)
  qed
qed

lemma placed_update:
  "placed V c \<Longrightarrow> currentRoundState c = Some rs \<Longrightarrow> rsSequence rs' = rsSequence rs \<Longrightarrow>
     placed V (c\<lparr>currentRoundState := Some rs'\<rparr>)"
  "placed V (c\<lparr>rcSet := x\<rparr>) = placed V c"
  by (auto simp: placed_def small_seq_def)

lemma placed_HandlePrepare:
  assumes "HandlePrepare E msg val c = Some (e, c')" "placed V c" "currentRoundState c = Some rs"
  shows "placed V c'"
  using assms(1,3)
proof (cases rule: HandlePrepare_cases)
  case (accepted sub c1)
  then have c1: "placed V c1" using assms(2,3) by (simp add: placed_update)
  from accepted(5) show ?thesis
  proof (elim disjE exE conjE)
    fix c2 c3
    assume "lockHash c1 = Some c2" and set: "setState (envLib E) StatePrepared c2 = Some c3"
      and send: "SendCommit E c3 = Some c'"
    then have "placed V c2" using c1 by (auto intro: placed_lockHash)
    then show ?thesis
      using kernel_setState [OF set] kernel_SendCommit [OF send] by (simp add: placed_def ckernel_eq_iff)
  qed (simp add: c1)
qed (simp add: assms(2))

lemma placed_HandleCommit:
  assumes "HandleCommit E msg val c = Some (e, c')" "placed V c" "currentRoundState c = Some rs"
  shows "placed V c'"
  using assms(1,3)
proof (cases rule: HandleCommit_cases)
  case (accepted sub c1)
  then have "placed V c1" using assms(2,3) by (simp add: placed_update)
  with accepted(5) show ?thesis by (blast intro: placed_lockHash placed_commitProposal)
qed (simp add: assms(2))

lemma placed_handleMsg:
  assumes "handleMsg E msg val c = Some (e, c')" "placed V c" "agreed L V E" "rcSet c = Some rcs"
  shows "placed V c'"
  using assms(1)
proof (cases rule: handleMsg_cases)
  case (handled c1)
  obtain rs where rs: "currentRoundState c = Some rs" using assms(2) by (auto simp: placed_def)
  from handled(1) have "placed V c1"
  proof (elim disjE conjE)
    assume "HandlePrePrepare E msg val c = Some (e, c1)"
    then show ?thesis
    proof (cases rule: HandlePrePrepare_cases)
      case (old pp p view)
      from placed_ckernel [OF oldPrePrepare_ckernel [OF old(1)]] show ?thesis using assms(2) by simp
    next
      case (accepted pp p view)
      from accepted(4) assms(2) show ?thesis by (rule placed_acceptProposal)
    qed (simp add: assms(2))
  next
    assume "HandlePrepare E msg val c = Some (e, c1)"
    from this assms(2) rs show ?thesis by (rule placed_HandlePrepare)
  next
    assume "HandleCommit E msg val c = Some (e, c1)"
    from this assms(2) rs show ?thesis by (rule placed_HandleCommit)
  next
    assume "HandleRoundChange E msg val c = Some (e, c1)"
    from this rs assms(4) show ?thesis
    proof (cases rule: HandleRoundChange_cases)
      case (counted r num)
      have "placed V (c\<lparr>rcSet := Some (snd (rcs_Add rcs r msg))\<rparr>)" using assms(2) by (simp add: placed_update)
      with counted assms(3) show ?thesis
        by (auto simp: countedRoundChange_def elim!: bind_SomeE split: if_splits
            intro: placed_StartNewRound placed_sendRoundChange)
    qed (use assms(2) in \<open>simp_all add: placed_update\<close>)
  qed
  with placed_ckernel [OF handled_ckernel [OF handled(2)]] show ?thesis by simp
qed (simp add: assms(2))

lemma placed_core_step:
  assumes "core_step_on D Env c c'" "placed V c" "\<And>E. Env E \<Longrightarrow> agreed L V E" "rcSet c = Some rcs"
  shows "placed V c'"
proof -
  obtain rs where rs: "currentRoundState c = Some rs" using assms(2) by (auto simp: placed_def)
  from assms(1) rs show ?thesis
  proof (cases rule: core_step_kernel)
    case (handled E m v e c0 c1)
    have "placed V c0" using placed_ckernel [OF handled(2)] assms(2) by simp
    moreover have "rcSet c0 = Some rcs" using handled(2) assms(4) by (simp add: ckernel_eq_iff)
    ultimately show ?thesis
      using placed_handleMsg [OF handled(3) _ assms(3) [OF handled(1)]] placed_ckernel [OF handled(4)] by simp
  next
    case (final E c0)
    have "placed V c0" using placed_ckernel [OF final(2)] assms(2) by simp
    from placed_StartNewRound [OF final(3) this assms(3) [OF final(1)]] show ?thesis .
  next
    case (timeout E c1)
    have "placed V (c\<lparr>currentRoundState := Some (rs\<lparr>lockedHash := emptyHash, pendingRequest := None\<rparr>)\<rparr>)"
      using assms(2) rs by (rule placed_update) simp
    then have "placed V c1" using placed_ckernel [OF timeout(2)] by simp
    with timeout(3) assms(3) [OF timeout(1)] show ?thesis
      by (auto intro: placed_StartNewRound placed_sendRoundChange placed_sendNextRoundChange)
  next
    case (request r)
    from placed_ckernel [OF this] placed_update(1) [OF assms(2) rs] show ?thesis by simp
  qed (simp add: assms(2) placed_ckernel)
qed

lemma placed_Start:
  assumes "Start E (NewEngine x) = Some c" "agreed L V E"
  shows "placed V c"
proof -
  from assms(1) obtain lp :: Proposal and vs where lp: "fst (beLastProposal (envBackend E)) = Some lp"
      "beValidators (envBackend E) lp = Some vs"
      "enterRound E (mkView (big_of_u64 (Height lp) + 1) 0) vs (snd (beLastProposal (envBackend E)))
         False ((NewEngine x)\<lparr>valSet := Some vs\<rparr>) = Some c"
    by (auto simp: Start_def StartNewRound_def newRoundKind_def NewEngine_def case_prod_unfold Let_def
        elim!: bind_SomeE)
  show ?thesis by (rule placed_caught_up [OF lp(3,1,2) assms(2)])
qed

section \<open>Runs of the network\<close>

type_synonym net = "string \<Rightarrow> core"

definition sent :: "core \<Rightarrow> bytes set" where
  "sent c = snd ` set (broadcasts c)"

definition deliverable :: "lib \<Rightarrow> string set \<Rightarrow> net list \<Rightarrow> bytes \<Rightarrow> bool" where
  "deliverable L H Ns data \<longleftrightarrow> (\<forall>m. decodeMessage L data = Some m \<and> MsgValidator m \<in> H \<longrightarrow>
     (\<exists>N \<in> set Ns. \<exists>y \<in> H. data \<in> sent (N y)))"

text \<open>A run lists the states of the network, the latest first. Every honest node starts, and then one of
  them at a time takes a step.\<close>

inductive net_run :: "lib \<Rightarrow> (env \<Rightarrow> bool) \<Rightarrow> string set \<Rightarrow> net list \<Rightarrow> bool" for L Env H where
  start: "(\<And>x. x \<in> H \<Longrightarrow> \<exists>E. Env E \<and> Start E (NewEngine x) = Some (N x)) \<Longrightarrow> net_run L Env H [N]"
| step: "net_run L Env H (N # Ns) \<Longrightarrow> x \<in> H \<Longrightarrow>
     core_step_on (deliverable L H (N # Ns)) Env (N x) c' \<Longrightarrow> net_run L Env H (N(x := c') # N # Ns)"

inductive_cases net_runE: "net_run L Env H Ns"

text \<open>What is kept along a run: each honest core is in a good state and never went back.\<close>

definition node_ok :: "lib \<Rightarrow> (u64 \<Rightarrow> string list) \<Rightarrow> string \<Rightarrow> core \<Rightarrow> bool" where
  "node_ok L V x c \<longleftrightarrow> engine_inv L x c \<and> placed V c"

lemma node_ok_step:
  assumes "core_step_on D Env c c'" "node_ok L V x c" "\<And>E. Env E \<Longrightarrow> agreed L V E"
  shows "node_ok L V x c' \<and> forward c c' \<and> good_step L (inbox L D c) c c'"
proof -
  have "core_step_on D (runs L) c c'"
    using assms(1) by (rule core_step_on_mono) (use assms(3) in \<open>auto simp: agreed_def\<close>)
  then have good: "good_step L (inbox L D c) c c'" "advance c c'"
    using core_step_good assms(2) by (auto simp: node_ok_def)
  obtain rcs where "rcSet c = Some rcs"
    using assms(2) by (auto simp: node_ok_def engine_inv_def elim: core_invE)
  then have "placed V c'" using placed_core_step [OF assms(1) _ assms(3)] assms(2) by (auto simp: node_ok_def)
  with good assms(2) show ?thesis
    by (auto simp: node_ok_def engine_inv_def good_step_def advance_def forward_def)
qed

lemma node_ok_start:
  assumes "Start E (NewEngine x) = Some c" "agreed L V E"
  shows "node_ok L V x c" "committed c = []" "codec_ok L \<Longrightarrow> heard L c = {}"
proof -
  have "started L x c" using assms by (auto simp: started_def agreed_def)
  then show "node_ok L V x c" "committed c = []"
    using started_inv placed_Start [OF assms] by (auto simp: node_ok_def)
  assume "codec_ok L"
  then have "adds L (\<lambda>m. False) (NewEngine x) c"
    using adds_StartNewRound [OF assms(1) [unfolded Start_def]] assms(2) by (auto simp: agreed_def runs_def)
  then show "heard L c = {}"
    by (auto simp: adds_def heard_def posted_def deferred_def tallied_def NewEngine_def)
qed

lemma forward_self: "node_ok L V x c \<Longrightarrow> forward c c"
  by (auto simp: node_ok_def engine_inv_def intro: forward_refl)

lemma net_run_nodes:
  assumes "net_run L Env H Ns" "\<And>E. Env E \<Longrightarrow> agreed L V E"
  shows "Ns \<noteq> [] \<and> (\<forall>x \<in> H. (\<forall>N \<in> set Ns. node_ok L V x (N x)) \<and>
     sorted_wrt (\<lambda>N N'. forward (N' x) (N x)) Ns)"
  using assms(1)
proof (induction rule: net_run.induct)
  case (start N)
  then show ?case using node_ok_start(1) assms(2) by (fastforce simp: sorted_wrt1)
next
  case (step N Ns x c')
  have c': "node_ok L V x c' \<and> forward (N x) c'"
    using node_ok_step [OF step.hyps(3) _ assms(2)] step by auto
  have "node_ok L V y ((N(x := c')) y) \<and> forward (N' y) ((N(x := c')) y)" if "y \<in> H" "N' \<in> set (N # Ns)" for y N'
  proof -
    have y: "node_ok L V y (N y)" "forward (N' y) (N y)"
      using step.IH that forward_self [of L V y "N y"] by (auto simp: sorted_wrt.simps)
    then show ?thesis using c' forward_trans by (cases "y = x") auto
  qed
  then show ?case using step.IH c' by (auto simp: sorted_wrt.simps)
qed

lemma net_run_ordered:
  assumes "net_run L Env H Ns" "\<And>E. Env E \<Longrightarrow> agreed L V E" "x \<in> H" "N \<in> set Ns" "N' \<in> set Ns"
  shows "forward (N x) (N' x) \<or> forward (N' x) (N x)"
proof -
  have ok: "node_ok L V x (N x)" "sorted_wrt (\<lambda>N N'. forward (N' x) (N x)) Ns"
    using net_run_nodes [OF assms(1,2)] assms(3,4) by auto
  show ?thesis
  proof (cases "N = N'")
    case True
    then show ?thesis using forward_self [OF ok(1)] by simp
  next
    case False
    with assms(4,5) obtain i j where ij: "i < length Ns" "j < length Ns" "Ns ! i = N" "Ns ! j = N'" "i \<noteq> j"
      by (metis in_set_conv_nth)
    with ok(2) show ?thesis by (auto simp: sorted_wrt_iff_nth_less neq_iff)
  qed
qed

section \<open>Every vote has its voter\<close>

text \<open>A vote of an honest validator that is found anywhere was cast by it in some state of the run, or is
  for a block of the chain.\<close>

definition traced :: "lib \<Rightarrow> (env \<Rightarrow> bool) \<Rightarrow> net list \<Rightarrow> Message \<Rightarrow> bool" where
  "traced L Env Ns m \<longleftrightarrow> (\<exists>sub. decodeSubject L (Msg m) = Some (Some sub) \<and>
     ((\<exists>N \<in> set Ns. ballot (N (MsgValidator m)) sub) \<or>
      (\<exists>E n. Env E \<and> beHasProposal (envBackend E) (Digest sub) n)))"

lemma traced_mono: "traced L Env Ns m \<Longrightarrow> set Ns \<subseteq> set Ns' \<Longrightarrow> traced L Env Ns' m"
  unfolding traced_def by blast

definition honest_votes :: "lib \<Rightarrow> (env \<Rightarrow> bool) \<Rightarrow> string set \<Rightarrow> net list \<Rightarrow> Message set \<Rightarrow> bool" where
  "honest_votes L Env H Ns M \<longleftrightarrow> (\<forall>m \<in> M. MsgValidator m \<in> H \<longrightarrow> traced L Env Ns m)"

lemma honest_votes_mono:
  "honest_votes L Env H Ns M \<Longrightarrow> set Ns \<subseteq> set Ns' \<Longrightarrow> M' \<subseteq> M \<Longrightarrow> honest_votes L Env H Ns' M'"
  by (auto simp: honest_votes_def intro: traced_mono)

lemma deliverable_votes:
  assumes "\<forall>N \<in> set Ns. \<forall>y \<in> H. honest_votes L Env H Ns (heard L (N y))" "deliverable L H Ns data"
    "decodeMessage L data = Some m" "Code m = MsgCommit" "MsgValidator m \<in> H"
  shows "traced L Env Ns m"
proof -
  from assms(2,3,5) obtain N y where "N \<in> set Ns" "y \<in> H" "data \<in> sent (N y)" by (auto simp: deliverable_def)
  with assms(3,4) have "m \<in> heard L (N y)" by (auto simp: heard_def posted_def sent_def)
  with assms(1,5) \<open>N \<in> set Ns\<close> \<open>y \<in> H\<close> show ?thesis by (auto simp: honest_votes_def)
qed

lemma net_run_traced:
  assumes "net_run L Env H Ns" "\<And>E. Env E \<Longrightarrow> agreed L V E" "codec_ok L"
  shows "\<forall>N \<in> set Ns. \<forall>x \<in> H. honest_votes L Env H Ns (heard L (N x))"
  using assms(1)
proof (induction rule: net_run.induct)
  case (start N)
  then show ?case using node_ok_start(3) assms(2,3) by (fastforce simp: honest_votes_def)
next
  case (step N Ns x c')
  let ?Ns = "N(x := c') # N # Ns"
  have ok: "node_ok L V x (N x)" using net_run_nodes [OF step.hyps(1) assms(2)] step.hyps(2) by auto
  then obtain rs rcs where rs: "currentRoundState (N x) = Some rs" "rcSet (N x) = Some rcs"
    by (auto simp: node_ok_def engine_inv_def elim: core_invE)
  have id: "peerId c' = x"
    using node_ok_step [OF step.hyps(3) ok assms(2)] by (auto simp: node_ok_def engine_inv_def)
  have "traced L Env ?Ns m" if m: "m \<in> heard L c'" "MsgValidator m \<in> H" for m
  proof -
    have lib: "envLib E = L" if "Env E" for E using assms(2) [OF that] by (simp add: agreed_def runs_def)
    have "Code m = MsgCommit" using m(1) by (simp add: heard_def)
    moreover have "m \<in> heard L (N x) \<or>
        (\<exists>p. deliverable L H (N # Ns) p \<and> decodeMessage L p = Some m) \<or> (\<exists>E. Env E \<and> casts E c' m)"
      using adds_core_step [OF step.hyps(3) lib assms(3) rs] m(1) by (auto simp: adds_def)
    ultimately consider "traced L Env (N # Ns) m" | E where "Env E" "casts E c' m"
      using deliverable_votes [OF step.IH] step.IH step.hyps(2) m(2) by (auto simp: honest_votes_def)
    then show ?thesis
    proof cases
      case 1
      then show ?thesis by (rule traced_mono) auto
    next
      case (2 E)
      then show ?thesis using id lib by (auto simp: casts_def traced_def)
    qed
  qed
  then have new: "honest_votes L Env H ?Ns (heard L c')" by (simp add: honest_votes_def)
  have old: "honest_votes L Env H ?Ns (heard L (N' y))" if "N' \<in> set (N # Ns)" "y \<in> H" for N' y
    by (rule honest_votes_mono [of L Env H "N # Ns" "heard L (N' y)"]) (use step.IH that in auto)
  show ?case using new old by auto
qed

section \<open>Agreement\<close>

text \<open>A core that has voted in a view does not vote for another block in it.\<close>

lemma ballot_once:
  assumes "forward c c'" "ballot c sub" "ballot c' sub'" "sbView sub = sbView sub'"
  shows "sub = sub'"
proof -
  from assms(1) obtain rs rs' where rs: "currentRoundState c = Some rs" "currentRoundState c' = Some rs'"
      "pos rs < pos rs' \<or> pos rs = pos rs' \<and> (engaged c \<longrightarrow> rsPrePrepare rs' = rsPrePrepare rs)"
    by (auto simp: forward_def)
  from assms(2,3) rs(1,2) have sub: "SubjectOf rs = Some (Some sub)" "SubjectOf rs' = Some (Some sub')" "engaged c"
    by (auto simp: ballot_def)
  then have view: "sbView sub = Some (mkView (big_of_u64 (rsSequence rs)) (rsRound rs))"
    "sbView sub' = Some (mkView (big_of_u64 (rsSequence rs')) (rsRound rs'))"
    by (auto simp: SubjectOf_def elim!: bind_SomeE split: option.splits)
  then have "pos rs = pos rs'" using assms(4) by (simp add: pos_def)
  then have "rsPrePrepare rs' = rsPrePrepare rs" using rs(3) sub(3) by auto
  with sub(1,2) view assms(4) show ?thesis
    by (auto simp: SubjectOf_def elim!: bind_SomeE split: option.splits)
qed

text \<open>Two certificates of one view, with messages of which honest validators sent at most one, are for
  one block.\<close>

lemma certificates_agree:
  assumes "commit_cert L vs \<lparr>sbView = Some v, Digest = d\<rparr> ms" "commit_cert L vs \<lparr>sbView = Some v, Digest = d'\<rparr> ms'"
    "quorum_sized vs" "finite B" "int (card B) \<le> FaultTolerantNum vs"
    "\<And>m m'. m \<in> set ms \<Longrightarrow> m' \<in> set ms' \<Longrightarrow> MsgValidator m = MsgValidator m' \<Longrightarrow> MsgValidator m \<notin> B \<Longrightarrow>
       decodeSubject L (Msg m) = decodeSubject L (Msg m')"
  shows "d = d'"
proof -
  let ?P = "set (map MsgValidator ms)" and ?Q = "set (map MsgValidator ms')"
  have sub: "?P \<subseteq> set (ids vs)" "?Q \<subseteq> set (ids vs)" using assms(1,2) by (simp_all add: commit_cert_def)
  have "card ?P = length ms" "card ?Q = length ms'"
    using assms(1,2) distinct_card [of "map MsgValidator ms"] distinct_card [of "map MsgValidator ms'"]
    by (simp_all add: commit_cert_def)
  then have "reachThreshold vs (int (card ?P))" "reachThreshold vs (int (card ?Q))"
    using assms(1,2) by (simp_all add: commit_cert_def)
  from vsq.honest_intersection [OF assms(3) sub this assms(4,5)] obtain x where "x \<in> ?P" "x \<in> ?Q" "x \<notin> B" by blast
  then obtain m m' where m: "m \<in> set ms" "m' \<in> set ms'" "MsgValidator m = MsgValidator m'" "MsgValidator m \<notin> B" by auto
  with assms(6) have "decodeSubject L (Msg m) = decodeSubject L (Msg m')" by blast
  moreover have "decodeSubject L (Msg m) = Some (Some \<lparr>sbView = Some v, Digest = d\<rparr>)"
    "decodeSubject L (Msg m') = Some (Some \<lparr>sbView = Some v, Digest = d'\<rparr>)"
    using assms(1,2) m(1,2) by (auto simp: commit_cert_def)
  ultimately show ?thesis by simp
qed

lemma commit_cert_ids: "ids vs = ids ws \<Longrightarrow> commit_cert L vs sub ms = commit_cert L ws sub ms"
  using reachThreshold_ids [of vs ws] by (simp add: commit_cert_def)

text \<open>The validators in whose name a proposal of view \<open>v\<close> is committed.\<close>

abbreviation view_validators :: "(u64 \<Rightarrow> string list) \<Rightarrow> View \<Rightarrow> string list" where
  "view_validators V v \<equiv> V (big_Uint64 (the (Sequence v)))"

definition justified_by ::
  "lib \<Rightarrow> (env \<Rightarrow> bool) \<Rightarrow> (u64 \<Rightarrow> string list) \<Rightarrow> string set \<Rightarrow> net list \<Rightarrow> View \<Rightarrow> Hash \<Rightarrow> bool" where
  "justified_by L Env V H Ns v d \<longleftrightarrow> (\<exists>vs ms. ids vs = view_validators V v \<and>
     commit_cert L vs \<lparr>sbView = Some v, Digest = d\<rparr> ms \<and> honest_votes L Env H Ns (set ms))"

lemma justified_by_mono:
  "justified_by L Env V H Ns v d \<Longrightarrow> set Ns \<subseteq> set Ns' \<Longrightarrow> justified_by L Env V H Ns' v d"
  unfolding justified_by_def by (blast intro: honest_votes_mono)

lemma net_run_justified:
  assumes "net_run L Env H Ns" "\<And>E. Env E \<Longrightarrow> agreed L V E" "codec_ok L"
  shows "\<forall>x \<in> H. \<forall>(v, p, seals) \<in> set (committed (hd Ns x)). justified_by L Env V H Ns v (PHash p)"
  using assms(1)
proof (induction rule: net_run.induct)
  case (start N)
  then show ?case using node_ok_start(2) assms(2) by fastforce
next
  case (step N Ns x c')
  let ?Ns = "N(x := c') # N # Ns"
  have old: "justified_by L Env V H ?Ns v (PHash p)" if "y \<in> H" "(v, p, seals) \<in> set (committed (N y))" for y v p seals
    by (rule justified_by_mono [of L Env V H "N # Ns"]) (use step.IH that in auto)
  have ok: "node_ok L V x (N x)" using net_run_nodes [OF step.hyps(1) assms(2)] step.hyps(2) by auto
  have "cert_step L (inbox L (deliverable L H (N # Ns)) (N x)) (N x) c'"
    using node_ok_step [OF step.hyps(3) ok assms(2)] by (auto simp: good_step_def)
  then consider "committed c' = committed (N x)"
    | v p ms vs where "committed c' = committed (N x) @ [(v, p, map CommittedSeal ms)]"
        "valSet (N x) = Some vs" "currentView (N x) = Some v"
        "commit_cert L vs \<lparr>sbView = Some v, Digest = PHash p\<rparr> ms"
        "set ms \<subseteq> tallied (N x) \<union> inbox L (deliverable L H (N # Ns)) (N x)"
    unfolding cert_step_def by blast
  then have "\<forall>(v, p, seals) \<in> set (committed c'). justified_by L Env V H ?Ns v (PHash p)"
  proof cases
    case 1
    then show ?thesis using old step.hyps(2) by auto
  next
    case (2 v p ms vs)
    note traced = net_run_traced [OF step.hyps(1) assms(2,3)]
    have "traced L Env (N # Ns) m" if m: "m \<in> set ms" "MsgValidator m \<in> H" for m
    proof -
      have com: "Code m = MsgCommit" using 2(4) m(1) by (simp add: commit_cert_def)
      have "m \<in> heard L (N x) \<or> (\<exists>p. deliverable L H (N # Ns) p \<and> decodeMessage L p = Some m)"
        using 2(5) m(1) com inbox_heard by (fastforce simp: heard_def)
      then show ?thesis
        using traced step.hyps(2) m(2) com deliverable_votes [OF traced] by (auto simp: honest_votes_def)
    qed
    then have "honest_votes L Env H (N # Ns) (set ms)" by (simp add: honest_votes_def)
    then have "honest_votes L Env H ?Ns (set ms)" by (rule honest_votes_mono) auto
    moreover obtain rs where rs: "currentRoundState (N x) = Some rs" "ids vs = V (rsSequence rs)" "small_seq rs"
      using ok 2(2) by (auto simp: node_ok_def placed_def)
    moreover have "view_validators V v = V (rsSequence rs)"
      using 2(3) currentView_eq [OF rs(1)] rs(3) by (auto simp: small_seq_def big_Uint64_of_u64)
    ultimately have "justified_by L Env V H ?Ns v (PHash p)" using 2(4) unfolding justified_by_def by auto
    then show ?thesis using old step.hyps(2) 2(1) by auto
  qed
  then show ?case using old by auto
qed

text \<open>C2: agreement. In a run of the network, two honest nodes that commit in the same view commit the
  same block. The validators of the height are few enough or of a number at which the threshold is a
  quorum, fewer than a third of them are faulty, and neither block is yet in the chain of an honest node
  (a node answers a pre-prepare for a block of its chain with a commit for any earlier view).\<close>

theorem agreement_in_view:
  assumes "net_run L Env H (N # Ns)" "\<forall>E. Env E \<longrightarrow> agreed L V E" "codec_ok L"
    and "x \<in> H" "y \<in> H" "(v, p, seals) \<in> set (committed (N x))" "(v, p', seals') \<in> set (committed (N y))"
    and "distinct (view_validators V v)" "length (view_validators V v) \<le> 3 \<or> length (view_validators V v) mod 3 = 1"
    and "3 * card (set (view_validators V v) - H) < length (view_validators V v)"
    and "\<forall>E h n. Env E \<and> beHasProposal (envBackend E) h n \<longrightarrow> h \<noteq> PHash p \<and> h \<noteq> PHash p'"
  shows "PHash p = PHash p'"
proof -
  note agreed = assms(2) [rule_format]
  note just = net_run_justified [OF assms(1) agreed assms(3)]
  from just assms(4-7) have "justified_by L Env V H (N # Ns) v (PHash p)"
    "justified_by L Env V H (N # Ns) v (PHash p')" by fastforce+
  then obtain vs ms vs' ms' where vs: "ids vs = view_validators V v" "ids vs' = view_validators V v"
      and "commit_cert L vs \<lparr>sbView = Some v, Digest = PHash p\<rparr> ms"
      and "commit_cert L vs' \<lparr>sbView = Some v, Digest = PHash p'\<rparr> ms'"
      and votes: "honest_votes L Env H (N # Ns) (set ms)" "honest_votes L Env H (N # Ns) (set ms')"
    by (auto simp: justified_by_def)
  then have cert: "commit_cert L vs \<lparr>sbView = Some v, Digest = PHash p\<rparr> ms"
      "commit_cert L vs \<lparr>sbView = Some v, Digest = PHash p'\<rparr> ms'"
    using commit_cert_ids [of vs' vs] by simp_all
  let ?B = "set (ids vs) - H"
  have "length (ids vs) mod 3 = 1 \<Longrightarrow> int (length (ids vs)) mod 3 = 1" by presburger
  then have size: "quorum_sized vs" "int (card ?B) \<le> FaultTolerantNum vs"
    using assms(8-10) vs(1) by (auto simp: quorum_sized_def Size_ids FaultTolerantNum_div)
  have "decodeSubject L (Msg m) = decodeSubject L (Msg m')"
    if m: "m \<in> set ms" "m' \<in> set ms'" "MsgValidator m = MsgValidator m'" "MsgValidator m \<notin> ?B" for m m'
  proof -
    let ?s = "\<lparr>sbView = Some v, Digest = PHash p\<rparr>" and ?s' = "\<lparr>sbView = Some v, Digest = PHash p'\<rparr>"
    have dec: "decodeSubject L (Msg m) = Some (Some ?s)" "decodeSubject L (Msg m') = Some (Some ?s')"
      and h: "MsgValidator m \<in> H" using cert m by (auto simp: commit_cert_def)
    with votes m have "traced L Env (N # Ns) m" "traced L Env (N # Ns) m'" by (auto simp: honest_votes_def)
    then obtain N1 N2 where N: "N1 \<in> set (N # Ns)" "N2 \<in> set (N # Ns)"
        and b: "ballot (N1 (MsgValidator m)) ?s" "ballot (N2 (MsgValidator m)) ?s'"
      using dec m(3) assms(11) by (fastforce simp: traced_def)
    from net_run_ordered [OF assms(1) agreed h N] have "?s = ?s'"
    proof
      assume "forward (N1 (MsgValidator m)) (N2 (MsgValidator m))"
      from ballot_once [OF this b] show ?thesis by simp
    next
      assume "forward (N2 (MsgValidator m)) (N1 (MsgValidator m))"
      from ballot_once [OF this b(2,1)] show ?thesis by simp
    qed
    then show ?thesis using dec by simp
  qed
  then show ?thesis using certificates_agree [OF cert size(1) _ size(2)] by blast
qed

end
