(* ===== verification/Pbft_Run.thy ===== *)
theory Pbft_Run
  imports Pbft_Loop Pbft_Example
begin

text \<open>
  Scripts of inputs as runs of the transition system. The states of the example run \<open>exRun\<close> are reachable, and
  the last of them has committed a block.
\<close>

lemma exEnv_runs: "runs exLib (exEnv xs)"
  by (simp add: runs_def exLib_ok exEnv_def small_heights_def exBlock_def)


section \<open>Scripts\<close>

text \<open>Inputs a core can take, and the steps they are.\<close>

datatype input = Ask Proposal | TakeRequest | TakeLocal | Deliver bytes | Expire | TakeTimeout

fun take_input :: "env \<Rightarrow> input \<Rightarrow> core \<Rightarrow> core go" where
  "take_input E (Ask p) c = map_option snd (core_Request \<lparr>rqProposal = Some p\<rparr> c)"
| "take_input E TakeRequest c = exTake E c"
| "take_input E TakeLocal c = exLocal E c"
| "take_input E (Deliver d) c = onP2PMsg E d c"
| "take_input E Expire c =
     (case roundChangeTimer c of None \<Rightarrow> None | Some _ \<Rightarrow> Some (sendTimeoutEvent (stopTimer c)))"
| "take_input E TakeTimeout c =
     (if 0 < timeoutCh c then handleTimeoutMsg E (c\<lparr>timeoutCh := timeoutCh c - 1\<rparr>) else None)"

fun take_inputs :: "env \<Rightarrow> input list \<Rightarrow> core \<Rightarrow> core go" where
  "take_inputs E [] c = ret c"
| "take_inputs E (i # js) c = do { c' \<leftarrow> take_input E i c; take_inputs E js c' }"

lemma take_input_step:
  assumes "take_input E i c = Some c'" "Env E" "\<And>d. i = Deliver d \<Longrightarrow> D d"
  shows "core_step_on D Env c c'"
proof (cases i)
  case (Ask p)
  then show ?thesis using assms(1) by (auto intro: core_step_on.call_Request)
next
  case TakeRequest
  then show ?thesis
    using assms(1,2) by (auto simp: exTake_def split: list.splits intro!: core_step_on.request [where Env = Env])
next
  case TakeLocal
  then show ?thesis
    using assms(1,2) by (auto simp: exLocal_def split: list.splits intro!: core_step_on.local_msg [where Env = Env])
next
  case (Deliver d)
  then show ?thesis using assms by (auto intro: core_step_on.p2p)
next
  case Expire
  then show ?thesis using assms(1) by (auto split: option.splits intro: core_step_on.timer)
next
  case TakeTimeout
  then show ?thesis using assms(1,2) by (auto split: if_splits intro: core_step_on.timeout)
qed

lemma take_inputs_steps: "take_inputs E js c = Some c' \<Longrightarrow> Env E \<Longrightarrow> (core_step Env)\<^sup>*\<^sup>* c c'"
proof (induction js arbitrary: c)
  case (Cons i js)
  then obtain c1 where c1: "take_input E i c = Some c1" "take_inputs E js c1 = Some c'" by (auto elim!: bind_SomeE)
  have "core_step Env c c1" by (rule take_input_step [where Env = Env, OF c1(1) Cons.prems(2)]) simp
  also have "(core_step Env)\<^sup>*\<^sup>* c1 c'" using c1(2) Cons.prems(2) by (rule Cons.IH)
  finally (converse_rtranclp_into_rtranclp) show ?case .
qed simp

section \<open>The example run\<close>

lemma exRun_inputs:
  "exRun c = take_inputs (exEnv [''a'']) [Ask (exBlock 5), TakeRequest, TakeLocal, TakeLocal, TakeLocal] c"
proof -
  have "exAsk c = map_option snd (core_Request \<lparr>rqProposal = Some (exBlock 5)\<rparr> c)"
    by (simp add: exAsk_def exRequest_def split: option.splits)
  then show ?thesis by (simp add: exRun_def cong: Option.bind_cong)
qed

lemma exRun_steps: "exRun c = Some c' \<Longrightarrow> (core_step (runs exLib))\<^sup>*\<^sup>* c c'"
  unfolding exRun_inputs by (erule take_inputs_steps [where Env = "runs exLib"]) (rule exEnv_runs)

lemma exStart_started: "started exLib ''a'' exStart"
  using exStart_Start exEnv_runs by (auto simp: started_def)

text \<open>A reachable state with an entry in its log.\<close>

lemma ex_commit:
  obtains c where "(core_step (runs exLib))\<^sup>*\<^sup>* exStart c"
    "committed c = [(mkView 5 0, exBlock 5, [Some [7]])]"
  using exRun_log exRun_steps [of exStart] by (auto simp: map_option_case split: option.splits)

end
