(* ===== verification/Pbft_Fork.thy ===== *)
theory Pbft_Fork
  imports Pbft_Network Pbft_Run
begin

text \<open>
  Runs of a network of four validators, given by a script of inputs for each of them, in phases. In the first, two
  validators commit the same block, as \<open>agreement_in_view\<close> says they must. In the second, messages are late:
  one validator commits a block in round 0, the others time out, drop their locks and commit another
  block at the same height in round 1. No validator is faulty in either run.
\<close>

section \<open>Scripts\<close>

text \<open>A script has phases; \<open>node_run\<close> gives the states between them.\<close>

fun node_run :: "env \<Rightarrow> input list list \<Rightarrow> core \<Rightarrow> core list go" where
  "node_run E [] c = ret [c]"
| "node_run E (js # jss) c = do { c' \<leftarrow> take_inputs E js c; cs \<leftarrow> node_run E jss c'; ret (c # cs) }"

lemma node_run_states:
  "node_run E jss c = Some cs \<Longrightarrow> cs ! 0 = c \<and> length cs = Suc (length jss) \<and>
     (\<forall>i < length jss. take_inputs E (jss ! i) (cs ! i) = Some (cs ! Suc i))"
proof (induction jss arbitrary: c cs)
  case (Cons js jss)
  then obtain c' cs' where "take_inputs E js c = Some c'" "node_run E jss c' = Some cs'" "cs = c # cs'"
    by (auto elim!: bind_SomeE)
  with Cons.IH [of c' cs'] show ?case by (auto simp: nth_Cons split: nat.splits)
qed auto

lemma deliverable_mono: "deliverable L H Ns d \<Longrightarrow> set Ns \<subseteq> set Ns' \<Longrightarrow> deliverable L H Ns' d"
  unfolding deliverable_def by blast

lemma node_inputs:
  assumes "net_run L Env H (N # Ns)" "x \<in> H" "Env E" "take_inputs E js (N x) = Some c'"
    "\<And>d. Deliver d \<in> set js \<Longrightarrow> deliverable L H (N # Ns) d"
  shows "\<exists>Ns'. net_run L Env H (N(x := c') # Ns') \<and> set (N # Ns) \<subseteq> set (N(x := c') # Ns')"
  using assms(1,4,5)
proof (induction js arbitrary: N Ns)
  case Nil
  then have "N(x := c') = N" by auto
  with Nil show ?case by auto
next
  case (Cons i js)
  from Cons.prems(2) obtain c1 where c1: "take_input E i (N x) = Some c1" "take_inputs E js c1 = Some c'"
    by (auto elim!: bind_SomeE)
  have "core_step_on (deliverable L H (N # Ns)) Env (N x) c1"
    by (rule take_input_step [where Env = Env, OF c1(1) assms(3)]) (use Cons.prems(3) in auto)
  with Cons.prems(1) assms(2) have run: "net_run L Env H (N(x := c1) # N # Ns)" by (rule net_run.step)
  have "deliverable L H (N(x := c1) # N # Ns) d" if "Deliver d \<in> set js" for d
    by (rule deliverable_mono [OF Cons.prems(3)]) (use that in auto)
  moreover have "take_inputs E js ((N(x := c1)) x) = Some c'" using c1(2) by simp
  ultimately obtain Ns' where "net_run L Env H ((N(x := c1))(x := c') # Ns')"
      "set (N(x := c1) # N # Ns) \<subseteq> set ((N(x := c1))(x := c') # Ns')"
    using Cons.IH [OF run] by blast
  then show ?case unfolding fun_upd_upd using set_subset_Cons subset_trans by metis
qed

text \<open>A phase: some nodes take inputs that were sent before it.\<close>

lemma net_phase:
  assumes "set xs \<subseteq> H" "distinct xs" "net_run L Env H (N # Ns)" "Env E"
    "\<And>x. x \<in> set xs \<Longrightarrow> take_inputs E (inp x) (N x) = Some (c' x)"
    "\<And>x d. x \<in> set xs \<Longrightarrow> Deliver d \<in> set (inp x) \<Longrightarrow> deliverable L H (N # Ns) d"
  shows "\<exists>Ns'. net_run L Env H ((\<lambda>x. if x \<in> set xs then c' x else N x) # Ns')"
  using assms
proof (induction xs arbitrary: N Ns)
  case Nil
  then show ?case by auto
next
  case (Cons x xs)
  obtain Ns1 where N1: "net_run L Env H (N(x := c' x) # Ns1)" "set (N # Ns) \<subseteq> set (N(x := c' x) # Ns1)"
    using node_inputs [OF Cons.prems(3) _ Cons.prems(4)] Cons.prems(1,5,6) by (metis list.set_intros(1) subsetD)
  have "\<exists>Ns'. net_run L Env H ((\<lambda>y. if y \<in> set xs then c' y else (N(x := c' x)) y) # Ns')"
  proof (rule Cons.IH [OF _ _ N1(1)])
    show "take_inputs E (inp y) ((N(x := c' x)) y) = Some (c' y)" if "y \<in> set xs" for y
      using Cons.prems(2,5) that by auto
    show "deliverable L H (N(x := c' x) # Ns1) d" if "y \<in> set xs" "Deliver d \<in> set (inp y)" for y d
      by (rule deliverable_mono [OF Cons.prems(6) N1(2)]) (use that in auto)
  qed (use Cons.prems in auto)
  moreover have "(\<lambda>y. if y \<in> set xs then c' y else (N(x := c' x)) y) = (\<lambda>y. if y \<in> set (x # xs) then c' y else N y)"
    by auto
  ultimately show ?case by simp
qed

text \<open>The run of a whole script, when what is delivered in a phase was offered before it.\<close>

lemma script_run:
  assumes "distinct xs" "Env E"
    and start: "\<And>x. x \<in> set xs \<Longrightarrow> Start E (NewEngine x) = Some (st x ! 0)"
    and run: "\<And>x. x \<in> set xs \<Longrightarrow> node_run E (script x) (st x ! 0) = Some (st x) \<and> length (script x) = k"
    and offer: "\<And>x i d. x \<in> set xs \<Longrightarrow> i < k \<Longrightarrow> Deliver d \<in> set (script x ! i) \<Longrightarrow> \<exists>y \<in> set xs. d \<in> sent (st y ! i)"
  shows "i \<le> k \<Longrightarrow> \<exists>Ns. net_run L Env (set xs) ((\<lambda>x. if x \<in> set xs then st x ! i else c0) # Ns)"
proof (induction i)
  case 0
  have "net_run L Env (set xs) [\<lambda>x. if x \<in> set xs then st x ! 0 else c0]"
    by (rule net_run.start) (use assms(2) start in auto)
  then show ?case by blast
next
  case (Suc i)
  let ?N = "\<lambda>i x. if x \<in> set xs then st x ! i else c0"
  from Suc obtain Ns where Ns: "net_run L Env (set xs) (?N i # Ns)" by auto
  have "\<exists>Ns'. net_run L Env (set xs) ((\<lambda>x. if x \<in> set xs then st x ! Suc i else ?N i x) # Ns')"
  proof (rule net_phase [OF subset_refl assms(1) Ns assms(2)])
    fix x
    assume x: "x \<in> set xs"
    from node_run_states [OF conjunct1 [OF run [OF x]]] run [OF x] Suc.prems x
    show "take_inputs E (script x ! i) (?N i x) = Some (st x ! Suc i)" by simp
    fix d
    assume "Deliver d \<in> set (script x ! i)"
    with offer [OF x, of i d] Suc.prems obtain y where "y \<in> set xs" "d \<in> sent (st y ! i)" by auto
    then show "deliverable L (set xs) (?N i # Ns) d" by (auto simp: deliverable_def)
  qed
  then show ?case by (simp cong: if_cong)
qed

section \<open>Four validators\<close>

definition four :: "string list" where
  "four = [''a'', ''b'', ''c'', ''d'']"

definition blockA :: Proposal where
  "blockA = \<lparr>Height = 5, PHash = 201, Timestamp = 10, Block = []\<rparr>"

definition blockB :: Proposal where
  "blockB = \<lparr>Height = 5, PHash = 202, Timestamp = 10, Block = []\<rparr>"

text \<open>The example's libraries with caches that forget at once, so that no message is dropped as a repeat;
  the hash is that of the last byte, and nothing but the caches' keys depends on it.\<close>

definition forkLib :: lib where
  "forkLib = exLib\<lparr>keccakHash := (\<lambda>b. if b = [] then 0 else word_of_int (uint (last b))),
     arcHitStr := (\<lambda>n ops k. False), arcHitHash := (\<lambda>n ops k. False)\<rparr>"

definition forkEnv :: env where
  "forkEnv = (exEnv four)\<lparr>envLib := forkLib\<rparr>"

text \<open>The messages of the script, as bytes: the identifier and the round, and the digest.\<close>

definition pre_prepare :: "byte \<Rightarrow> byte \<Rightarrow> byte \<Rightarrow> bytes" where
  "pre_prepare x r d = [0, x, 1, 7, 0, 0, 5, r, 5, d, 10]"

definition prepare :: "byte \<Rightarrow> byte \<Rightarrow> byte \<Rightarrow> bytes" where
  "prepare x r d = [1, x, 1, 7, 0, 0, 5, r, d]"

definition commit :: "byte \<Rightarrow> byte \<Rightarrow> byte \<Rightarrow> bytes" where
  "commit x r d = [2, x, 1, 7, 1, 7, 5, r, d]"

definition round_change :: "byte \<Rightarrow> bytes" where
  "round_change x = [3, x, 1, 7, 0, 0, 5, 1, 0]"

abbreviation give :: "bytes list \<Rightarrow> input list" where
  "give ds \<equiv> map Deliver ds"

text \<open>The first three phases: \<open>b\<close> proposes, \<open>a\<close>, \<open>b\<close> and \<open>c\<close> prepare and lock its block.\<close>

definition proposed :: "string \<Rightarrow> input list list" where
  "proposed x =
     (if x = ''a'' then [[], [Deliver (pre_prepare 98 0 201), TakeLocal], give [prepare 98 0 201, prepare 99 0 201] @ [TakeLocal]]
      else if x = ''b'' then [[Ask blockA, TakeRequest, TakeLocal, TakeLocal], [], give [prepare 97 0 201, prepare 99 0 201] @ [TakeLocal]]
      else if x = ''c'' then [[], [Deliver (pre_prepare 98 0 201), TakeLocal], give [prepare 98 0 201, prepare 97 0 201] @ [TakeLocal]]
      else [[], [], []])"

text \<open>The calm run: the commits of \<open>a\<close>, \<open>b\<close> and \<open>c\<close> reach \<open>a\<close> and \<open>b\<close>.\<close>

definition calm :: "string \<Rightarrow> input list list" where
  "calm x = proposed x @
     [if x = ''a'' then give [commit 98 0 201, commit 99 0 201]
      else if x = ''b'' then give [commit 97 0 201, commit 99 0 201] else []]"

text \<open>The other run: they reach \<open>b\<close> alone; the rest time out, change to round 1, where \<open>c\<close> proposes
  another block, and commit it.\<close>

definition expire :: "input list" where
  "expire = [Expire, TakeTimeout, TakeLocal]"

definition late :: "string \<Rightarrow> input list list" where
  "late x = proposed x @
     (if x = ''a'' then
        [expire, give (map round_change [99, 100]), [Deliver (pre_prepare 99 1 202), TakeLocal],
         give [prepare 99 1 202, prepare 100 1 202] @ [TakeLocal], []]
      else if x = ''b'' then [give [commit 97 0 201, commit 99 0 201], [], [], [], []]
      else if x = ''c'' then
        [expire, give (map round_change [97, 100]) @ [Ask blockB, TakeRequest, TakeLocal, TakeLocal], [],
         give [prepare 97 1 202, prepare 100 1 202] @ [TakeLocal], give [commit 97 1 202, commit 100 1 202]]
      else
        [expire, give (map round_change [97, 99]), [Deliver (pre_prepare 99 1 202), TakeLocal],
         give [prepare 99 1 202, prepare 97 1 202] @ [TakeLocal], []])"

text \<open>What each node has broadcast before each phase, and a check of a node's part of a script.\<close>

definition offers :: "string \<Rightarrow> bytes list list" where
  "offers x =
     (if x = ''a'' then
        [[], [], [prepare 97 0 201], [commit 97 0 201], [round_change 97], [], [prepare 97 1 202], [commit 97 1 202], []]
      else if x = ''b'' then
        [[], [pre_prepare 98 0 201, prepare 98 0 201], [prepare 98 0 201], [commit 98 0 201], [], [], [], [], []]
      else if x = ''c'' then
        [[], [], [prepare 99 0 201], [commit 99 0 201], [round_change 99], [pre_prepare 99 1 202], [prepare 99 1 202], [], []]
      else [[], [], [], [], [round_change 100], [], [prepare 100 1 202], [commit 100 1 202], []])"

definition plays :: "string \<Rightarrow> input list list \<Rightarrow> (View \<times> Proposal) list \<Rightarrow> bool" where
  "plays x jss blocks \<longleftrightarrow>
     (case Start forkEnv (NewEngine x) of None \<Rightarrow> False | Some c \<Rightarrow>
        (case node_run forkEnv jss c of None \<Rightarrow> False | Some cs \<Rightarrow>
           list_all2 (\<lambda>c ds. set ds \<subseteq> set (map snd (broadcasts c))) (butlast cs)
             (take (length jss) (offers x)) \<and>
           map (\<lambda>(v, p, seals). (v, p)) (committed (last cs)) = blocks))"

lemma late_a: "plays ''a'' (late ''a'') []" by code_simp

lemma late_b: "plays ''b'' (late ''b'') [(mkView 5 0, blockA)]" by code_simp

lemma late_c: "plays ''c'' (late ''c'') [(mkView 5 1, blockB)]" by code_simp

lemma late_d: "plays ''d'' (late ''d'') []" by code_simp

lemma calm_a: "plays ''a'' (calm ''a'') [(mkView 5 0, blockA)]" by code_simp

lemma calm_b: "plays ''b'' (calm ''b'') [(mkView 5 0, blockA)]" by code_simp

lemma calm_c: "plays ''c'' (calm ''c'') []" by code_simp

lemma calm_d: "plays ''d'' (calm ''d'') []" by code_simp

text \<open>What a phase delivers was offered before it.\<close>

definition covered :: "(string \<Rightarrow> input list list) \<Rightarrow> nat \<Rightarrow> bool" where
  "covered script k \<longleftrightarrow> list_all (\<lambda>x. length (script x) = k) four \<and>
     list_all (\<lambda>i. list_all (\<lambda>x. list_all (\<lambda>j. case j of
        Deliver d \<Rightarrow> list_ex (\<lambda>y. i < length (offers y) \<and> d \<in> set (offers y ! i)) four | _ \<Rightarrow> True)
       (script x ! i)) four) [0..<k]"

lemma late_covered: "covered late 8" by code_simp

lemma calm_covered: "covered calm 4" by code_simp

lemma played:
  assumes "plays x jss blocks"
  obtains cs where "Start forkEnv (NewEngine x) = Some (cs ! 0)" "node_run forkEnv jss (cs ! 0) = Some cs"
    "map (\<lambda>(v, p, seals). (v, p)) (committed (cs ! length jss)) = blocks"
    "\<And>i d. i < length jss \<Longrightarrow> i < length (offers x) \<Longrightarrow> d \<in> set (offers x ! i) \<Longrightarrow> d \<in> sent (cs ! i)"
proof -
  from assms obtain c cs where c: "Start forkEnv (NewEngine x) = Some c" "node_run forkEnv jss c = Some cs"
      "map (\<lambda>(v, p, seals). (v, p)) (committed (last cs)) = blocks"
      "list_all2 (\<lambda>c ds. set ds \<subseteq> set (map snd (broadcasts c))) (butlast cs) (take (length jss) (offers x))"
    by (auto simp: plays_def split: option.splits)
  note st = node_run_states [OF c(2)]
  then have "last cs = cs ! length jss" by (subst last_conv_nth) auto
  moreover have "d \<in> sent (cs ! i)" if "i < length jss" "i < length (offers x)" "d \<in> set (offers x ! i)" for i d
    using list_all2_nthD2 [OF c(4), of i] that st
    by (auto simp: nth_butlast sent_def)
  ultimately show thesis using that [of cs] c st by simp
qed

lemma scripted_net:
  assumes "\<And>x. x \<in> set four \<Longrightarrow> plays x (script x) (blocks x)" "covered script k"
  obtains N Ns where "net_run forkLib (\<lambda>E. E = forkEnv) (set four) (N # Ns)"
    "\<And>x. x \<in> set four \<Longrightarrow> map (\<lambda>(v, p, seals). (v, p)) (committed (N x)) = blocks x"
proof -
  let ?plays = "\<lambda>x cs. Start forkEnv (NewEngine x) = Some (cs ! 0) \<and> node_run forkEnv (script x) (cs ! 0) = Some cs \<and>
      map (\<lambda>(v, p, seals). (v, p)) (committed (cs ! k)) = blocks x \<and>
      (\<forall>i d. i < k \<longrightarrow> i < length (offers x) \<longrightarrow> d \<in> set (offers x ! i) \<longrightarrow> d \<in> sent (cs ! i))"
  have "\<exists>cs. ?plays x cs" if "x \<in> set four" for x
  proof -
    have "length (script x) = k" using assms(2) that by (auto simp: covered_def list_all_iff)
    with played [OF assms(1) [OF that]] show ?thesis by metis
  qed
  then obtain st where st: "\<And>x. x \<in> set four \<Longrightarrow> ?plays x (st x)" using bchoice [of "set four" ?plays] by blast
  have "distinct four" by (simp add: four_def)
  then have "\<exists>Ns. net_run forkLib (\<lambda>E. E = forkEnv) (set four)
      ((\<lambda>x. if x \<in> set four then st x ! k else NewEngine []) # Ns)"
  proof (rule script_run [where st = st and k = k and script = script and i = k])
    fix x i d
    assume "x \<in> set four" "i < k" "Deliver d \<in> set (script x ! i)"
    with assms(2) obtain y where "y \<in> set four" "i < length (offers y)" "d \<in> set (offers y ! i)"
      by (fastforce simp: covered_def list_all_iff list_ex_iff)
    with st \<open>i < k\<close> show "\<exists>y \<in> set four. d \<in> sent (st y ! i)" by blast
  qed (use st assms(2) in \<open>auto simp: covered_def list_all_iff\<close>)
  then show thesis using that st by force
qed

lemma forkLib_ok: "hash_ok forkLib" "codec_ok forkLib"
  using exLib_ok by (simp_all add: forkLib_def hash_ok_def codec_ok_def decode_allocates_def)

lemma four_agreed: "agreed forkLib (\<lambda>h. four) forkEnv"
proof -
  have "ids (exValidators four) = four" by code_simp
  then show ?thesis
    using exEnv_runs [of four] forkLib_ok by (auto simp: agreed_def runs_def small_heights_def forkEnv_def exEnv_def)
qed

section \<open>The runs\<close>

lemma committed_entry:
  assumes "map (\<lambda>(v, p, seals). (v, p)) (committed c) = [(v, p)]"
  obtains seals where "(v, p, seals) \<in> set (committed c)"
  using assms by auto

lemma late_run:
  obtains N Ns s s' where "net_run forkLib (\<lambda>E. E = forkEnv) (set four) (N # Ns)"
    "(mkView 5 0, blockA, s) \<in> set (committed (N ''b''))" "(mkView 5 1, blockB, s') \<in> set (committed (N ''c''))"
proof -
  let ?blocks = "\<lambda>x. if x = ''b'' then [(mkView 5 0, blockA)] else if x = ''c'' then [(mkView 5 1, blockB)] else []"
  have "plays x (late x) (?blocks x)" if "x \<in> set four" for x
    using that late_a late_b late_c late_d by (auto simp: four_def)
  then obtain N Ns where run: "net_run forkLib (\<lambda>E. E = forkEnv) (set four) (N # Ns)"
      and blocks: "\<And>x. x \<in> set four \<Longrightarrow> map (\<lambda>(v, p, seals). (v, p)) (committed (N x)) = ?blocks x"
    using late_covered by (rule scripted_net) blast+
  have "map (\<lambda>(v, p, seals). (v, p)) (committed (N ''b'')) = [(mkView 5 0, blockA)]"
    "map (\<lambda>(v, p, seals). (v, p)) (committed (N ''c'')) = [(mkView 5 1, blockB)]"
    using blocks [of "''b''"] blocks [of "''c''"] by (simp_all add: four_def)
  with run that show thesis by (metis committed_entry)
qed

lemma calm_run:
  obtains N Ns s s' where "net_run forkLib (\<lambda>E. E = forkEnv) (set four) (N # Ns)"
    "(mkView 5 0, blockA, s) \<in> set (committed (N ''a''))" "(mkView 5 0, blockA, s') \<in> set (committed (N ''b''))"
proof -
  let ?blocks = "\<lambda>x. if x \<in> {''a'', ''b''} then [(mkView 5 0, blockA)] else []"
  have "plays x (calm x) (?blocks x)" if "x \<in> set four" for x
    using that calm_a calm_b calm_c calm_d by (auto simp: four_def)
  then obtain N Ns where run: "net_run forkLib (\<lambda>E. E = forkEnv) (set four) (N # Ns)"
      and blocks: "\<And>x. x \<in> set four \<Longrightarrow> map (\<lambda>(v, p, seals). (v, p)) (committed (N x)) = ?blocks x"
    using calm_covered by (rule scripted_net) blast+
  have "map (\<lambda>(v, p, seals). (v, p)) (committed (N ''a'')) = [(mkView 5 0, blockA)]"
    "map (\<lambda>(v, p, seals). (v, p)) (committed (N ''b'')) = [(mkView 5 0, blockA)]"
    using blocks [of "''a''"] blocks [of "''b''"] by (simp_all add: four_def)
  with run that show thesis by (metis committed_entry)
qed

text \<open>Agreement at work: in the calm run two nodes commit in the same view.\<close>

theorem agreement_in_view_witness:
  "\<exists>N Ns p p' s s'. net_run forkLib (\<lambda>E. E = forkEnv) (set four) (N # Ns) \<and>
     (mkView 5 0, p, s) \<in> set (committed (N ''a'')) \<and> (mkView 5 0, p', s') \<in> set (committed (N ''b'')) \<and>
     PHash p = PHash p'"
proof (rule calm_run)
  fix N Ns s s'
  assume run: "net_run forkLib (\<lambda>E. E = forkEnv) (set four) (N # Ns)"
    and entries: "(mkView 5 0, blockA, s) \<in> set (committed (N ''a''))"
      "(mkView 5 0, blockA, s') \<in> set (committed (N ''b''))"
  have "PHash blockA = PHash blockA"
    by (rule agreement_in_view [OF run _ forkLib_ok(2) _ _ entries, of "\<lambda>h. four"])
      (auto simp: four_agreed, auto simp: four_def forkEnv_def exEnv_def)
  then show ?thesis using run entries by blast
qed

text \<open>C5: agreement does not extend to two views. In a run of four honest validators, with the backends
  of \<open>agreement_in_view\<close>, one commits a block in round 0 and another a different block of the same
  height in round 1: on a timeout a validator drops the block it has locked.\<close>

theorem rounds_can_fork:
  "\<exists>N Ns p p' s s'. net_run forkLib (\<lambda>E. E = forkEnv) (set four) (N # Ns) \<and>
     agreed forkLib (\<lambda>h. four) forkEnv \<and> codec_ok forkLib \<and>
     (mkView 5 0, p, s) \<in> set (committed (N ''b'')) \<and> (mkView 5 1, p', s') \<in> set (committed (N ''c'')) \<and>
     Height p = Height p' \<and> PHash p \<noteq> PHash p'"
proof (rule late_run)
  fix N Ns s s'
  assume "net_run forkLib (\<lambda>E. E = forkEnv) (set four) (N # Ns)"
    "(mkView 5 0, blockA, s) \<in> set (committed (N ''b''))" "(mkView 5 1, blockB, s') \<in> set (committed (N ''c''))"
  moreover have "Height blockA = Height blockB" "PHash blockA \<noteq> PHash blockB" by (simp_all add: blockA_def blockB_def)
  ultimately show ?thesis using four_agreed forkLib_ok(2) by blast
qed

end
