(* ===== verification/Pbft_Validity.thy ===== *)
theory Pbft_Validity
  imports Pbft_Run
begin

text \<open>
  Validity: a block is handed to \<open>backend.Commit\<close> only if \<open>backend.Verify\<close> accepted it before. The one place
  where the core takes up a pre-prepare is after the check; every other operation keeps the
  pre-prepare of the round state or drops it, and what is committed is its proposal.
\<close>

section \<open>The pre-prepare of a core\<close>

definition taken_up :: "core \<Rightarrow> PrePrepare ptr" where
  "taken_up c = (case currentRoundState c of None \<Rightarrow> None | Some rs \<Rightarrow> rsPrePrepare rs)"

definition holds :: "core \<Rightarrow> Proposal \<Rightarrow> bool" where
  "holds c p \<longleftrightarrow> (\<exists>pp. taken_up c = Some pp \<and> ppProposal pp = Some p)"

definition keeps :: "core \<Rightarrow> core \<Rightarrow> bool" where
  "keeps c c' \<longleftrightarrow> (taken_up c' = None \<or> taken_up c' = taken_up c) \<and>
     (\<forall>(v, p, seals) \<in> set (committed c'). (v, p, seals) \<in> set (committed c) \<or> holds c p)"

lemma keeps_refl [simp]: "keeps c c"
  by (auto simp: keeps_def)

lemma keeps_trans [trans]: "keeps c c1 \<Longrightarrow> keeps c1 c2 \<Longrightarrow> keeps c c2"
  by (fastforce simp: keeps_def holds_def)

lemma keeps_same: "taken_up c' = taken_up c \<Longrightarrow> committed c' = committed c \<Longrightarrow> keeps c c'"
  by (auto simp: keeps_def)

lemma keeps_ckernel: "ckernel c' = ckernel c \<Longrightarrow> keeps c c'"
  by (rule keeps_same) (simp_all add: taken_up_def ckernel_eq_iff)

lemma keeps_round:
  "currentRoundState c' = Some (nextRoundState L s r vs change (currentRoundState c)) \<Longrightarrow>
     committed c' = committed c \<Longrightarrow> keeps c c'"
  by (auto simp: keeps_def taken_up_def nextRoundState_def split: option.splits)

lemma keeps_enterRound: "enterRound E (mkView s r) vs x change c = Some c' \<Longrightarrow> keeps c c'"
  by (drule enterRound_ckernel, rule keeps_round) (simp_all add: ckernel_def)

lemma keeps_catchUpRound: "catchUpRound E (mkView s r) c = Some c' \<Longrightarrow> keeps c c'"
  by (erule catchUpRound_ckernel, rule keeps_round) (simp_all add: ckernel_def)

section \<open>Operations\<close>

lemma keeps_sendRoundChange:
  assumes "sendRoundChange E r c = Some c'"
  shows "keeps c c'"
proof -
  from assms obtain rs where rs: "currentRoundState c = Some rs"
    by (auto simp: sendRoundChange_def currentView_def elim!: bind_SomeE)
  show ?thesis
  proof (cases "rsRound rs < r")
    case True
    with assms rs obtain c1 cv1 where
      c1: "catchUpRound E (mkView (big_of_u64 (rsSequence rs)) r) c = Some c1"
      and send: "(case encodeSubject (envLib E) \<lparr>sbView = Some cv1, Digest = emptyHash\<rparr> of
          None \<Rightarrow> ret c1 | Some body \<Rightarrow> Broadcast E (newMsg MsgRoundChange body) c1) = Some c'"
      by (auto simp: sendRoundChange_def currentView_eq elim!: bind_SomeE)
    from send have "ckernel c' = ckernel c1" by (auto split: option.splits dest: kernel_Broadcast)
    with keeps_catchUpRound [OF c1] show ?thesis by (blast intro: keeps_trans keeps_ckernel)
  qed (use assms rs in \<open>auto simp: sendRoundChange_def currentView_eq\<close>)
qed

lemma keeps_sendNextRoundChange: "sendNextRoundChange E c = Some c' \<Longrightarrow> keeps c c'"
  by (auto simp: sendNextRoundChange_def elim!: bind_SomeE intro: keeps_sendRoundChange)

lemma keeps_StartNewRound:
  assumes "StartNewRound E rnd c = Some c'"
  shows "keeps c c'"
proof (cases "newRoundKind rnd (fst (beLastProposal (envBackend E))) c")
  case None
  with assms show ?thesis by (simp add: StartNewRound_def case_prod_unfold)
next
  case (Some kc)
  obtain change c0 where kc: "kc = (change, c0)" by fastforce
  from Some kc have "ckernel c0 = ckernel c"
    by (auto simp: newRoundKind_def ckernel_eq_iff split: option.splits if_splits)
  then have c0: "keeps c (c0\<lparr>valSet := vs\<rparr>)" "keeps c c0" for vs
    by (auto intro!: keeps_same simp: taken_up_def ckernel_eq_iff)
  have "keeps c c'" if "enterRound E (mkView s r) vs x b (c0\<lparr>valSet := ws\<rparr>) = Some c'" for s r vs x b ws
    using c0(1) keeps_enterRound [OF that] by (rule keeps_trans)
  moreover have "keeps c c'" if "enterRound E (mkView s r) vs x b c0 = Some c'" for s r vs x b
    using c0(2) keeps_enterRound [OF that] by (rule keeps_trans)
  ultimately show ?thesis
    using assms Some kc
    by (auto simp: StartNewRound_def case_prod_unfold Let_def elim!: bind_SomeE split: if_splits)
qed

lemma keeps_round_update:
  "currentRoundState c = Some rs \<Longrightarrow> rsPrePrepare rs' = rsPrePrepare rs \<Longrightarrow>
     keeps c (c\<lparr>currentRoundState := Some rs'\<rparr>)"
  by (rule keeps_same) (simp_all add: taken_up_def)

lemma keeps_lockHash:
  assumes "lockHash c = Some c'" "currentRoundState c = Some rs"
  shows "keeps c c'"
  using assms by (rule lockHash_frame) (use assms(2) in \<open>auto intro: keeps_round_update\<close>)

lemma keeps_commitProposal:
  assumes "commitProposal E c = Some c'"
  shows "keeps c c'"
proof -
  from assms obtain c1 rs where c1: "setState (envLib E) StateCommitted c = Some c1"
      "currentRoundState c1 = Some rs"
    by (auto simp: commitProposal_def elim!: bind_SomeE)
  have "keeps c1 c'"
  proof (cases "ProposalOf rs")
    case None
    with assms c1 show ?thesis by (simp add: commitProposal_def)
  next
    case (Some p)
    then have "holds c1 p" using c1(2) by (auto simp: holds_def taken_up_def ProposalOf_def split: option.splits)
    then have c2: "keeps c1 (c1\<lparr>committed := committed c1 @ [(v, p, s)]\<rparr>)"
      "keeps c1 (c1\<lparr>committed := committed c1 @ [(v, p, s)], currentRoundState := Some (UnlockHash rs)\<rparr>)" for v s
      using c1(2) by (auto simp: keeps_def taken_up_def UnlockHash_def)
    show ?thesis
      using assms c1 Some c2 keeps_trans [OF c2(2) keeps_sendNextRoundChange]
      by (cases "beCommit (envBackend E) p (map CommittedSeal (ms_Values (Commits rs)))")
        (auto simp: commitProposal_def Let_def elim!: bind_SomeE)
  qed
  moreover have "keeps c c1"
    by (rule keeps_same) (use kernel_setState [OF c1(1)] in \<open>simp_all add: taken_up_def ckernel_eq_iff\<close>)
  ultimately show ?thesis by (blast intro: keeps_trans)
qed

lemma keeps_HandlePrepare:
  assumes "HandlePrepare E msg val c = Some (e, c')" "currentRoundState c = Some rs"
  shows "keeps c c'"
  using assms
proof (cases rule: HandlePrepare_cases)
  case (accepted sub c1)
  then have c1: "keeps c c1" using assms(2) by (auto intro: keeps_round_update)
  from accepted(5) show ?thesis
  proof (elim disjE exE conjE)
    fix c2 c3
    assume lock: "lockHash c1 = Some c2" and set: "setState (envLib E) StatePrepared c2 = Some c3"
      and send: "SendCommit E c3 = Some c'"
    have "keeps c1 c2" using lock accepted(4) by (auto intro: keeps_lockHash)
    moreover have "keeps c2 c'"
      by (rule keeps_same)
        (use kernel_setState [OF set] kernel_SendCommit [OF send] in \<open>simp_all add: taken_up_def ckernel_eq_iff\<close>)
    ultimately show ?thesis using c1 by (blast intro: keeps_trans)
  qed (simp add: c1)
qed simp

lemma keeps_HandleCommit:
  assumes "HandleCommit E msg val c = Some (e, c')" "currentRoundState c = Some rs"
  shows "keeps c c'"
  using assms
proof (cases rule: HandleCommit_cases)
  case (accepted sub c1)
  then have c1: "keeps c c1" "currentRoundState c1 \<noteq> None" using assms(2) by (auto intro: keeps_round_update)
  from accepted(5) c1 show ?thesis by (blast intro: keeps_trans keeps_lockHash keeps_commitProposal)
qed simp

lemma keeps_HandleRoundChange:
  assumes "HandleRoundChange E msg val c = Some (e, c')" "currentRoundState c = Some rs" "rcSet c = Some rcs"
  shows "keeps c c'"
proof -
  have rc: "keeps c (c\<lparr>rcSet := x\<rparr>)" for x by (rule keeps_same) (simp_all add: taken_up_def)
  from assms show ?thesis
  proof (cases rule: HandleRoundChange_cases)
    case (counted r num)
    then have "keeps (c\<lparr>rcSet := Some (snd (rcs_Add rcs r msg))\<rparr>) c'"
      by (auto simp: countedRoundChange_def elim!: bind_SomeE split: if_splits
          intro: keeps_StartNewRound keeps_sendRoundChange)
    with rc show ?thesis by (rule keeps_trans)
  qed (simp_all add: rc)
qed

section \<open>Verified proposals\<close>

text \<open>\<open>valid\<close> is any property \<open>backend.Verify\<close> checks.\<close>

definition vouched :: "(Proposal \<Rightarrow> bool) \<Rightarrow> core \<Rightarrow> bool" where
  "vouched valid c \<longleftrightarrow> (\<forall>p. holds c p \<longrightarrow> valid p) \<and> (\<forall>(v, p, seals) \<in> set (committed c). valid p)"

lemma vouched_keeps: "keeps c c' \<Longrightarrow> vouched valid c \<Longrightarrow> vouched valid c'"
  by (fastforce simp: vouched_def keeps_def holds_def)

lemma vouched_acceptProposal:
  assumes "acceptProposal E pp p c = Some c'" "ppProposal pp = Some p" "valid p" "vouched valid c"
    "currentRoundState c = Some rs"
  shows "vouched valid c'"
  using assms(1,5)
proof (cases rule: acceptProposal_cases)
  case moved
  from vouched_keeps [OF keeps_sendNextRoundChange [OF moved] assms(4)] show ?thesis .
next
  case (taken s)
  then have "taken_up c' = Some pp" "committed c' = committed c" by (simp_all add: taken_up_def ckernel_eq_iff)
  then show ?thesis using assms(2-4) by (auto simp: vouched_def holds_def)
qed

lemma vouched_handleMsg:
  assumes "handleMsg E msg val c = Some (e, c')" "currentRoundState c = Some rs" "rcSet c = Some rcs"
    "\<And>p. beVerify (envBackend E) p = None \<Longrightarrow> valid p" "vouched valid c"
  shows "vouched valid c'"
  using assms(1)
proof (cases rule: handleMsg_cases)
  case (handled c1)
  from handled(1) have "vouched valid c1"
  proof (elim disjE conjE)
    assume "HandlePrePrepare E msg val c = Some (e, c1)"
    then show ?thesis
    proof (cases rule: HandlePrePrepare_cases)
      case (old pp p view)
      from vouched_keeps [OF keeps_ckernel [OF oldPrePrepare_ckernel [OF old(1)]] assms(5)] show ?thesis .
    next
      case (accepted pp p view)
      from accepted(4,3) assms(4) [OF accepted(6)] assms(5,2) show ?thesis by (rule vouched_acceptProposal)
    qed (simp add: assms(5))
  qed (use assms(2,3,5) in \<open>blast intro: vouched_keeps keeps_HandlePrepare keeps_HandleCommit keeps_HandleRoundChange\<close>)+
  with vouched_keeps [OF keeps_ckernel [OF handled_ckernel [OF handled(2)]]] show ?thesis .
qed (simp add: assms(5))

lemma vouched_step:
  assumes "core_step_on D Env c c'" "currentRoundState c = Some rs" "rcSet c = Some rcs"
    "\<And>E p. Env E \<Longrightarrow> beVerify (envBackend E) p = None \<Longrightarrow> valid p" "vouched valid c"
  shows "vouched valid c'"
  using assms(1,2)
proof (cases rule: core_step_kernel)
  case same
  from vouched_keeps [OF keeps_ckernel [OF same] assms(5)] show ?thesis .
next
  case (request r)
  have "keeps c c'"
    by (rule keeps_same) (use request assms(2) in \<open>simp_all add: taken_up_def ckernel_eq_iff\<close>)
  from vouched_keeps [OF this assms(5)] show ?thesis .
next
  case (handled E m v e c0 c1)
  have "vouched valid c0" by (rule vouched_keeps [OF keeps_ckernel [OF handled(2)] assms(5)])
  moreover have "currentRoundState c0 = Some rs" "rcSet c0 = Some rcs"
    using handled(2) assms(2,3) by (simp_all add: ckernel_eq_iff)
  ultimately have "vouched valid c1" using vouched_handleMsg [OF handled(3)] assms(4) [OF handled(1)] by blast
  with vouched_keeps [OF keeps_ckernel [OF handled(4)]] show ?thesis .
next
  case (final E c0)
  from keeps_trans [OF keeps_ckernel [OF final(2)] keeps_StartNewRound [OF final(3)]] assms(5)
  show ?thesis by (rule vouched_keeps)
next
  case (timeout E c1)
  have "keeps c c1"
    by (rule keeps_same) (use timeout(2) assms(2) in \<open>simp_all add: taken_up_def ckernel_eq_iff\<close>)
  moreover have "keeps c1 c'"
    using timeout(3) by (blast intro: keeps_StartNewRound keeps_sendRoundChange keeps_sendNextRoundChange)
  ultimately show ?thesis using vouched_keeps [OF keeps_trans assms(5)] by blast
qed

lemma engine_step_inv: "core_step (runs L) c c' \<Longrightarrow> engine_inv L x c \<Longrightarrow> engine_inv L x c'"
  by (rule engine.step_inv)

text \<open>C4: validity. What a correct \<open>backend.Verify\<close> refuses is never committed: every block handed to
  \<open>backend.Commit\<close> in a run has each property that all blocks accepted by \<open>backend.Verify\<close> have.\<close>

theorem committed_is_verified:
  assumes "\<forall>E. Env E \<longrightarrow> runs L E" "\<forall>E p. Env E \<and> beVerify (envBackend E) p = None \<longrightarrow> valid p"
    and "Env E0" "Start E0 (NewEngine x) = Some c0" "(core_step Env)\<^sup>*\<^sup>* c0 c" "(v, p, seals) \<in> set (committed c)"
  shows "valid p"
proof -
  have start: "started L x c0" using assms(1,3,4) by (auto simp: started_def)
  from assms(5) have "engine_inv L x c \<and> vouched valid c"
  proof (induction rule: rtranclp_induct)
    case base
    have "keeps (NewEngine x) c0" using assms(4) unfolding Start_def by (rule keeps_StartNewRound)
    moreover have "vouched valid (NewEngine x)" by (simp add: vouched_def holds_def taken_up_def NewEngine_def)
    ultimately show ?case using started_inv [OF start] vouched_keeps by blast
  next
    case (step c1 c2)
    then obtain rs rcs where "currentRoundState c1 = Some rs" "rcSet c1 = Some rcs"
      by (auto simp: engine_inv_def elim: core_invE)
    then have "vouched valid c2" using vouched_step [OF step.hyps(2)] assms(2) step.IH by blast
    moreover have "core_step (runs L) c1 c2"
      using step.hyps(2) by (rule core_step_on_mono) (use assms(1) in auto)
    ultimately show ?case using step.IH engine_step_inv by blast
  qed
  then show ?thesis using assms(6) by (auto simp: vouched_def)
qed

text \<open>A backend that accepts blocks of height 5 only.\<close>

definition fifthEnv :: env where
  "fifthEnv = (exEnv [''a''])\<lparr>envBackend := (envBackend (exEnv [''a'']))\<lparr>beVerify :=
     (\<lambda>p. if Height p = 5 then None else Some errInvalidProposal)\<rparr>\<rparr>"

theorem committed_is_verified_witness:
  "\<exists>c0 c v p seals. Start fifthEnv (NewEngine ''a'') = Some c0 \<and> (core_step (\<lambda>E. E = fifthEnv))\<^sup>*\<^sup>* c0 c \<and>
     (v, p, seals) \<in> set (committed c) \<and> Height p = 5"
proof -
  let ?js = "[Ask (exBlock 5), TakeRequest, TakeLocal, TakeLocal, TakeLocal]"
  have "\<not> Option.is_none (do { c0 \<leftarrow> Start fifthEnv (NewEngine ''a''); c \<leftarrow> take_inputs fifthEnv ?js c0;
      (if committed c = [] then None else Some c) })"
    by code_simp
  then obtain c0 c where c: "Start fifthEnv (NewEngine ''a'') = Some c0" "take_inputs fifthEnv ?js c0 = Some c"
      "committed c \<noteq> []"
    by (auto simp: Option.is_none_def elim!: bind_SomeE split: if_splits)
  then obtain v p seals where e: "(v, p, seals) \<in> set (committed c)" by (cases "committed c") auto
  have run: "(core_step (\<lambda>E. E = fifthEnv))\<^sup>*\<^sup>* c0 c" using c(2) by (rule take_inputs_steps [where Env = "\<lambda>E. E = fifthEnv"]) simp
  have "Height p = 5"
    by (rule committed_is_verified [of "\<lambda>E. E = fifthEnv" exLib "\<lambda>p. Height p = 5", OF _ _ refl c(1) run e])
      (use exEnv_runs [of "[''a'']"] in \<open>auto simp: runs_def small_heights_def fifthEnv_def split: if_splits\<close>)
  with c(1) run e show ?thesis by blast
qed

end
