(* ===== verification/Pbft_Rlp.thy ===== *)
theory Pbft_Rlp
  imports Pbft_Example
begin

text \<open>
  The RLP methods of views, subjects and pre-prepares (src/protocol/types.go) and of the round state
  (src/core/roundstate.go). The RLP library is a parameter: it encodes a list of Go values, and decodes
  into a struct with exported fields of given types. From its documented behaviour, with these
  methods as the codec of subjects and pre-prepares, follows what the core relies on (\<open>codec_ok\<close>).
  The round state cannot be read back: its two methods disagree on the number of fields.
\<close>

section \<open>Values and the library\<close>

text \<open>The Go values the sources hand to the library. \<open>Nested\<close> is a value whose \<open>EncodeRLP\<close> writes a list of its
  own, or a struct with these exported fields; \<open>NilItem\<close> is a nil pointer or interface.\<close>

datatype item =
    Big "int ptr" | U64 u64 | HashItem Hash | BlockItem Proposal | SetItem MessageSet | NilItem
  | Nested "item list"

text \<open>The types of struct fields: \<open>*big.Int\<close>, \<open>uint64\<close>, \<open>types.Hash\<close>, \<open>*models.Block\<close>, \<open>*MessageSet\<close>, and a
  pointer to a struct that is read field by field.\<close>

datatype shape = TBig | TU64 | THash | TBlock | TSet | TStruct "shape list"

fun fits :: "shape \<Rightarrow> item \<Rightarrow> bool"
  and fits_all :: "shape list \<Rightarrow> item list \<Rightarrow> bool" where
  "fits TBig (Big n) \<longleftrightarrow> n \<noteq> None"
| "fits TU64 (U64 n) \<longleftrightarrow> True"
| "fits THash (HashItem h) \<longleftrightarrow> True"
| "fits TBlock (BlockItem p) \<longleftrightarrow> True"
| "fits TSet (SetItem ms) \<longleftrightarrow> True"
| "fits (TStruct ts) (Nested xs) \<longleftrightarrow> fits_all ts xs"
| "fits _ _ \<longleftrightarrow> False"
| "fits_all [] [] \<longleftrightarrow> True"
| "fits_all (t # ts) (x # xs) \<longleftrightarrow> fits t x \<and> fits_all ts xs"
| "fits_all _ _ \<longleftrightarrow> False"

text \<open>A message set has no exported fields, so its encoding does not determine it.\<close>

fun exact :: "item \<Rightarrow> bool" where
  "exact (Big n) \<longleftrightarrow> n \<noteq> None"
| "exact (SetItem ms) \<longleftrightarrow> False"
| "exact NilItem \<longleftrightarrow> False"
| "exact (Nested xs) \<longleftrightarrow> (\<forall>x \<in> set xs. exact x)"
| "exact _ \<longleftrightarrow> True"

text \<open>\<open>rlp.Encode\<close> of a \<open>[]interface{}\<close> and \<open>Stream.Decode\<close> into a struct; \<open>None\<close> is an error.\<close>

record rlp =
  rlpEncode :: "item list \<Rightarrow> bytes option"
  rlpDecode :: "shape list \<Rightarrow> bytes \<Rightarrow> item list option"

text \<open>Documented behaviour: what was encoded is decoded into fields of its types; the list must have an
  element for each exported field and no more; decoding allocates the pointers it sets.\<close>

definition rlp_ok :: "rlp \<Rightarrow> bool" where
  "rlp_ok R \<longleftrightarrow>
     (\<forall>xs ts b. rlpEncode R xs = Some b \<and> list_all exact xs \<and> fits_all ts xs \<longrightarrow> rlpDecode R ts b = Some xs) \<and>
     (\<forall>xs ts b. rlpEncode R xs = Some b \<and> length ts \<noteq> length xs \<longrightarrow> rlpDecode R ts b = None) \<and>
     (\<forall>ts b xs. rlpDecode R ts b = Some xs \<longrightarrow> fits_all ts xs)"

lemma rlp_okD:
  assumes "rlp_ok R"
  shows "rlpEncode R xs = Some b \<Longrightarrow> list_all exact xs \<Longrightarrow> fits_all ts xs \<Longrightarrow> rlpDecode R ts b = Some xs"
    and "rlpEncode R xs = Some b \<Longrightarrow> length ts \<noteq> length xs \<Longrightarrow> rlpDecode R ts b = None"
    and "rlpDecode R ts b = Some xs \<Longrightarrow> fits_all ts xs"
  using assms unfolding rlp_ok_def by blast+

section \<open>The methods of the protocol types\<close>

definition View_items :: "View \<Rightarrow> item list" where
  "View_items v = [Big (Round v), Big (Sequence v)]"

definition View_EncodeRLP :: "rlp \<Rightarrow> View \<Rightarrow> bytes option" where
  "View_EncodeRLP R v = rlpEncode R (View_items v)"

definition View_shape :: "shape list" where
  "View_shape = [TBig, TBig]"

fun View_of :: "item list \<Rightarrow> View option" where
  "View_of [Big r, Big s] = Some \<lparr>Sequence = s, Round = r\<rparr>"
| "View_of _ = None"

definition View_DecodeRLP :: "rlp \<Rightarrow> bytes \<Rightarrow> View option" where
  "View_DecodeRLP R b = (case rlpDecode R View_shape b of None \<Rightarrow> None | Some xs \<Rightarrow> View_of xs)"

definition viewItem :: "View ptr \<Rightarrow> item" where
  "viewItem v = (case v of None \<Rightarrow> NilItem | Some v \<Rightarrow> Nested (View_items v))"

text \<open>\<open>b.Proposal.(*models.Block)\<close> panics on a nil proposal.\<close>

definition PrePrepare_items :: "PrePrepare \<Rightarrow> item list go" where
  "PrePrepare_items b = do { p \<leftarrow> ppProposal b; ret [viewItem (ppView b), BlockItem p] }"

definition PrePrepare_EncodeRLP :: "rlp \<Rightarrow> PrePrepare \<Rightarrow> bytes option go" where
  "PrePrepare_EncodeRLP R b = do { xs \<leftarrow> PrePrepare_items b; ret (rlpEncode R xs) }"

definition PrePrepare_shape :: "shape list" where
  "PrePrepare_shape = [TStruct View_shape, TBlock]"

fun PrePrepare_of :: "item list \<Rightarrow> PrePrepare option" where
  "PrePrepare_of [Nested v, BlockItem p] =
     (case View_of v of None \<Rightarrow> None | Some v \<Rightarrow> Some \<lparr>ppView = Some v, ppProposal = Some p\<rparr>)"
| "PrePrepare_of _ = None"

definition PrePrepare_DecodeRLP :: "rlp \<Rightarrow> bytes \<Rightarrow> PrePrepare option" where
  "PrePrepare_DecodeRLP R b = (case rlpDecode R PrePrepare_shape b of None \<Rightarrow> None | Some xs \<Rightarrow> PrePrepare_of xs)"

definition Subject_items :: "Subject \<Rightarrow> item list" where
  "Subject_items b = [viewItem (sbView b), HashItem (Digest b)]"

definition Subject_EncodeRLP :: "rlp \<Rightarrow> Subject \<Rightarrow> bytes option" where
  "Subject_EncodeRLP R b = rlpEncode R (Subject_items b)"

definition Subject_shape :: "shape list" where
  "Subject_shape = [TStruct View_shape, THash]"

fun Subject_of :: "item list \<Rightarrow> Subject option" where
  "Subject_of [Nested v, HashItem d] =
     (case View_of v of None \<Rightarrow> None | Some v \<Rightarrow> Some \<lparr>sbView = Some v, Digest = d\<rparr>)"
| "Subject_of _ = None"

definition Subject_DecodeRLP :: "rlp \<Rightarrow> bytes \<Rightarrow> Subject option" where
  "Subject_DecodeRLP R b = (case rlpDecode R Subject_shape b of None \<Rightarrow> None | Some xs \<Rightarrow> Subject_of xs)"

section \<open>The methods of the round state\<close>

definition requestItem :: "Request ptr \<Rightarrow> item" where
  "requestItem r = (case r of None \<Rightarrow> NilItem
     | Some r \<Rightarrow> Nested [case rqProposal r of None \<Rightarrow> NilItem | Some p \<Rightarrow> BlockItem p])"

definition prePrepareItem :: "PrePrepare ptr \<Rightarrow> item go" where
  "prePrepareItem b = (case b of None \<Rightarrow> ret NilItem | Some b \<Rightarrow> do { xs \<leftarrow> PrePrepare_items b; ret (Nested xs) })"

definition roundState_EncodeRLP :: "rlp \<Rightarrow> roundState \<Rightarrow> bytes option go" where
  "roundState_EncodeRLP R s = do {
     pp \<leftarrow> prePrepareItem (rsPrePrepare s);
     ret (rlpEncode R [Big (Some (rsRound s)), U64 (rsSequence s), pp, SetItem (Prepares s), SetItem (Commits s),
       HashItem (lockedHash s), requestItem (pendingRequest s)])
   }"

text \<open>The struct that is decoded has five exported fields; \<open>lockedHash\<close> and \<open>pendingRequest\<close> are not exported
  and keep their zero values.\<close>

definition roundState_shape :: "shape list" where
  "roundState_shape = [TBig, TU64, TStruct PrePrepare_shape, TSet, TSet]"

fun roundState_of :: "item list \<Rightarrow> roundState option" where
  "roundState_of [Big (Some r), U64 s, Nested pp, SetItem ps, SetItem cs] =
     (case PrePrepare_of pp of None \<Rightarrow> None
      | Some pp \<Rightarrow> Some \<lparr>rsRound = r, rsSequence = s, rsPrePrepare = Some pp, Prepares = ps, Commits = cs,
          lockedHash = emptyHash, pendingRequest = None\<rparr>)"
| "roundState_of _ = None"

definition roundState_DecodeRLP :: "rlp \<Rightarrow> bytes \<Rightarrow> roundState option" where
  "roundState_DecodeRLP R b = (case rlpDecode R roundState_shape b of None \<Rightarrow> None | Some xs \<Rightarrow> roundState_of xs)"

section \<open>The codec of the core\<close>

text \<open>The library with these methods for subjects and pre-prepares. Decoding into a nil pointer allocates the
  value; the core never encodes a pre-prepare without a proposal, on which the encoder panics.\<close>

definition rlpLib :: "rlp \<Rightarrow> lib \<Rightarrow> lib" where
  "rlpLib R L = L\<lparr>
     encodePrePrepare := (\<lambda>x. case PrePrepare_EncodeRLP R x of None \<Rightarrow> None | Some b \<Rightarrow> b),
     decodePrePrepare := (\<lambda>b. map_option Some (PrePrepare_DecodeRLP R b)),
     encodeSubject := Subject_EncodeRLP R,
     decodeSubject := (\<lambda>b. map_option Some (Subject_DecodeRLP R b))\<rparr>"

lemma fits_all_Cons: "fits_all (t # ts) xs \<longleftrightarrow> (\<exists>x ys. xs = x # ys \<and> fits t x \<and> fits_all ts ys)"
  by (cases xs) auto

lemma fits_all_Nil: "fits_all [] xs \<longleftrightarrow> xs = []"
  by (cases xs) auto

lemma fits_iff:
  "fits TBig x \<longleftrightarrow> (\<exists>n. x = Big (Some n))" "fits THash x \<longleftrightarrow> (\<exists>h. x = HashItem h)"
  "fits TBlock x \<longleftrightarrow> (\<exists>p. x = BlockItem p)" "fits (TStruct ts) x \<longleftrightarrow> (\<exists>xs. x = Nested xs \<and> fits_all ts xs)"
  by (cases x; auto)+

lemmas shape_simps = View_shape_def Subject_shape_def PrePrepare_shape_def fits_all_Cons fits_all_Nil fits_iff

lemma decoded_Subject: "fits_all Subject_shape xs \<Longrightarrow> \<exists>sub. Subject_of xs = Some sub \<and> view_full (sbView sub)"
  by (auto simp: shape_simps view_full_def)

lemma decoded_PrePrepare:
  "fits_all PrePrepare_shape xs \<Longrightarrow> \<exists>pp p. PrePrepare_of xs = Some pp \<and> view_full (ppView pp) \<and> ppProposal pp = Some p"
  by (auto simp: shape_simps view_full_def)

lemma full_Subject:
  assumes "view_full (sbView x)"
  shows "list_all exact (Subject_items x)" "fits_all Subject_shape (Subject_items x)"
    "Subject_of (Subject_items x) = Some x"
  using assms by (auto simp: shape_simps view_full_def Subject_items_def viewItem_def View_items_def)

lemma full_PrePrepare:
  assumes "view_full (ppView x)" "PrePrepare_items x = Some xs"
  shows "list_all exact xs" "fits_all PrePrepare_shape xs" "PrePrepare_of xs = Some x"
  using assms
  by (auto simp: shape_simps view_full_def PrePrepare_items_def viewItem_def View_items_def elim!: bind_SomeE)

section \<open>A library\<close>

text \<open>A small instance of the library: one byte per number, nested lists with their length. It shows that
  \<open>rlp_ok\<close> can hold.\<close>

definition putByte :: "int \<Rightarrow> bytes option" where
  "putByte n = (if small n then Some [word_of_int n] else None)"

fun put :: "item \<Rightarrow> bytes option"
  and put_all :: "item list \<Rightarrow> bytes option" where
  "put (Big n) = (case n of None \<Rightarrow> Some [0] | Some n \<Rightarrow> putByte n)"
| "put (U64 n) = putByte (uint n)"
| "put (HashItem h) = putByte (uint h)"
| "put (BlockItem p) = (if Block p = [] then do {
     h \<leftarrow> putByte (uint (Height p));
     d \<leftarrow> putByte (uint (PHash p));
     t \<leftarrow> putByte (uint (Timestamp p));
     Some (h @ d @ t)
   } else None)"
| "put (SetItem ms) = Some []"
| "put NilItem = Some [0]"
| "put (Nested xs) = do { k \<leftarrow> putByte (int (length xs)); b \<leftarrow> put_all xs; Some (k @ b) }"
| "put_all [] = Some []"
| "put_all (x # xs) = do { b \<leftarrow> put x; bs \<leftarrow> put_all xs; Some (b @ bs) }"

fun pull :: "shape \<Rightarrow> bytes \<Rightarrow> (item \<times> bytes) option"
  and pull_all :: "shape list \<Rightarrow> bytes \<Rightarrow> (item list \<times> bytes) option" where
  "pull TBig (b # r) = Some (Big (Some (uint b)), r)"
| "pull TU64 (b # r) = Some (U64 (word_of_int (uint b)), r)"
| "pull THash (b # r) = Some (HashItem (word_of_int (uint b)), r)"
| "pull TBlock (h # d # t # r) = Some (BlockItem \<lparr>Height = word_of_int (uint h), PHash = word_of_int (uint d),
     Timestamp = word_of_int (uint t), Block = []\<rparr>, r)"
| "pull TSet r = Some (SetItem (NewMessageSet (newDefaultSet 0 [] RoundRobin)), r)"
| "pull (TStruct ts) (k # r) = (if unat k = length ts then
     (case pull_all ts r of None \<Rightarrow> None | Some (xs, r) \<Rightarrow> Some (Nested xs, r)) else None)"
| "pull _ _ = None"
| "pull_all [] r = Some ([], r)"
| "pull_all (t # ts) r = (case pull t r of None \<Rightarrow> None | Some (x, r) \<Rightarrow>
     (case pull_all ts r of None \<Rightarrow> None | Some (xs, r) \<Rightarrow> Some (x # xs, r)))"

definition exRlp :: rlp where
  "exRlp = \<lparr>rlpEncode = (\<lambda>xs. put (Nested xs)),
     rlpDecode = (\<lambda>ts b. case pull (TStruct ts) b of Some (Nested xs, []) \<Rightarrow> Some xs | _ \<Rightarrow> None)\<rparr>"

lemma putByte_Some: "putByte n = Some b \<longleftrightarrow> b = [word_of_int n] \<and> small n"
  by (auto simp: putByte_def)

lemma small_nat: "small (int n) \<Longrightarrow> unat (word_of_nat n :: byte) = n"
  by (simp add: small_def unat_of_nat)

lemma fits_length: "fits_all ts xs \<Longrightarrow> length ts = length xs"
  by (induction ts xs rule: list_induct2') auto

lemma pull_put:
  "fits t x \<Longrightarrow> exact x \<Longrightarrow> put x = Some b \<Longrightarrow> pull t (b @ r) = Some (x, r)"
  "fits_all ts xs \<Longrightarrow> list_all exact xs \<Longrightarrow> put_all xs = Some b \<Longrightarrow> pull_all ts (b @ r) = Some (xs, r)"
proof (induction t x and ts xs arbitrary: b r and b r rule: fits_fits_all.induct)
  case (6 ts xs)
  then show ?case
    by (auto simp: putByte_Some list_all_iff small_nat fits_length elim!: bind_SomeE)
qed (auto simp: putByte_Some small_word small_ucast elim!: bind_SomeE split: if_splits)

lemma pull_fits:
  "pull t b = Some (x, r) \<Longrightarrow> fits t x"
  "pull_all ts b = Some (xs, r) \<Longrightarrow> fits_all ts xs"
  by (induction t b and ts b arbitrary: x r and xs r rule: pull_pull_all.induct)
    (auto split: option.splits if_splits)

lemma exRlp_ok: "rlp_ok exRlp"
proof -
  have "rlpDecode exRlp ts b = Some xs"
    if "rlpEncode exRlp xs = Some b" "list_all exact xs" "fits_all ts xs" for xs ts b
    using pull_put(1) [of "TStruct ts" "Nested xs" b "[]"] that by (simp add: exRlp_def list_all_iff)
  moreover have "rlpDecode exRlp ts b = None" if "rlpEncode exRlp xs = Some b" "length ts \<noteq> length xs" for xs ts b
    using that by (auto simp: exRlp_def putByte_Some small_nat elim!: bind_SomeE)
  moreover have "fits_all ts xs" if "rlpDecode exRlp ts b = Some xs" for ts b xs
    using that pull_fits(1) [of "TStruct ts" b "Nested xs" "[]"]
    by (auto simp: exRlp_def split: option.splits item.splits list.splits prod.splits)
  ultimately show ?thesis unfolding rlp_ok_def by blast
qed

section \<open>Properties\<close>

text \<open>C20: with the RLP methods as the codec of subjects and pre-prepares, a library that encodes and
  decodes as documented, and a codec of messages that inverts, the codec of the core inverts on all values
  without nil pointers and decodes no nil pointer.\<close>

theorem rlp_codec_ok:
  assumes "rlp_ok R" "\<forall>m b. encodeMessage L m = Some b \<longrightarrow> decodeMessage L b = Some m"
  shows "codec_ok (rlpLib R L)"
proof -
  note R = rlp_okD [OF assms(1)]
  have "\<exists>pp q. p = Some pp \<and> view_full (ppView pp) \<and> ppProposal pp = Some q"
    if "decodePrePrepare (rlpLib R L) b = Some p" for b p
    using that R(3) decoded_PrePrepare
    by (fastforce simp: rlpLib_def PrePrepare_DecodeRLP_def split: option.splits)
  moreover have "\<exists>sub. p = Some sub \<and> view_full (sbView sub)" if "decodeSubject (rlpLib R L) b = Some p" for b p
    using that R(3) decoded_Subject by (fastforce simp: rlpLib_def Subject_DecodeRLP_def split: option.splits)
  moreover have "decodePrePrepare (rlpLib R L) b = Some (Some x)"
    if "view_full (ppView x)" "encodePrePrepare (rlpLib R L) x = Some b" for x b
  proof -
    from that(2) obtain xs where "PrePrepare_items x = Some xs" "rlpEncode R xs = Some b"
      by (auto simp: rlpLib_def PrePrepare_EncodeRLP_def elim!: bind_SomeE split: option.splits)
    then show ?thesis
      using R(1) full_PrePrepare [OF that(1)] by (simp add: rlpLib_def PrePrepare_DecodeRLP_def)
  qed
  moreover have "decodeSubject (rlpLib R L) b = Some (Some x)"
    if "view_full (sbView x)" "encodeSubject (rlpLib R L) x = Some b" for x b
    using R(1) full_Subject [OF that(1)] that(2)
    by (simp add: rlpLib_def Subject_DecodeRLP_def Subject_EncodeRLP_def)
  ultimately show ?thesis using assms(2) by (simp add: codec_ok_def decode_allocates_def rlpLib_def)
qed

theorem rlp_codec_ok_witness: "codec_ok (rlpLib exRlp exLib)"
  by (rule rlp_codec_ok [OF exRlp_ok]) (use exLib_ok(2) in \<open>simp add: codec_ok_def\<close>)

text \<open>C33: what \<open>EncodeRLP\<close> writes for a round state \<open>DecodeRLP\<close> refuses: it writes seven elements, and the
  struct that is decoded has five exported fields.\<close>

theorem round_state_not_decodable:
  assumes "rlp_ok R" "roundState_EncodeRLP R s = ret (Some b)"
  shows "roundState_DecodeRLP R b = None"
proof -
  from assms(2) obtain xs where "rlpEncode R xs = Some b" "length xs = 7"
    by (auto simp: roundState_EncodeRLP_def elim!: bind_SomeE)
  then show ?thesis
    using rlp_okD(2) [OF assms(1), of xs b roundState_shape] by (simp add: roundState_DecodeRLP_def roundState_shape_def)
qed

definition exRound :: roundState where
  "exRound = \<lparr>rsRound = 1, rsSequence = 5,
     rsPrePrepare = Some \<lparr>ppView = Some (mkView 5 1), ppProposal = Some (exBlock 5)\<rparr>,
     Prepares = NewMessageSet (exValidators [''a'']), Commits = NewMessageSet (exValidators [''a'']),
     lockedHash = 105, pendingRequest = None\<rparr>"

theorem round_state_not_decodable_witness:
  "\<exists>b. roundState_EncodeRLP exRlp exRound = ret (Some b) \<and> roundState_DecodeRLP exRlp b = None"
proof -
  have "roundState_EncodeRLP exRlp exRound = ret (Some [7, 1, 5, 2, 2, 1, 5, 5, 105, 10, 105, 0])" by code_simp
  with round_state_not_decodable [OF exRlp_ok this] show ?thesis by blast
qed

end
