(* ===== verification/Pbft_Total.thy ===== *)
theory Pbft_Total
  imports Pbft_Loop Pbft_Queues
begin

text \<open>
  Absence of run-time panics. Every nil dereference of the sources is a \<open>None\<close> of the model; here
  each operation of the core is shown to return in the states the engine can reach, for every
  message the network may deliver. What is needed of the outside is stated as \<open>decode_allocates\<close>
  (a decoder that succeeds leaves no nil pointer in what it decodes) and \<open>env_total\<close> (the backend
  knows the validators of a block).
\<close>

definition env_total :: "env \<Rightarrow> bool" where
  "env_total E \<longleftrightarrow> (\<forall>p. beValidators (envBackend E) p \<noteq> None) \<and>
     (\<forall>p. beParentValidators (envBackend E) p \<noteq> None)"

definition has_proposal :: "Request \<Rightarrow> bool" where
  "has_proposal r \<longleftrightarrow> rqProposal r \<noteq> None"

definition rq :: "core \<Rightarrow> Request prque \<times> Request list" where
  "rq c = (pendingRequests c, requestCh c)"

definition reqs_ok :: "core \<Rightarrow> bool" where
  "reqs_ok c \<longleftrightarrow> (\<forall>(r, p) \<in> set (pendingRequests c). has_proposal r) \<and>
     (\<forall>r \<in> set (requestCh c). has_proposal r) \<and>
     (\<forall>rs r. currentRoundState c = Some rs \<longrightarrow> pendingRequest rs = Some r \<longrightarrow> has_proposal r)"

definition calm :: "lib \<Rightarrow> core \<Rightarrow> bool" where
  "calm L c \<longleftrightarrow> core_inv L c \<and> reqs_ok c"

text \<open>\<open>idle c c'\<close>: only queues outside consensus and requests may differ.\<close>

definition idle :: "core \<Rightarrow> core \<Rightarrow> bool" where
  "idle c c' \<longleftrightarrow> ckernel c' = ckernel c \<and> rq c' = rq c"

lemma idle_refl [simp]: "idle c c"
  by (simp add: idle_def)

lemma idle_reqs_ok: "idle c c' \<Longrightarrow> reqs_ok c' = reqs_ok c"
  by (simp add: idle_def reqs_ok_def rq_def ckernel_eq_iff)

lemma idle_calm: "idle c c' \<Longrightarrow> calm L c' = calm L c"
  using core_inv_ckernel [of c' c] by (simp add: calm_def idle_reqs_ok) (simp add: idle_def)

lemma idle_trans: "idle c c1 \<Longrightarrow> idle c1 c2 \<Longrightarrow> idle c c2"
  by (simp add: idle_def)

section \<open>Gossip, queues and phases\<close>

lemma GossipPayload_total:
  assumes "valSet c \<noteq> None"
  shows "\<exists>e c'. GossipPayload E payload c = Some (e, c') \<and> idle c c'"
proof -
  from assms obtain vs where vs: "valSet c = Some vs" by blast
  obtain c1 ts where g: "gossip_loop (envLib E) (keccakHash (envLib E) payload) (ListOf vs) c [] = (c1, ts)"
    by fastforce
  have "idle c c1"
    using kernel_gossip_loop_eq [OF g]
      gossip_loop_frame [of "envLib E" "keccakHash (envLib E) payload" "ListOf vs" c "[]"] g
    by (simp add: idle_def rq_def)
  moreover have "idle c1 (c1\<lparr>broadcasts := x\<rparr>)" for x by (simp add: idle_def rq_def ckernel_def)
  ultimately show ?thesis
    using vs g by (auto simp: GossipPayload_def split: option.splits intro: idle_trans)
qed

lemma finalizeMessage_total: "currentRoundState c \<noteq> None \<Longrightarrow> \<exists>x. finalizeMessage E c msg = Some x"
  by (auto simp: finalizeMessage_def commitSeal_def split: option.splits sum.splits)

lemma Broadcast_total:
  assumes "valSet c \<noteq> None" "currentRoundState c \<noteq> None"
  shows "\<exists>c'. Broadcast E msg c = Some c' \<and> idle c c'"
proof -
  obtain x where x: "finalizeMessage E c msg = Some x" using finalizeMessage_total [OF assms(2)] by blast
  show ?thesis
  proof (cases x)
    case (Inr payload)
    let ?c = "c\<lparr>localMsgCh := localMsgCh c @ [payload]\<rparr>"
    have "idle c ?c" by (simp add: idle_def rq_def)
    moreover obtain e c' where "GossipPayload E payload ?c = Some (e, c')" "idle ?c c'"
      using GossipPayload_total [of ?c E payload] assms(1) by auto
    ultimately show ?thesis using x Inr by (auto simp: Broadcast_def intro: idle_trans)
  qed (simp add: Broadcast_def x)
qed

lemma drained_has_proposal:
  assumes "drained L f q q' ps" "\<forall>(r, p) \<in> set q. has_proposal r"
  shows "(\<forall>(r, p) \<in> set q'. has_proposal r) \<and> (\<forall>r \<in> set ps. has_proposal r)"
proof -
  from assms(1) obtain ds where "mset (map fst q) = mset ps + mset ds + mset (map fst q')"
    and "set q' \<subseteq> set q" by (auto simp: drained_def)
  then have "set ps \<subseteq> fst ` set q"
    by (metis (no_types, lifting) Un_iff image_set set_mset_mset set_mset_union subsetI)
  with assms(2) \<open>set q' \<subseteq> set q\<close> show ?thesis by fastforce
qed

lemma ProcessPendingRequests_total:
  assumes "currentRoundState c \<noteq> None" "reqs_ok c"
  shows "\<exists>c'. ProcessPendingRequests L c = Some c' \<and> reqs_ok c'"
proof -
  have ok: "\<forall>(r, p) \<in> set (pendingRequests c). has_proposal r" using assms(2) by (simp add: reqs_ok_def)
  obtain q ps where d: "drain L (request_verdict c) (pendingRequests c) [] = (q, ps)" by fastforce
  then have "drained L (request_verdict c) (pendingRequests c) q ps" using drain_drained [OF d] by simp
  from drained_has_proposal [OF this ok] assms(2)
  have "reqs_ok (c\<lparr>pendingRequests := q, requestCh := requestCh c @ ps\<rparr>)" by (auto simp: reqs_ok_def)
  moreover have "ProcessPendingRequests L c = Some (c\<lparr>pendingRequests := q, requestCh := requestCh c @ ps\<rparr>)"
    using pending_loop_drain [OF assms(1), of "pendingRequests c" L "[]"] ok d
    by (simp add: ProcessPendingRequests_def has_proposal_def)
  ultimately show ?thesis by blast
qed

lemma msgView_total:
  assumes "decode_allocates L"
  shows "msgView L m \<noteq> None"
  by (auto simp: msgView_def split: option.splits dest!: decode_allocatesD [OF assms])

lemma ProcessBacklog_total:
  assumes "currentRoundState c \<noteq> None" "decode_allocates L"
  shows "\<exists>c'. ProcessBacklog L c = Some c' \<and> idle c c'"
proof -
  have "\<forall>(v, q) \<in> set (backlogs c). \<forall>(m, p) \<in> set q. msgView L m \<noteq> None"
    using msgView_total [OF assms(2)] by auto
  from process_backlogs_drain [OF assms(1) this] show ?thesis
    by (auto simp: ProcessBacklog_def idle_def rq_def ckernel_def)
qed

lemma setState_total:
  assumes "currentRoundState c \<noteq> None" "reqs_ok c" "decode_allocates L"
  shows "\<exists>c'. setState L s c = Some c' \<and> reqs_ok c'"
proof -
  define c1 where "c1 = (if state c \<noteq> s then c\<lparr>state := s\<rparr> else c)"
  have c1: "currentRoundState c1 \<noteq> None" "reqs_ok c1"
    using assms(1,2) by (simp_all add: c1_def reqs_ok_def)
  obtain c2 where c2: "(if s = StateAcceptRequest then ProcessPendingRequests L c1 else ret c1) = Some c2"
      "reqs_ok c2" "currentRoundState c2 = currentRoundState c1"
  proof (cases "s = StateAcceptRequest")
    case True
    obtain c2 where c2: "ProcessPendingRequests L c1 = Some c2" "reqs_ok c2"
      using ProcessPendingRequests_total [OF c1] by blast
    moreover have "currentRoundState c2 = currentRoundState c1"
      using kernel_ProcessPendingRequests [OF c2(1)] by (simp add: ckernel_eq_iff)
    ultimately show thesis using that True by simp
  qed (use c1(2) that in auto)
  then obtain c3 where "ProcessBacklog L c2 = Some c3" "idle c2 c3"
    using ProcessBacklog_total [OF _ assms(3), of c2] c1(1) by auto
  then show ?thesis using c2 by (auto simp: setState_def idle_reqs_ok simp flip: c1_def)
qed


section \<open>Sending\<close>

lemma calmE:
  assumes "calm L c"
  obtains vs rs rcs where "valSet c = Some vs" "currentRoundState c = Some rs" "rcSet c = Some rcs"
    "lock_ok rs" "reqs_ok c" "core_inv L c"
  using assms by (auto simp: calm_def elim: core_invE)

lemma SubjectOf_total: "lock_ok rs \<Longrightarrow> \<exists>sp. SubjectOf rs = Some sp"
  by (auto simp: SubjectOf_def lock_ok_def split: option.splits)

lemma SubjectOf_proposal:
  "lock_ok rs \<Longrightarrow> rsPrePrepare rs \<noteq> None \<Longrightarrow> \<exists>sub. SubjectOf rs = Some (Some sub)"
  by (auto simp: SubjectOf_def lock_ok_def)

lemma SendPrePrepare_total:
  assumes "valSet c \<noteq> None" "currentRoundState c \<noteq> None" "has_proposal r"
  shows "\<exists>c'. SendPrePrepare E r c = Some c' \<and> idle c c'"
proof -
  from assms obtain rs p where "currentRoundState c = Some rs" "rqProposal r = Some p"
    by (auto simp: has_proposal_def)
  then show ?thesis
    using Broadcast_total [OF assms(1,2)]
    by (auto simp: SendPrePrepare_def currentView_eq split: option.splits)
qed

lemma broadcastCommit_total:
  "valSet c \<noteq> None \<Longrightarrow> currentRoundState c \<noteq> None \<Longrightarrow> \<exists>c'. broadcastCommit E sub c = Some c' \<and> idle c c'"
  using Broadcast_total [of c E] by (auto simp: broadcastCommit_def split: option.splits)

lemma send_subject_total:
  assumes "valSet c \<noteq> None" "currentRoundState c = Some rs" "lock_ok rs" "rsPrePrepare rs \<noteq> None"
  shows "\<exists>c'. SendPrepare E c = Some c' \<and> idle c c'" "\<exists>c'. SendCommit E c = Some c' \<and> idle c c'"
  using SubjectOf_proposal [OF assms(3,4)] Broadcast_total [of c E] broadcastCommit_total [of c E] assms(1,2)
  by (auto simp: SendPrepare_def SendCommit_def split: option.splits)

section \<open>Rounds\<close>

lemma reproposal_total:
  assumes "valSet c \<noteq> None" "reqs_ok c" "currentRoundState c = Some rs" "lock_ok rs" "hash_ok (envLib E)"
  shows "\<exists>c'. reproposal E c = Some c' \<and> idle c c'"
proof -
  have "has_proposal \<lparr>rqProposal = ProposalOf rs\<rparr>" if "lockedHash rs \<noteq> emptyHash"
    using that assms(4) by (auto simp: lock_ok_def ProposalOf_def has_proposal_def)
  moreover have "has_proposal r" if "pendingRequest rs = Some r" for r
    using that assms(2,3) by (auto simp: reqs_ok_def)
  ultimately show ?thesis
    using SendPrePrepare_total [OF assms(1), of _ E] assms(3,5)
    by (auto simp: reproposal_def IsHashLocked_def split: option.splits)
qed

lemma newRoundChangeTimer_total:
  "currentRoundState c \<noteq> None \<Longrightarrow> \<exists>c'. newRoundChangeTimer L c = Some c' \<and> idle c c'"
  by (auto simp: newRoundChangeTimer_def stopTimer_def idle_def rq_def ckernel_def)

lemma reqs_ok_nextRoundState:
  assumes "reqs_ok c"
  shows "reqs_ok (c\<lparr>currentRoundState := Some (nextRoundState L s r vs change (currentRoundState c))\<rparr>)"
  using assms by (auto simp: reqs_ok_def nextRoundState_def split: option.splits if_splits)

lemma reqs_ok_frame [simp]:
  "reqs_ok (c\<lparr>rcSet := a\<rparr>) = reqs_ok c" "reqs_ok (c\<lparr>valSet := b\<rparr>) = reqs_ok c"
  "reqs_ok (c\<lparr>waitingForRoundChange := d\<rparr>) = reqs_ok c" "reqs_ok (c\<lparr>consensusTimestamp := t\<rparr>) = reqs_ok c"
  "reqs_ok (c\<lparr>committed := l\<rparr>) = reqs_ok c" "reqs_ok (c\<lparr>state := s\<rparr>) = reqs_ok c"
  by (simp_all add: reqs_ok_def)

lemma enterRound_total:
  assumes "reqs_ok c" "decode_allocates (envLib E)" "hash_ok (envLib E)"
    "\<And>rs. currentRoundState c = Some rs \<Longrightarrow> lock_ok rs"
  shows "\<exists>c'. enterRound E (mkView s r) vs lp change c = Some c' \<and> reqs_ok c'"
proof -
  let ?rs = "nextRoundState (envLib E) s r vs change (currentRoundState c)"
  let ?c2 = "c\<lparr>rcSet := Some (newRoundChangeSet vs), currentRoundState := Some ?rs,
    valSet := Some (CalcProposer vs lp (big_Uint64 r)), waitingForRoundChange := False\<rparr>"
  have lock: "lock_ok ?rs" using assms(4) by (rule lock_ok_nextRoundState)
  have "reqs_ok ?c2" using reqs_ok_nextRoundState [OF assms(1)] by (simp add: reqs_ok_def)
  then obtain c3 where c3: "setState (envLib E) StateAcceptRequest ?c2 = Some c3" "reqs_ok c3"
    using setState_total [OF _ _ assms(2), of ?c2] by auto
  then have same: "currentRoundState c3 = Some ?rs" "valSet c3 \<noteq> None"
    using kernel_setState [OF c3(1)] by (simp_all add: ckernel_eq_iff)
  obtain c4 where c4: "(if change \<and> isProposer c3 then reproposal E c3 else ret c3) = Some c4" "idle c3 c4"
    using reproposal_total [OF same(2) c3(2) same(1) lock assms(3)]
    by (cases "change \<and> isProposer c3") auto
  then have "currentRoundState c4 \<noteq> None" using same by (simp add: idle_def ckernel_eq_iff)
  from newRoundChangeTimer_total [OF this] obtain c5 where
    "newRoundChangeTimer (envLib E) c4 = Some c5" "idle c4 c5" by blast
  then show ?thesis
    using c3 c4 by (auto simp: enterRound_def updateRoundState_mkView idle_reqs_ok)
qed

lemma newRoundKind_reqs:
  "newRoundKind rnd lp c = Some (change, c0) \<Longrightarrow>
     rq c0 = rq c \<and> ckernel c0 = ckernel c \<and> (currentRoundState c \<noteq> None \<longrightarrow> lp \<noteq> None)"
  by (auto simp: newRoundKind_def rq_def ckernel_def split: option.splits if_splits)

lemma StartNewRound_total:
  assumes "calm (envLib E) c" "decode_allocates (envLib E)" "hash_ok (envLib E)" "env_total E"
  shows "\<exists>c'. StartNewRound E rnd c = Some c' \<and> calm (envLib E) c'"
proof -
  from assms(1) obtain vs rs where c: "valSet c = Some vs" "currentRoundState c = Some rs" "lock_ok rs"
      "reqs_ok c" "core_inv (envLib E) c"
    by (elim calmE)
  have "\<exists>c'. StartNewRound E rnd c = Some c' \<and> reqs_ok c'"
  proof (cases "newRoundKind rnd (fst (beLastProposal (envBackend E))) c")
    case None
    then show ?thesis using c by (simp add: StartNewRound_def case_prod_unfold)
  next
    case (Some kc)
    obtain change c0 where kc: "kc = (change, c0)" by fastforce
    with Some have c0: "rq c0 = rq c" "ckernel c0 = ckernel c" "fst (beLastProposal (envBackend E)) \<noteq> None"
      using newRoundKind_reqs [of rnd _ c change c0] c(2) by auto
    then have idle: "idle c c0" by (simp add: idle_def)
    then have ok: "reqs_ok c0" "currentRoundState c0 = Some rs" "valSet c0 = Some vs"
      using c by (auto simp: idle_reqs_ok) (auto simp: idle_def ckernel_eq_iff)
    obtain lp where lp: "fst (beLastProposal (envBackend E)) = Some lp" using c0(3) by blast
    obtain ws where ws: "beValidators (envBackend E) lp = Some ws" using assms(4) by (auto simp: env_total_def)
    have lock: "\<And>rs'. currentRoundState c0 = Some rs' \<Longrightarrow> lock_ok rs'" using ok(2) c(3) by auto
    show ?thesis
    proof (cases change)
      case True
      then show ?thesis
        using Some kc ok enterRound_total [OF ok(1) assms(2,3) lock]
        by (simp add: StartNewRound_def case_prod_unfold)
    next
      case False
      have "reqs_ok (c0\<lparr>valSet := Some ws\<rparr>)" using ok(1) by simp
      from enterRound_total [OF this assms(2,3)] lock have
        "\<exists>c'. enterRound E (mkView (big_of_u64 (Height lp) + 1) 0) ws (snd (beLastProposal (envBackend E)))
           False (c0\<lparr>valSet := Some ws\<rparr>) = Some c' \<and> reqs_ok c'" by simp
      then show ?thesis
        using Some kc False lp ws by (simp add: StartNewRound_def case_prod_unfold)
    qed
  qed
  then show ?thesis using StartNewRound_inv c(5) by (auto simp: calm_def)
qed

lemma sendRoundChange_total:
  assumes "calm (envLib E) c"
  shows "\<exists>c'. sendRoundChange E r c = Some c' \<and> calm (envLib E) c'"
proof -
  from assms obtain vs rs rcs where c: "valSet c = Some vs" "currentRoundState c = Some rs"
      "rcSet c = Some rcs" "reqs_ok c" "core_inv (envLib E) c"
    by (elim calmE)
  have "\<exists>c'. sendRoundChange E r c = Some c' \<and> reqs_ok c'"
  proof (cases "rsRound rs < r")
    case True
    let ?s = "big_of_u64 (rsSequence rs)"
    let ?rs = "nextRoundState (envLib E) ?s r vs True (currentRoundState c)"
    let ?c3 = "c\<lparr>waitingForRoundChange := True, currentRoundState := Some ?rs, rcSet := Some (rcs_Clear rcs r)\<rparr>"
    obtain c4 where c4: "newRoundChangeTimer (envLib E) ?c3 = Some c4" "idle ?c3 c4"
      using newRoundChangeTimer_total [of ?c3] by auto
    have "catchUpRound E (mkView ?s r) c = Some c4"
      using c c4(1) by (simp add: catchUpRound_def updateRoundState_mkView)
    moreover have ok: "reqs_ok c4" "valSet c4 \<noteq> None" "currentRoundState c4 = Some ?rs"
      using c4(2) c reqs_ok_nextRoundState [OF c(4)]
      by (auto simp: idle_reqs_ok) (auto simp: idle_def ckernel_eq_iff reqs_ok_def)
    moreover have "\<exists>c'. Broadcast E m c4 = Some c' \<and> reqs_ok c'" for m
      using Broadcast_total [OF ok(2), of E m] ok by (auto simp: idle_reqs_ok)
    ultimately show ?thesis
      using True c by (auto simp: sendRoundChange_def currentView_eq split: option.splits)
  qed (use c in \<open>auto simp: sendRoundChange_def currentView_eq\<close>)
  then show ?thesis using sendRoundChange_inv c(5) by (auto simp: calm_def)
qed

lemma sendNextRoundChange_total:
  "calm (envLib E) c \<Longrightarrow> \<exists>c'. sendNextRoundChange E c = Some c' \<and> calm (envLib E) c'"
  using sendRoundChange_total [of E c] by (auto simp: sendNextRoundChange_def currentView_eq elim!: calmE)


section \<open>Handlers\<close>

lemma reqs_ok_roundState:
  assumes "reqs_ok c" "currentRoundState c = Some rs"
    "pendingRequest rs' = pendingRequest rs \<or> pendingRequest rs' = None \<or>
      (\<exists>r. pendingRequest rs' = Some r \<and> has_proposal r)"
  shows "reqs_ok (c\<lparr>currentRoundState := Some rs'\<rparr>)"
  using assms by (auto simp: reqs_ok_def)

lemma HandleRequest_total:
  assumes "calm (envLib E) c" "has_proposal r"
  shows "\<exists>e c'. HandleRequest E r c = Some (e, c') \<and> calm (envLib E) c'"
proof -
  from assms(1) obtain vs rs where c: "valSet c = Some vs" "currentRoundState c = Some rs"
      "reqs_ok c" "core_inv (envLib E) c"
    by (elim calmE)
  obtain p where p: "rqProposal r = Some p" using assms(2) by (auto simp: has_proposal_def)
  obtain e where e: "checkRequestMsg c (Some r) = Some e" using checkRequestMsg_total [of c] c(2) by auto
  define c1 where "c1 = (if state c = StateAcceptRequest
      then c\<lparr>currentRoundState := Some (rs\<lparr>pendingRequest := Some r\<rparr>)\<rparr> else c)"
  have c1: "reqs_ok c1" "valSet c1 \<noteq> None" "currentRoundState c1 \<noteq> None"
    using c assms(2) reqs_ok_roundState [OF c(3,2)] by (auto simp: c1_def)
  have send: "\<exists>c'. SendPrePrepare E r c1 = Some c' \<and> reqs_ok c'"
    using SendPrePrepare_total [OF c1(2,3) assms(2), of E] c1(1) by (auto simp: idle_reqs_ok)
  have "\<exists>e c'. HandleRequest E r c = Some (e, c') \<and> reqs_ok c'"
  proof (cases e)
    case None
    then show ?thesis
      using p e c send c1(1) unfolding HandleRequest_def
      by (cases "state c1 = StateAcceptRequest \<and> \<not> waitingForRoundChange c1") (auto simp: c1_def)
  qed (use p e c in \<open>auto simp: HandleRequest_def\<close>)
  then show ?thesis using HandleRequest_inv c(4) by (auto simp: calm_def)
qed

lemma acceptProposal_total:
  assumes "calm (envLib E) c" "decode_allocates (envLib E)" "hash_ok (envLib E)" "ppProposal pp = Some p"
  shows "\<exists>c'. acceptProposal E pp p c = Some c' \<and> reqs_ok c'"
proof -
  from assms(1) obtain vs rs where c: "valSet c = Some vs" "currentRoundState c = Some rs"
      "lock_ok rs" "reqs_ok c"
    by (elim calmE)
  let ?rs = "rs\<lparr>rsPrePrepare := Some pp\<rparr>"
  let ?c1 = "c\<lparr>consensusTimestamp := envNow E, currentRoundState := Some ?rs\<rparr>"
  have sub: "\<exists>sub. SubjectOf ?rs = Some (Some sub)" using assms(4) by (auto simp: SubjectOf_def)
  have "reqs_ok ?c1" using c(2,4) by (auto simp: reqs_ok_def)
  then have phase: "\<exists>c2. setState (envLib E) s ?c1 = Some c2 \<and> reqs_ok c2 \<and> valSet c2 \<noteq> None \<and>
      currentRoundState c2 = Some ?rs" for s
    using setState_total [OF _ _ assms(2), of ?c1 s] c(1)
    by (fastforce dest: kernel_setState simp: ckernel_eq_iff)
  have send: "\<exists>c'. SendPrepare E c2 = Some c' \<and> reqs_ok c'" "\<exists>c'. SendCommit E c2 = Some c' \<and> reqs_ok c'"
    if "reqs_ok c2" "valSet c2 \<noteq> None" "currentRoundState c2 = Some ?rs" for c2
    using sub Broadcast_total [OF that(2), of E] broadcastCommit_total [OF that(2), of E] that
    by (auto simp: SendPrepare_def SendCommit_def idle_reqs_ok split: option.splits) (metis idle_reqs_ok)+
  obtain c2 where c2: "setState (envLib E) StatePrepared ?c1 = Some c2" "reqs_ok c2" "valSet c2 \<noteq> None"
      "currentRoundState c2 = Some ?rs" using phase by blast
  obtain c3 where c3: "setState (envLib E) StatePrePrepared ?c1 = Some c3" "reqs_ok c3" "valSet c3 \<noteq> None"
      "currentRoundState c3 = Some ?rs" using phase by blast
  show ?thesis
    using send(2) [OF c2(2-4)] send(1) [OF c3(2-4)] c2(1) c3(1) c(2) sendNextRoundChange_total [OF assms(1)]
    by (auto simp: acceptProposal_def acceptPrePrepare_def SetPrePrepare_def calm_def)
qed

lemma oldPrePrepare_total:
  assumes "calm (envLib E) c" "env_total E" "Round view \<noteq> None"
  shows "\<exists>e c'. oldPrePrepare E pp p view val c = Some (e, c') \<and> idle c c'"
proof -
  obtain pvs where "beParentValidators (envBackend E) p = Some pvs"
    using assms(2) by (auto simp: env_total_def)
  moreover obtain r where "Round view = Some r" using assms(3) by blast
  moreover have "valSet c \<noteq> None" "currentRoundState c \<noteq> None" using assms(1) by (auto elim!: calmE)
  ultimately show ?thesis
    using broadcastCommit_total [of c E "\<lparr>sbView = ppView pp, Digest = PHash p\<rparr>"]
    by (auto simp: oldPrePrepare_def sendCommitForOldBlock_def split: if_splits)
qed

lemma HandlePrePrepare_total:
  assumes "calm (envLib E) c" "decode_allocates (envLib E)" "hash_ok (envLib E)" "env_total E"
  shows "\<exists>e c'. HandlePrePrepare E msg val c = Some (e, c') \<and> calm (envLib E) c'"
proof -
  from assms(1) obtain vs rs where c: "valSet c = Some vs" "currentRoundState c = Some rs"
      "reqs_ok c" "core_inv (envLib E) c"
    by (elim calmE)
  have "\<exists>e c'. HandlePrePrepare E msg val c = Some (e, c') \<and> reqs_ok c'"
  proof (cases "decodePrePrepare (envLib E) (Msg msg)")
    case (Some ptr)
    then obtain pp p s r where pp: "ptr = Some pp" "ppView pp = Some (mkView s r)" "ppProposal pp = Some p"
      using decode_allocatesD(1) [OF assms(2)] by blast
    obtain e where e: "checkMessage c MsgPrePrepare (ppView pp) = Some e"
      using checkMessage_total [of c] c(2) by blast
    obtain e1 c1 where "oldPrePrepare E pp p (mkView s r) val c = Some (e1, c1)" "reqs_ok c1"
      using oldPrePrepare_total [OF assms(1,4), of "mkView s r" pp p val] c(3) by (auto simp: idle_reqs_ok)
    moreover obtain c2 where "acceptProposal E pp p c = Some c2" "reqs_ok c2"
      using acceptProposal_total [OF assms(1-3) pp(3)] by blast
    ultimately show ?thesis
      using Some pp e c by (auto simp: HandlePrePrepare_def split: option.splits)
  qed (simp add: HandlePrePrepare_def c)
  then show ?thesis using HandlePrePrepare_inv assms(3) c(4) by (auto simp: calm_def)
qed

lemma lockHash_total:
  assumes "core_inv L c" "reqs_ok c"
  shows "\<exists>c'. lockHash c = Some c' \<and> reqs_ok c' \<and> core_inv L c'"
proof -
  from assms(1) obtain rs where c: "currentRoundState c = Some rs" "lock_ok rs" by (auto elim: core_invE)
  then obtain c' where lock: "lockHash c = Some c'"
    by (cases "rsPrePrepare rs") (auto simp: lockHash_def LockHash_def lock_ok_def)
  then obtain h where "c' = c\<lparr>currentRoundState := Some (rs\<lparr>lockedHash := h\<rparr>)\<rparr>"
    using c(1) by (auto elim: lockHash_frame)
  then have "reqs_ok c'" using reqs_ok_roundState [OF assms(2) c(1)] by simp
  with lock lockHash_inv [OF lock assms(1)] show ?thesis by blast
qed

lemma verifySubject_total:
  assumes "core_inv L c"
  shows "\<exists>e. verifySubject sub c = Some e"
  using assms SubjectOf_total by (fastforce simp: verifySubject_def elim: core_invE)


lemma SendCommit_total:
  assumes "core_inv L c" "reqs_ok c" "currentRoundState c = Some rs" "rsPrePrepare rs \<noteq> None"
  shows "\<exists>c'. SendCommit E c = Some c' \<and> reqs_ok c'"
proof -
  from assms(1,3) have "valSet c \<noteq> None" "lock_ok rs" by (auto elim: core_invE)
  from send_subject_total(2) [OF this(1) assms(3) this(2) assms(4), of E] assms(2)
  show ?thesis by (auto simp: idle_reqs_ok)
qed

text \<open>A vote that has passed its checks: the core has a proposal, and adding the vote keeps the rest.\<close>

lemma vote_passed:
  assumes "verifySubject sub c = Some None" "currentRoundState c = Some rs"
  shows "SubjectOf rs = Some (Some sub) \<and> rsPrePrepare rs \<noteq> None"
  using assms by (auto simp: verifySubject_def SubjectOf_def elim!: bind_SomeE split: option.splits if_splits)

lemma HandlePrepare_total:
  assumes "calm (envLib E) c" "decode_allocates (envLib E)" "Code msg = MsgPrepare"
  shows "\<exists>e c'. HandlePrepare E msg val c = Some (e, c') \<and> calm (envLib E) c'"
proof -
  from assms(1) obtain vs rs where c: "valSet c = Some vs" "currentRoundState c = Some rs"
      "reqs_ok c" "core_inv (envLib E) c"
    by (elim calmE)
  let ?rs1 = "rs\<lparr>Prepares := snd (ms_Add (Prepares rs) msg)\<rparr>"
  let ?c1 = "c\<lparr>currentRoundState := Some ?rs1\<rparr>"
  have ok1: "reqs_ok ?c1" using reqs_ok_roundState [OF c(3,2)] by simp
  have acc: "acceptPrepare msg c = Some ?c1" using c(2) by (simp add: acceptPrepare_def)
  have "\<exists>e c'. HandlePrepare E msg val c = Some (e, c') \<and> reqs_ok c'"
  proof (cases "decodeSubject (envLib E) (Msg msg)")
    case (Some ptr)
    then obtain sub s r where sub: "ptr = Some sub" "sbView sub = Some (mkView s r)"
      using decode_allocatesD(2) [OF assms(2)] by blast
    obtain e where e: "checkMessage c MsgPrepare (sbView sub) = Some e"
      using checkMessage_total [of c] c(2) by blast
    obtain ve where ve: "verifySubject sub c = Some ve" using verifySubject_total [OF c(4)] by blast
    show ?thesis
    proof (cases "e = None \<and> ve = None")
      case True
      note pass = accepted_vote [of c MsgPrepare sub "envLib E" msg rs] vote_passed [of sub c rs]
      have inv1: "core_inv (envLib E) ?c1"
        using core_inv_addPrepare [OF acc c(4,2)] pass True e ve Some sub(1) assms(3) c(2) by simp
      have ok: "\<not> waitingForRoundChange c" "state c \<noteq> StateAcceptRequest" "rsPrePrepare rs \<noteq> None"
        using pass True e ve Some sub(1) assms(3) c(2) by simp_all
      obtain c2 where c2: "lockHash ?c1 = Some c2" "reqs_ok c2" "core_inv (envLib E) c2"
        using lockHash_total [OF inv1 ok1] by blast
      then obtain h where c2_eq: "c2 = ?c1\<lparr>currentRoundState := Some (?rs1\<lparr>lockedHash := h\<rparr>)\<rparr>"
        by (auto elim: lockHash_frame)
      obtain c3 where c3: "setState (envLib E) StatePrepared c2 = Some c3" "reqs_ok c3"
        using setState_total [OF _ c2(2) assms(2)] c2_eq by fastforce
      have c3': "core_inv (envLib E) c3" "currentRoundState c3 = Some (?rs1\<lparr>lockedHash := h\<rparr>)"
        using setState_inv [OF c3(1) core_inv_later_phase [OF c2(3)]] ok c2_eq kernel_setState [OF c3(1)]
        by (simp_all add: ckernel_eq_iff)
      obtain c4 where "SendCommit E c3 = Some c4" "reqs_ok c4"
        using SendCommit_total [OF c3'(1) c3(2) c3'(2)] ok(3) by auto
      then show ?thesis
        using Some sub e ve True acc c2(1) c3(1) ok1 c(1)
        by (auto simp: HandlePrepare_def reachPrepareThreshold_def)
    qed (use Some sub e ve c(3) in \<open>auto simp: HandlePrepare_def split: option.splits\<close>)
  qed (simp add: HandlePrepare_def c(3))
  then show ?thesis using HandlePrepare_inv c(4) assms(3) by (auto simp: calm_def)
qed

lemma commitProposal_total:
  assumes "core_inv (envLib E) c" "reqs_ok c" "decode_allocates (envLib E)"
    "\<not> waitingForRoundChange c" "state c \<noteq> StateAcceptRequest"
  shows "\<exists>c'. commitProposal E c = Some c' \<and> reqs_ok c'"
proof -
  from assms(1) obtain rs where rs: "currentRoundState c = Some rs" by (auto elim: core_invE)
  obtain c1 where c1: "setState (envLib E) StateCommitted c = Some c1" "reqs_ok c1"
    using setState_total [OF _ assms(2,3)] rs by blast
  have c1': "core_inv (envLib E) c1" "currentRoundState c1 = Some rs"
    using setState_inv [OF c1(1) core_inv_later_phase [OF assms(1,4,5)]] kernel_setState [OF c1(1)] rs
    by (simp_all add: ckernel_eq_iff)
  have "calm (envLib E) (c1\<lparr>committed := l, currentRoundState := Some (UnlockHash rs)\<rparr>)" for l
    using core_inv_unlock(1) [of "envLib E" "c1\<lparr>committed := l\<rparr>" rs] c1' c1(2)
      reqs_ok_roundState [of "c1\<lparr>committed := l\<rparr>" rs "UnlockHash rs"]
    by (simp add: calm_def UnlockHash_def)
  from sendNextRoundChange_total [OF this] show ?thesis
    using c1 c1'(2) by (auto simp: commitProposal_def Let_def calm_def split: option.splits)
qed

lemma HandleCommit_total:
  assumes "calm (envLib E) c" "decode_allocates (envLib E)" "Code msg = MsgCommit"
  shows "\<exists>e c'. HandleCommit E msg val c = Some (e, c') \<and> calm (envLib E) c'"
proof -
  from assms(1) obtain vs rs where c: "valSet c = Some vs" "currentRoundState c = Some rs"
      "reqs_ok c" "core_inv (envLib E) c"
    by (elim calmE)
  let ?rs1 = "rs\<lparr>Commits := snd (ms_Add (Commits rs) msg)\<rparr>"
  let ?c1 = "c\<lparr>currentRoundState := Some ?rs1\<rparr>"
  have ok1: "reqs_ok ?c1" using reqs_ok_roundState [OF c(3,2)] by simp
  have acc: "acceptCommit msg c = Some ?c1" using c(2) by (simp add: acceptCommit_def)
  have "\<exists>e c'. HandleCommit E msg val c = Some (e, c') \<and> reqs_ok c'"
  proof (cases "decodeSubject (envLib E) (Msg msg)")
    case (Some ptr)
    then obtain sub s r where sub: "ptr = Some sub" "sbView sub = Some (mkView s r)"
      using decode_allocatesD(2) [OF assms(2)] by blast
    obtain e where e: "checkMessage c MsgCommit (sbView sub) = Some e"
      using checkMessage_total [of c] c(2) by blast
    obtain ve where ve: "verifySubject sub c = Some ve" using verifySubject_total [OF c(4)] by blast
    show ?thesis
    proof (cases "e = None \<and> ve = None")
      case True
      note pass = accepted_vote [of c MsgCommit sub "envLib E" msg rs]
      have inv1: "core_inv (envLib E) ?c1"
        using core_inv_addCommit [OF acc c(4,2)] pass True e ve Some sub(1) assms(3) c(2) by simp
      have ok: "\<not> waitingForRoundChange c" "state c \<noteq> StateAcceptRequest"
        using pass True e ve Some sub(1) assms(3) c(2) by simp_all
      obtain c2 where c2: "lockHash ?c1 = Some c2" "reqs_ok c2" "core_inv (envLib E) c2"
        using lockHash_total [OF inv1 ok1] by blast
      then have "\<not> waitingForRoundChange c2" "state c2 \<noteq> StateAcceptRequest"
        using ok by (auto elim!: lockHash_frame)
      then obtain c3 where "commitProposal E c2 = Some c3" "reqs_ok c3"
        using commitProposal_total [OF c2(3,2) assms(2)] by blast
      then show ?thesis
        using Some sub e ve True acc c2(1) ok1 c(1)
        by (auto simp: HandleCommit_def reachCommitThreshold_def)
    qed (use Some sub e ve c(3) in \<open>auto simp: HandleCommit_def split: option.splits\<close>)
  qed (simp add: HandleCommit_def c(3))
  then show ?thesis using HandleCommit_inv c(4) assms(3) by (auto simp: calm_def)
qed


lemma countedRoundChange_total:
  assumes "calm (envLib E) c" "decode_allocates (envLib E)" "hash_ok (envLib E)" "env_total E"
  shows "\<exists>e c'. countedRoundChange E cr r num c = Some (e, c') \<and> calm (envLib E) c'"
proof -
  obtain vs where vs: "valSet c = Some vs" using assms(1) by (elim calmE)
  show ?thesis
    using StartNewRound_total [OF assms, of r] sendRoundChange_total [OF assms(1), of r] vs assms(1)
    by (auto simp: countedRoundChange_def)
qed

lemma HandleRoundChange_total:
  assumes "calm (envLib E) c" "decode_allocates (envLib E)" "hash_ok (envLib E)" "env_total E"
  shows "\<exists>e c'. HandleRoundChange E msg val c = Some (e, c') \<and> calm (envLib E) c'"
proof (cases "decodeSubject (envLib E) (Msg msg)")
  case (Some ptr)
  from assms(1) obtain rs rcs where c: "currentRoundState c = Some rs" "rcSet c = Some rcs"
      "reqs_ok c" "core_inv (envLib E) c"
    by (elim calmE)
  obtain sub s r where sub: "ptr = Some sub" "sbView sub = Some (mkView s r)"
    using decode_allocatesD(2) [OF assms(2) Some] by blast
  obtain e where e: "checkMessage c MsgRoundChange (sbView sub) = Some e"
    using checkMessage_total [of c] c(1) by blast
  have "rcs_inv rcs" using c(2,4) by (auto elim: core_invE)
  then have "calm (envLib E) (c\<lparr>rcSet := Some (snd (rcs_Add rcs r msg))\<rparr>)"
    using core_inv_rcSet [OF c(4,2)] rcs_inv_Add [of rcs r msg] c(3) by (simp add: calm_def)
  note counted = this countedRoundChange_total [OF this assms(2-4), of "rsRound rs" r "fst (fst (rcs_Add rcs r msg))"]
  show ?thesis
    using Some sub e c(1,2) counted assms(1)
    by (auto simp: HandleRoundChange_def currentView_eq case_prod_unfold Let_def split: option.splits)
qed (simp add: HandleRoundChange_def assms(1))



lemma StoreBacklog_total:
  assumes "decode_allocates L"
  shows "\<exists>c'. StoreBacklog L msg val c = Some c' \<and> idle c c'"
proof -
  have store: "idle c (c\<lparr>backlogs := x\<rparr>)" for x by (simp add: idle_def rq_def ckernel_def)
  then show ?thesis
    by (auto simp: StoreBacklog_def Let_def toPriority_def split: option.splits
        dest!: decode_allocatesD [OF assms])
qed

lemma handleMsg_total:
  assumes "calm (envLib E) c" "decode_allocates (envLib E)" "hash_ok (envLib E)" "env_total E"
  shows "\<exists>e c'. handleMsg E msg val c = Some (e, c') \<and> calm (envLib E) c'"
proof -
  have stored: "\<exists>e' c'. (do { (e, c1) \<leftarrow> res; (if e = Some errFutureMessage
        then do { c2 \<leftarrow> StoreBacklog (envLib E) msg val c1; ret (e, c2) } else ret (e, c1)) }) = Some (e', c') \<and>
      calm (envLib E) c'" if res: "\<exists>e c1. res = Some (e, c1) \<and> calm (envLib E) c1" for res
  proof -
    from res obtain e c1 where "res = Some (e, c1)" "calm (envLib E) c1" by blast
    moreover obtain c2 where "StoreBacklog (envLib E) msg val c1 = Some c2" "idle c1 c2"
      using StoreBacklog_total [OF assms(2)] by blast
    ultimately show ?thesis by (auto simp: idle_calm)
  qed
  show ?thesis
    using stored [OF HandlePrePrepare_total [OF assms, of msg val]]
      stored [OF HandlePrepare_total [OF assms(1,2), of msg val]]
      stored [OF HandleCommit_total [OF assms(1,2), of msg val]]
      stored [OF HandleRoundChange_total [OF assms, of msg val]] assms(1)
    by (simp add: handleMsg_def Let_def)
qed

lemma handleTimeoutMsg_total:
  assumes "calm (envLib E) c" "decode_allocates (envLib E)" "hash_ok (envLib E)" "env_total E"
  shows "\<exists>c'. handleTimeoutMsg E c = Some c' \<and> calm (envLib E) c'"
proof -
  from assms(1) obtain vs rs rcs where c: "valSet c = Some vs" "currentRoundState c = Some rs"
      "rcSet c = Some rcs" "reqs_ok c" "core_inv (envLib E) c"
    by (elim calmE)
  let ?rs = "rs\<lparr>lockedHash := emptyHash, pendingRequest := None\<rparr>"
  let ?c1 = "c\<lparr>currentRoundState := Some ?rs\<rparr>"
  have "calm (envLib E) ?c1"
    using core_inv_unlock(2) [OF c(5,2)] reqs_ok_roundState [OF c(4,2), of ?rs] by (simp add: calm_def)
  note tot = StartNewRound_total [OF this assms(2-4), of 0] sendNextRoundChange_total [OF this]
    sendRoundChange_total [OF this]
  show ?thesis
    using c tot by (auto simp: handleTimeoutMsg_def UnlockHash_def split: option.splits)
qed

section \<open>The event loop\<close>

lemma decodeMsg_total: "valSet c \<noteq> None \<Longrightarrow> \<exists>r. decodeMsg L c p = Some r"
  by (auto simp: decodeMsg_def split: sum.splits option.splits)

lemma calm_idle: "calm L c \<Longrightarrow> idle c c' \<Longrightarrow> calm L c'"
  by (simp add: idle_calm)

lemma StoreRequestMsg_total:
  assumes "calm L c" "has_proposal r"
  shows "\<exists>c'. StoreRequestMsg r c = Some c' \<and> calm L c'"
proof -
  obtain p where "rqProposal r = Some p" using assms(2) by (auto simp: has_proposal_def)
  then obtain c' where c': "StoreRequestMsg r c = Some c'" by (simp add: StoreRequestMsg_def)
  then have "reqs_ok c'"
    using assms by (auto simp: StoreRequestMsg_def calm_def reqs_ok_def prque_Push_def elim!: bind_SomeE)
  with c' assms(1) show ?thesis
    using core_inv_ckernel [OF kernel_StoreRequestMsg [OF c']] by (auto simp: calm_def)
qed

lemma loop_total:
  assumes "calm (envLib E) c" "decode_allocates (envLib E)" "hash_ok (envLib E)" "env_total E"
  shows "has_proposal r \<Longrightarrow> \<exists>c'. onRequest E r c = Some c' \<and> calm (envLib E) c'"
    and "\<exists>c'. onLocalMsg E p c = Some c' \<and> calm (envLib E) c'"
    and "\<exists>c'. onBacklog E b c = Some c' \<and> calm (envLib E) c'"
    and "\<exists>c'. HandleFinalCommitted E c = Some c' \<and> calm (envLib E) c'"
    and "\<exists>c'. onP2PMsg E d c = Some c' \<and> calm (envLib E) c'"
proof -
  show "\<exists>c'. onRequest E r c = Some c' \<and> calm (envLib E) c'" if "has_proposal r"
    using HandleRequest_total [OF assms(1) that] StoreRequestMsg_total [OF _ that, of "envLib E"]
    by (fastforce simp: onRequest_def)
  have vs: "valSet c \<noteq> None" using assms(1) by (auto elim!: calmE)
  show "\<exists>c'. onLocalMsg E p c = Some c' \<and> calm (envLib E) c'"
  proof -
    obtain res where res: "decodeMsg (envLib E) c p = Some res" using decodeMsg_total [OF vs] by blast
    show ?thesis
    proof (cases res)
      case (Inr mv)
      then show ?thesis
        using res handleMsg_total [OF assms, of "fst mv" "snd mv"]
        by (auto simp: onLocalMsg_def case_prod_unfold)
    qed (simp add: onLocalMsg_def res assms(1))
  qed
  show "\<exists>c'. onBacklog E b c = Some c' \<and> calm (envLib E) c'"
    using handleMsg_total [OF assms, of "snd b" "fst b"] by (auto simp: onBacklog_def)
  show "\<exists>c'. HandleFinalCommitted E c = Some c' \<and> calm (envLib E) c'"
    using StartNewRound_total [OF assms] by (simp add: HandleFinalCommitted_def)
  have marked: "idle c ((markPeer (envLib E) x h c)\<lparr>knownMessages := k\<rparr>)" for x h k
    by (simp add: idle_def rq_def markPeer_def Let_def ckernel_def)
  have handled: "\<exists>e c2. handleMsg E m v ((markPeer (envLib E) x h c)\<lparr>knownMessages := k\<rparr>) = Some (e, c2) \<and>
      calm (envLib E) c2 \<and> (\<exists>g c3. GossipPayload E d c2 = Some (g, c3) \<and> calm (envLib E) c3)" for m v x h k
  proof -
    obtain e c2 where c2: "handleMsg E m v ((markPeer (envLib E) x h c)\<lparr>knownMessages := k\<rparr>) = Some (e, c2)"
        "calm (envLib E) c2"
      using handleMsg_total [OF calm_idle [OF assms(1) marked] assms(2-4)] by blast
    then have "valSet c2 \<noteq> None" by (auto elim!: calmE)
    from GossipPayload_total [OF this] c2 show ?thesis by (blast intro: calm_idle)
  qed
  obtain res where res: "decodeMsg (envLib E) c d = Some res" using decodeMsg_total [OF vs] by blast
  show "\<exists>c'. onP2PMsg E d c = Some c' \<and> calm (envLib E) c'"
  proof (cases res)
    case (Inr mv)
    obtain m v where mv: "mv = (m, v)" by fastforce
    let ?h = "keccakHash (envLib E) d"
    let ?k = "knownMessages (markPeer (envLib E) (ID v) ?h c)"
    show ?thesis
      using res Inr mv calm_idle [OF assms(1) marked] handled [of m v "CAdd ?h # CGet ?h # ?k" "ID v" ?h]
      by (auto simp: onP2PMsg_def Let_def)
  qed (simp add: onP2PMsg_def res assms(1))
qed


text \<open>The environments in which no dereference fails.\<close>

definition sound_runs :: "lib \<Rightarrow> env \<Rightarrow> bool" where
  "sound_runs L E \<longleftrightarrow> runs L E \<and> env_total E"

lemma calm_kernel_queues:
  "ckernel c' = ckernel c \<Longrightarrow> pendingRequests c' = pendingRequests c \<Longrightarrow>
     set (requestCh c') \<subseteq> set (requestCh c) \<Longrightarrow> calm L c \<Longrightarrow> calm L c'"
  using core_inv_ckernel [of c' c] by (auto simp: calm_def reqs_ok_def ckernel_eq_iff)

lemma calm_core_Request:
  assumes "core_Request r c = Some (e, c')" "calm L c"
  shows "calm L c'"
proof -
  from assms(1) have "c' = c \<or> has_proposal r \<and> c' = c\<lparr>requestCh := requestCh c @ [r]\<rparr>"
    by (auto simp: core_Request_def has_proposal_def elim!: bind_SomeE split: if_splits)
  then show ?thesis
    using assms(2) core_inv_ckernel [of "c\<lparr>requestCh := requestCh c @ [r]\<rparr>" c L]
    by (auto simp: calm_def reqs_ok_def)
qed

lemma calm_calls:
  "calm L c \<Longrightarrow> calm L (sendTimeoutEvent (stopTimer c))" "calm L c \<Longrightarrow> calm L (RequestTimeout c)"
  "calm L c \<Longrightarrow> calm L (FinalCommit c)" "calm L c \<Longrightarrow> calm L (NewChainHead c)" "calm L c \<Longrightarrow> calm L (Stop c)"
  by (erule calm_kernel_queues [rotated 3];
      simp add: ckernel_def sendTimeoutEvent_def stopTimer_def RequestTimeout_def FinalCommit_def
        NewChainHead_def Stop_def)+

lemma core_step_calm:
  assumes "core_step (sound_runs L) c c'" "calm L c" "decode_allocates L"
  shows "calm L c'"
proof -
  have take: "calm L (c\<lparr>requestCh := remove1 r (requestCh c)\<rparr>)" "calm L (c\<lparr>localMsgCh := x\<rparr>)"
    "calm L (c\<lparr>backlogCh := y\<rparr>)" "calm L (c\<lparr>finalCommitCh := n\<rparr>)" "calm L (c\<lparr>timeoutCh := n\<rparr>)" for r x y n
    using assms(2) set_remove1_subset [of r "requestCh c"] by (auto elim!: calm_kernel_queues [rotated 3])
  have handled: "calm L c'"
    if run: "sound_runs L E" and c0: "calm L c0"
      and op: "(\<exists>r. has_proposal r \<and> onRequest E r c0 = Some c') \<or> (\<exists>p. onLocalMsg E p c0 = Some c') \<or>
        (\<exists>b. onBacklog E b c0 = Some c') \<or> HandleFinalCommitted E c0 = Some c' \<or>
        (\<exists>d. onP2PMsg E d c0 = Some c') \<or> handleTimeoutMsg E c0 = Some c'" for E c0
  proof -
    have E: "L = envLib E" "hash_ok (envLib E)" "env_total E"
      using run by (auto simp: sound_runs_def runs_def)
    note total = loop_total [OF _ _ E(2,3), of c0] handleTimeoutMsg_total [OF _ _ E(2,3), of c0]
    from op show ?thesis
      using total c0 assms(3) unfolding E(1) by (elim disjE exE conjE) (metis option.inject)+
  qed
  show ?thesis
    using assms(1)
  proof (cases rule: core_step_on.cases)
    case (request E r)
    then have "has_proposal r" using assms(2) by (auto simp: calm_def reqs_ok_def)
    then show ?thesis using handled [OF request(1) take(1)] request(3) by blast
  next
    case (local_msg E p)
    then show ?thesis using handled [OF local_msg(1) take(2)] by blast
  next
    case (backlog E b)
    then show ?thesis using handled [OF backlog(1) take(3)] by blast
  next
    case (final E)
    then show ?thesis using handled [OF final(1) take(4)] by blast
  next
    case (p2p E data)
    then show ?thesis using handled [OF p2p(1) assms(2)] by blast
  next
    case (timeout E)
    then show ?thesis using handled [OF timeout(1) take(5)] by blast
  next
    case (call_Request r e)
    then show ?thesis using calm_core_Request assms(2) by blast
  qed (simp_all add: calm_calls assms(2))
qed


definition sound_started :: "lib \<Rightarrow> string \<Rightarrow> core \<Rightarrow> bool" where
  "sound_started L x c \<longleftrightarrow> (\<exists>E. sound_runs L E \<and> Start E (NewEngine x) = Some c)"

lemma sound_started_calm:
  assumes "sound_started L x c" "decode_allocates L"
  shows "calm L c"
proof -
  from assms(1) obtain E where E: "sound_runs L E" "Start E (NewEngine x) = Some c"
    by (auto simp: sound_started_def)
  then have L: "L = envLib E" "hash_ok (envLib E)" by (auto simp: sound_runs_def runs_def)
  obtain lp :: Proposal and vs where
    start: "enterRound E (mkView (big_of_u64 (Height lp) + 1) 0) vs (snd (beLastProposal (envBackend E)))
       False ((NewEngine x)\<lparr>valSet := Some vs\<rparr>) = Some c"
    using E(2)
    by (auto simp: Start_def StartNewRound_def newRoundKind_def NewEngine_def case_prod_unfold Let_def
        elim!: bind_SomeE)
  have "reqs_ok ((NewEngine x)\<lparr>valSet := Some vs\<rparr>)" by (simp add: reqs_ok_def NewEngine_def)
  then obtain c' where
    "enterRound E (mkView (big_of_u64 (Height lp) + 1) 0) vs (snd (beLastProposal (envBackend E)))
       False ((NewEngine x)\<lparr>valSet := Some vs\<rparr>) = Some c'" "reqs_ok c'"
    using enterRound_total [OF _ _ L(2), of "(NewEngine x)\<lparr>valSet := Some vs\<rparr>"] assms(2) L(1)
    by (fastforce simp: NewEngine_def)
  with start have "reqs_ok c" by simp
  with Start_inv [OF E(2)] L(1) show ?thesis by (simp add: calm_def)
qed

interpretation sound: invariant_system "sound_started L x" "core_step (sound_runs L)"
  "\<lambda>c. decode_allocates L \<longrightarrow> calm L c"
  for L x
  by unfold_locales (auto intro: sound_started_calm core_step_calm)

section \<open>Properties\<close>

text \<open>C7: the engine never panics. In every state it can reach, whatever bytes the network
  delivers and whichever queued value is received next, the case of the event loop that handles
  it returns.\<close>

theorem engine_never_panics:
  assumes "decode_allocates L" "sound_started L x c0" "(core_step (sound_runs L))\<^sup>*\<^sup>* c0 c" "sound_runs L E"
  shows "onP2PMsg E data c \<noteq> None \<and> handleTimeoutMsg E c \<noteq> None \<and> HandleFinalCommitted E c \<noteq> None \<and>
    onLocalMsg E p c \<noteq> None \<and> onBacklog E b c \<noteq> None \<and>
    (r \<in> set (requestCh c) \<longrightarrow> onRequest E r c \<noteq> None)"
proof -
  have calm: "calm L c" using sound.reachable_inv [OF assms(2,3)] assms(1) by blast
  have E: "L = envLib E" "hash_ok (envLib E)" "env_total E"
    using assms(4) by (auto simp: sound_runs_def runs_def)
  have has: "has_proposal r" if "r \<in> set (requestCh c)" using calm that by (auto simp: calm_def reqs_ok_def)
  note total = loop_total [OF calm [unfolded E(1)] assms(1) [unfolded E(1)] E(2,3)]
    handleTimeoutMsg_total [OF calm [unfolded E(1)] assms(1) [unfolded E(1)] E(2,3)]
  show ?thesis
    using total(1) [OF has] total(2) [of p] total(3) [of b] total(4) total(5) [of data] total(6) by blast
qed

lemma exEnv_sound: "sound_runs exLib (exEnv xs)"
  by (simp add: sound_runs_def runs_def exLib_ok env_total_def exEnv_def small_heights_def exBlock_def)

theorem engine_never_panics_witness:
  "sound_started exLib ''a'' exStart \<and> onP2PMsg (exEnv [''a'']) [1, 2, 3] exStart \<noteq> None \<and>
   handleTimeoutMsg (exEnv [''a'']) exStart \<noteq> None"
proof -
  have "sound_started exLib ''a'' exStart"
    using exStart_Start exEnv_sound by (auto simp: sound_started_def)
  with engine_never_panics [OF exLib_allocates this rtranclp.rtrancl_refl exEnv_sound [of "[''a'']"], of "[1, 2, 3]"]
  show ?thesis by blast
qed

end
