(* ===== verification/Pbft_Phases.thy ===== *)
theory Pbft_Phases
  imports Pbft_Progress Pbft_Example
begin

text \<open>
  What the handlers of the three phases, of round changes and of the timeout do, branch by
  branch: acceptance of a proposal, the prepared and the committed test, the lock on a prepared
  proposal, the classification of messages by view, and the start of a round.
\<close>

section \<open>Shared steps\<close>

definition exLocked :: core where
  "exLocked = exStart\<lparr>currentRoundState :=
     map_option (\<lambda>rs. rs\<lparr>lockedHash := 3, rsPrePrepare := Some \<lparr>ppView = None, ppProposal = None\<rparr>\<rparr>)
       (currentRoundState exStart)\<rparr>"

lemma subject_digest:
  assumes "SubjectOf rs = Some (Some sub)"
  obtains pp p where "rsPrePrepare rs = Some pp" "ppProposal pp = Some p" "Digest sub = PHash p"
    "ProposalOf rs = Some p" "sbView sub = Some (mkView (big_of_u64 (rsSequence rs)) (rsRound rs))"
  using assms by (auto simp: SubjectOf_def ProposalOf_def elim!: bind_SomeE split: option.splits)

lemma lockHash_subject:
  assumes "lockHash c = Some c'" "currentRoundState c = Some rs" "SubjectOf rs = Some (Some sub)"
  shows "c' = c\<lparr>currentRoundState := Some (rs\<lparr>lockedHash := Digest sub\<rparr>)\<rparr>"
  using assms(3)
  by (rule subject_digest) (use assms(1,2) in \<open>auto simp: lockHash_def LockHash_def elim!: bind_SomeE\<close>)

lemma verifySubject_ok:
  "verifySubject sub c = Some None \<Longrightarrow> currentRoundState c = Some rs \<Longrightarrow> SubjectOf rs = Some (Some sub)"
  by (auto simp: verifySubject_def elim!: bind_SomeE split: if_splits)

text \<open>The three outcomes of moving to the next round.\<close>

lemma sendRoundChange_state:
  assumes "sendRoundChange E r c = Some c'" "currentRoundState c = Some rs" "rsRound rs < r"
  obtains vs where "valSet c = Some vs" "state c' = state c" "waitingForRoundChange c'"
    "currentRoundState c' = Some (nextRoundState (envLib E) (big_of_u64 (rsSequence rs)) r vs True (Some rs))"
    "committed c' = committed c" "valSet c' = Some vs"
proof -
  obtain c1 cv1 where
    c1: "catchUpRound E (mkView (big_of_u64 (rsSequence rs)) r) c = Some c1"
    and send: "(case encodeSubject (envLib E) \<lparr>sbView = Some cv1, Digest = emptyHash\<rparr> of
        None \<Rightarrow> ret c1 | Some body \<Rightarrow> Broadcast E (newMsg MsgRoundChange body) c1) = Some c'"
    using assms by (auto simp: sendRoundChange_def currentView_eq elim!: bind_SomeE)
  from send have "ckernel c' = ckernel c1" by (auto split: option.splits dest: kernel_Broadcast)
  with c1 show thesis
    by (elim catchUpRound_ckernel) (auto simp: ckernel_def assms(2) intro: that)
qed

lemma sendNextRoundChange_state:
  assumes "sendNextRoundChange E c = Some c'" "currentRoundState c = Some rs"
  obtains vs where "valSet c = Some vs" "state c' = state c" "waitingForRoundChange c'"
    "currentRoundState c' =
       Some (nextRoundState (envLib E) (big_of_u64 (rsSequence rs)) (rsRound rs + 1) vs True (Some rs))"
    "committed c' = committed c" "valSet c' = Some vs"
proof -
  have "sendRoundChange E (rsRound rs + 1) c = Some c'"
    using assms by (simp add: sendNextRoundChange_def currentView_eq)
  then show thesis by (rule sendRoundChange_state [OF _ assms(2)]) (auto intro: that)
qed

section \<open>Prepare and commit\<close>

lemma HandlePrepare_accepted:
  assumes "HandlePrepare E msg val c = Some (None, c')" "currentRoundState c = Some rs"
  obtains sub where "decodeSubject (envLib E) (Msg msg) = Some (Some sub)"
    "checkMessage c MsgPrepare (sbView sub) = Some None" "SubjectOf rs = Some (Some sub)"
  using assms
  by (auto simp: HandlePrepare_def elim!: bind_SomeE split: option.splits if_splits
      dest!: verifySubject_ok [OF _ assms(2)])

lemma HandleCommit_accepted:
  assumes "HandleCommit E msg val c = Some (None, c')" "currentRoundState c = Some rs"
  obtains sub where "decodeSubject (envLib E) (Msg msg) = Some (Some sub)"
    "checkMessage c MsgCommit (sbView sub) = Some None" "SubjectOf rs = Some (Some sub)"
  using assms
  by (auto simp: HandleCommit_def elim!: bind_SomeE split: option.splits if_splits
      dest!: verifySubject_ok [OF _ assms(2)])

lemma HandlePrepare_result:
  assumes h: "HandlePrepare E msg val c = Some (None, c')" and rs: "currentRoundState c = Some rs"
    and vs: "valSet c = Some vs" and ok: "hash_ok (envLib E)"
    and sub: "decodeSubject (envLib E) (Msg msg) = Some (Some sub)" "SubjectOf rs = Some (Some sub)"
  defines "rs1 \<equiv> rs\<lparr>Prepares := snd (ms_Add (Prepares rs) msg)\<rparr>"
  shows "if (lockedHash rs \<noteq> emptyHash \<and> Digest sub = lockedHash rs \<or>
        reachThreshold vs (GetPrepareOrCommitSize rs1)) \<and> state c < StatePrepared
    then state c' = StatePrepared \<and> currentRoundState c' = Some (rs1\<lparr>lockedHash := Digest sub\<rparr>)
    else c' = c\<lparr>currentRoundState := Some rs1\<rparr>"
proof -
  let ?c1 = "c\<lparr>currentRoundState := Some rs1\<rparr>"
  have sub1: "SubjectOf rs1 = Some (Some sub)" using sub(2) by (simp add: rs1_def)
  show ?thesis
  proof (cases "(lockedHash rs \<noteq> emptyHash \<and> Digest sub = lockedHash rs \<or>
        reachThreshold vs (GetPrepareOrCommitSize rs1)) \<and> state c < StatePrepared")
    case True
    with h rs vs ok sub obtain c2 c3 where
      c2: "lockHash ?c1 = Some c2" "setState (envLib E) StatePrepared c2 = Some c3" "SendCommit E c3 = Some c'"
      by (auto simp: HandlePrepare_def acceptPrepare_def reachPrepareThreshold_def IsHashLocked_def
          GetLockedHash_def rs1_def elim!: bind_SomeE split: option.splits if_splits)
    have "c2 = ?c1\<lparr>currentRoundState := Some (rs1\<lparr>lockedHash := Digest sub\<rparr>)\<rparr>"
      using lockHash_subject [OF c2(1) _ sub1] by simp
    with True show ?thesis
      using kernel_setState [OF c2(2)] kernel_SendCommit [OF c2(3)] by (simp add: ckernel_eq_iff)
  next
    case False
    with h rs vs ok sub have same: "c' = ?c1"
      by (auto simp: HandlePrepare_def acceptPrepare_def reachPrepareThreshold_def IsHashLocked_def
          GetLockedHash_def rs1_def elim!: bind_SomeE split: option.splits if_splits)
    show ?thesis unfolding if_not_P [OF False] by (rule same)
  qed
qed

lemma HandleCommit_result:
  assumes h: "HandleCommit E msg val c = Some (None, c')" and rs: "currentRoundState c = Some rs"
    and vs: "valSet c = Some vs"
    and sub: "decodeSubject (envLib E) (Msg msg) = Some (Some sub)" "SubjectOf rs = Some (Some sub)"
    and p: "ProposalOf rs = Some p"
  defines "rs1 \<equiv> rs\<lparr>Commits := snd (ms_Add (Commits rs) msg)\<rparr>"
  defines "seals \<equiv> map CommittedSeal (ms_Values (Commits rs1))"
  shows "if reachThreshold vs (ms_Size (Commits rs1)) \<and> state c < StateCommitted
    then committed c' = committed c @ [(mkView (big_of_u64 (rsSequence rs)) (rsRound rs), p, seals)] \<and>
      (case beCommit (envBackend E) p seals of
         None \<Rightarrow> state c' = StateCommitted \<and> waitingForRoundChange c' = waitingForRoundChange c \<and>
           currentRoundState c' = Some (rs1\<lparr>lockedHash := Digest sub\<rparr>)
       | Some _ \<Rightarrow> waitingForRoundChange c' \<and> (\<exists>rs'. currentRoundState c' = Some rs' \<and>
           rsRound rs' = rsRound rs + 1 \<and> lockedHash rs' = emptyHash))
    else c' = c\<lparr>currentRoundState := Some rs1\<rparr>"
proof -
  let ?c1 = "c\<lparr>currentRoundState := Some rs1\<rparr>"
  let ?rs2 = "rs1\<lparr>lockedHash := Digest sub\<rparr>"
  have sub1: "SubjectOf rs1 = Some (Some sub)" using sub(2) by (simp add: rs1_def)
  show ?thesis
  proof (cases "reachThreshold vs (ms_Size (Commits rs1)) \<and> state c < StateCommitted")
    case True
    with h rs vs sub obtain c2 where c2: "lockHash ?c1 = Some c2" "commitProposal E c2 = Some c'"
      by (auto simp: HandleCommit_def acceptCommit_def reachCommitThreshold_def rs1_def
          elim!: bind_SomeE split: option.splits if_splits)
    have c2_eq: "c2 = ?c1\<lparr>currentRoundState := Some ?rs2\<rparr>"
      using lockHash_subject [OF c2(1) _ sub1] by simp
    have p2: "ProposalOf ?rs2 = Some p" using p by (simp add: rs1_def ProposalOf_def)
    from c2(2) obtain c3 where set: "setState (envLib E) StateCommitted c2 = Some c3"
      by (auto simp: commitProposal_def elim!: bind_SomeE)
    have c3: "currentRoundState c3 = Some ?rs2" "state c3 = StateCommitted" "committed c3 = committed c"
        "waitingForRoundChange c3 = waitingForRoundChange c"
      using kernel_setState [OF set] c2_eq by (simp_all add: ckernel_eq_iff)
    let ?c4 = "c3\<lparr>committed := committed c3 @ [(mkView (big_of_u64 (rsSequence rs)) (rsRound rs), p, seals)]\<rparr>"
    have rs2: "rsSequence ?rs2 = rsSequence rs" "rsRound ?rs2 = rsRound rs"
        "map CommittedSeal (ms_Values (Commits ?rs2)) = seals"
      by (simp_all add: rs1_def seals_def)
    note res = c2(2) [unfolded commitProposal_def set, simplified, unfolded c3(1), simplified,
        unfolded p2, simplified Let_def option.case SequenceOf_def RoundOf_def, unfolded rs2]
    show ?thesis
    proof (cases "beCommit (envBackend E) p seals")
      case None
      with res True c3 show ?thesis by auto
    next
      case (Some err)
      with res have "sendNextRoundChange E (?c4\<lparr>currentRoundState := Some (UnlockHash ?rs2)\<rparr>) = Some c'"
        by simp
      then show ?thesis
        by (rule sendNextRoundChange_state [where rs = "UnlockHash ?rs2"])
          (use True Some c3 in \<open>auto simp: nextRoundState_def UnlockHash_def rs1_def\<close>)
    qed
  next
    case False
    with h rs vs sub have same: "c' = ?c1"
      by (auto simp: HandleCommit_def acceptCommit_def reachCommitThreshold_def rs1_def
          elim!: bind_SomeE split: option.splits if_splits)
    show ?thesis unfolding if_not_P [OF False] by (rule same)
  qed
qed


section \<open>Proposals, rounds and timeouts\<close>

lemma acceptProposal_result:
  assumes "acceptProposal E pp p c = Some c'" "currentRoundState c = Some rs" "hash_ok (envLib E)"
    "ppProposal pp = Some p"
  shows "if lockedHash rs = emptyHash \<or> PHash p = lockedHash rs
    then currentRoundState c' = Some (rs\<lparr>rsPrePrepare := Some pp\<rparr>) \<and>
      waitingForRoundChange c' = waitingForRoundChange c \<and>
      state c' = (if lockedHash rs = emptyHash then StatePrePrepared else StatePrepared)
    else waitingForRoundChange c' \<and> state c' = state c \<and>
      (\<exists>rs'. currentRoundState c' = Some rs' \<and> rsRound rs' = rsRound rs + 1 \<and>
         lockedHash rs' = lockedHash rs \<and> rsPrePrepare rs' = rsPrePrepare rs)"
proof (cases "lockedHash rs = emptyHash \<or> PHash p = lockedHash rs")
  case True
  have phase: "currentRoundState c' = Some (rs\<lparr>rsPrePrepare := Some pp\<rparr>) \<and>
      waitingForRoundChange c' = waitingForRoundChange c \<and> state c' = s"
    if "setState (envLib E) s (c\<lparr>consensusTimestamp := envNow E,
          currentRoundState := Some (rs\<lparr>rsPrePrepare := Some pp\<rparr>)\<rparr>) = Some c2"
      "SendCommit E c2 = Some c' \<or> SendPrepare E c2 = Some c'" for s c2
  proof -
    from that(2) have "ckernel c' = ckernel c2" by (auto dest: kernel_SendCommit kernel_SendPrepare)
    with kernel_setState [OF that(1)] show ?thesis by (simp add: ckernel_eq_iff)
  qed
  show ?thesis
  proof (cases "lockedHash rs = emptyHash")
    case True
    with assms(1-3) obtain c2 where
      "setState (envLib E) StatePrePrepared (c\<lparr>consensusTimestamp := envNow E,
          currentRoundState := Some (rs\<lparr>rsPrePrepare := Some pp\<rparr>)\<rparr>) = Some c2" "SendPrepare E c2 = Some c'"
      by (auto simp: acceptProposal_def acceptPrePrepare_def SetPrePrepare_def IsHashLocked_def elim!: bind_SomeE)
    with phase [of StatePrePrepared c2] True show ?thesis by simp
  next
    case False
    with True assms(1-3) obtain c2 where
      "setState (envLib E) StatePrepared (c\<lparr>consensusTimestamp := envNow E,
          currentRoundState := Some (rs\<lparr>rsPrePrepare := Some pp\<rparr>)\<rparr>) = Some c2" "SendCommit E c2 = Some c'"
      by (auto simp: acceptProposal_def acceptPrePrepare_def SetPrePrepare_def IsHashLocked_def
          GetLockedHash_def elim!: bind_SomeE)
    with phase [of StatePrepared c2] True False show ?thesis by simp
  qed
next
  case False
  then have "sendNextRoundChange E c = Some c'"
    using assms(1-3) by (auto simp: acceptProposal_def IsHashLocked_def GetLockedHash_def)
  then show ?thesis
    by (rule sendNextRoundChange_state [OF _ assms(2)])
      (use False assms(3) in \<open>auto simp: nextRoundState_def IsHashLocked_def\<close>)
qed

lemma HandlePrePrepare_accepts:
  assumes "HandlePrePrepare E msg val c = Some (None, c')" "decodePrePrepare (envLib E) (Msg msg) = Some (Some pp)"
    "ppProposal pp = Some p" "checkMessage c MsgPrePrepare (ppView pp) = Some None" "state c = StateAcceptRequest"
  shows "acceptProposal E pp p c = Some c' \<and> (\<exists>vs. valSet c = Some vs \<and> IsProposer vs (ID val)) \<and>
    beVerify (envBackend E) p = None"
  using assms
  by (auto simp: HandlePrePrepare_def elim!: bind_SomeE split: option.splits if_splits)

lemma handleTimeoutMsg_cases:
  assumes "handleTimeoutMsg E c = Some c'" "currentRoundState c = Some rs"
  defines "c1 \<equiv> c\<lparr>currentRoundState := Some (rs\<lparr>lockedHash := emptyHash, pendingRequest := None\<rparr>)\<rparr>"
  obtains m where "sendRoundChange E m c1 = Some c'" "rsRound rs < m"
  | "sendNextRoundChange E c1 = Some c'"
  | lp where "StartNewRound E 0 c1 = Some c'" "fst (beLastProposal (envBackend E)) = Some lp"
      "rsSequence rs \<le> Height lp"
  using assms
  by (auto simp: handleTimeoutMsg_def UnlockHash_def SequenceOf_def RoundOf_def elim!: bind_SomeE
      split: option.splits if_splits)

text \<open>\<open>StartNewRound\<close> on a core that is behind the chain, and on one at its tip.\<close>

lemma StartNewRound_catchup:
  assumes "StartNewRound E rnd c = Some c'" "currentRoundState c = Some rs"
    "beLastProposal (envBackend E) = (Some lp, prop)" "rsSequence rs \<le> Height lp"
  obtains vs where "beValidators (envBackend E) lp = Some vs"
    "ckernel c' = (peerId c, StateAcceptRequest, Some (CalcProposer vs prop 0),
       Some (nextRoundState (envLib E) (big_of_u64 (Height lp) + 1) 0 vs False (Some rs)), False,
       Some (newRoundChangeSet vs), committed c)"
proof -
  from assms obtain vs c0 where vs: "beValidators (envBackend E) lp = Some vs" and
    enter: "enterRound E (mkView (big_of_u64 (Height lp) + 1) 0) vs prop False (c0\<lparr>valSet := Some vs\<rparr>) = Some c'"
    and "ckernel c0 = ckernel c"
    by (auto simp: StartNewRound_def newRoundKind_def SequenceOf_def Let_def ckernel_def elim!: bind_SomeE
        split: if_splits)
  with enterRound_ckernel [OF enter] assms(2) show thesis
    by (intro that [OF vs]) (simp add: ckernel_def big_Uint64_def nextRoundState_def)
qed

lemma StartNewRound_change:
  assumes "StartNewRound E rnd c = Some c'" "currentRoundState c = Some rs"
    "beLastProposal (envBackend E) = (Some lp, prop)" "Height lp = rsSequence rs - 1"
    "\<not> rsSequence rs \<le> Height lp" "rnd \<noteq> 0" "rsRound rs \<le> rnd"
  obtains vs where "valSet c = Some vs"
    "ckernel c' = (peerId c, StateAcceptRequest, Some (CalcProposer vs prop (big_Uint64 rnd)),
       Some (nextRoundState (envLib E) (big_of_u64 (rsSequence rs)) rnd vs True (Some rs)), False,
       Some (newRoundChangeSet vs), committed c)"
proof -
  from assms obtain vs where vs: "valSet c = Some vs" and
    enter: "enterRound E (mkView (big_of_u64 (rsSequence rs)) rnd) vs prop True c = Some c'"
    by (auto simp: StartNewRound_def newRoundKind_def SequenceOf_def RoundOf_def elim!: bind_SomeE)
  from enterRound_ckernel [OF enter] assms(2) show thesis
    by (intro that [OF vs]) simp
qed


section \<open>Properties\<close>

text \<open>C12: an accepted prepare is for the current view and proposal, and it is counted. If with it a
  threshold of validators has voted, or the core is locked on that very hash, a core that is
  not yet prepared becomes prepared and locks the hash; otherwise nothing but the tally changes.\<close>

theorem prepare_accepted:
  assumes "HandlePrepare E msg val c = Some (None, c')" "currentRoundState c = Some rs"
    "valSet c = Some vs" "hash_ok (envLib E)"
  shows "\<exists>sub rs1. decodeSubject (envLib E) (Msg msg) = Some (Some sub) \<and> SubjectOf rs = Some (Some sub) \<and>
    rs1 = rs\<lparr>Prepares := snd (ms_Add (Prepares rs) msg)\<rparr> \<and>
    (if (lockedHash rs \<noteq> emptyHash \<and> Digest sub = lockedHash rs \<or>
          reachThreshold vs (GetPrepareOrCommitSize rs1)) \<and> state c < StatePrepared
     then state c' = StatePrepared \<and> currentRoundState c' = Some (rs1\<lparr>lockedHash := Digest sub\<rparr>)
     else c' = c\<lparr>currentRoundState := Some rs1\<rparr>)"
  using assms(1,2)
proof (rule HandlePrepare_accepted)
  fix sub
  assume sub: "decodeSubject (envLib E) (Msg msg) = Some (Some sub)" "SubjectOf rs = Some (Some sub)"
  from HandlePrepare_result [OF assms this] sub show ?thesis by blast
qed

theorem prepare_accepted_witness:
  "\<exists>c' rs'. HandlePrepare (exEnv [''a'']) exPrepare \<lparr>vref = 0, ID = ''a''\<rparr> exPrePrepared = Some (None, c') \<and>
    state c' = StatePrepared \<and> currentRoundState c' = Some rs' \<and> lockedHash rs' = 105"
proof -
  let ?E = "exEnv [''a'']" and ?v = "\<lparr>vref = 0, ID = ''a''\<rparr>"
  have "map_option fst (HandlePrepare ?E exPrepare ?v exPrePrepared) = Some None" by code_simp
  then obtain c' where c': "HandlePrepare ?E exPrepare ?v exPrePrepared = Some (None, c')" by auto
  have "(case (currentRoundState exPrePrepared, valSet exPrePrepared) of
      (Some rs, Some vs) \<Rightarrow> reachThreshold vs (GetPrepareOrCommitSize (rs\<lparr>Prepares := snd (ms_Add (Prepares rs) exPrepare)\<rparr>)) \<and>
        map_option (map_option Digest) (SubjectOf rs) = Some (Some 105) | _ \<Rightarrow> False) \<and> state exPrePrepared < StatePrepared"
    by code_simp
  then obtain rs vs where rs: "currentRoundState exPrePrepared = Some rs" "valSet exPrePrepared = Some vs"
    and go: "reachThreshold vs (GetPrepareOrCommitSize (rs\<lparr>Prepares := snd (ms_Add (Prepares rs) exPrepare)\<rparr>))"
      "map_option (map_option Digest) (SubjectOf rs) = Some (Some 105)" "state exPrePrepared < StatePrepared"
    by (auto split: option.splits)
  have "hash_ok (envLib ?E)" using exLib_ok(1) by (simp add: exEnv_def)
  from prepare_accepted [OF c' rs this] go c' show ?thesis by auto
qed

text \<open>C11: an accepted commit is for the current view and proposal, and it is counted. If with it a
  threshold of commits is reached and the core has not committed yet, the proposal and the seals
  of all counted commits are handed to the backend; the core is then committed and locked on
  the proposal, or, if the backend refuses, unlocked and waiting for the next round. Otherwise
  nothing but the tally changes.\<close>

theorem commit_accepted:
  assumes "HandleCommit E msg val c = Some (None, c')" "currentRoundState c = Some rs" "valSet c = Some vs"
  shows "\<exists>sub rs1 p seals. decodeSubject (envLib E) (Msg msg) = Some (Some sub) \<and>
    SubjectOf rs = Some (Some sub) \<and> ProposalOf rs = Some p \<and> PHash p = Digest sub \<and>
    rs1 = rs\<lparr>Commits := snd (ms_Add (Commits rs) msg)\<rparr> \<and> seals = map CommittedSeal (ms_Values (Commits rs1)) \<and>
    (if reachThreshold vs (ms_Size (Commits rs1)) \<and> state c < StateCommitted
     then committed c' = committed c @ [(mkView (big_of_u64 (rsSequence rs)) (rsRound rs), p, seals)] \<and>
       (case beCommit (envBackend E) p seals of
          None \<Rightarrow> state c' = StateCommitted \<and> waitingForRoundChange c' = waitingForRoundChange c \<and>
            currentRoundState c' = Some (rs1\<lparr>lockedHash := Digest sub\<rparr>)
        | Some _ \<Rightarrow> waitingForRoundChange c' \<and> (\<exists>rs'. currentRoundState c' = Some rs' \<and>
            rsRound rs' = rsRound rs + 1 \<and> lockedHash rs' = emptyHash))
     else c' = c\<lparr>currentRoundState := Some rs1\<rparr>)"
  using assms(1,2)
proof (rule HandleCommit_accepted)
  fix sub
  assume sub: "decodeSubject (envLib E) (Msg msg) = Some (Some sub)" "SubjectOf rs = Some (Some sub)"
  from sub(2) obtain p where p: "ProposalOf rs = Some p" "PHash p = Digest sub" by (auto elim: subject_digest)
  note res = HandleCommit_result [OF assms sub p(1)]
  show ?thesis by (intro exI conjI) (rule sub p refl res)+
qed

theorem commit_accepted_witness:
  "\<exists>c' p seals. HandleCommit (exEnv [''a'']) exCommit \<lparr>vref = 0, ID = ''a''\<rparr> exPrepared = Some (None, c') \<and>
    committed c' = committed exPrepared @ [(mkView 5 0, p, seals)]"
proof -
  let ?E = "exEnv [''a'']" and ?v = "\<lparr>vref = 0, ID = ''a''\<rparr>"
  have "map_option fst (HandleCommit ?E exCommit ?v exPrepared) = Some None" by code_simp
  then obtain c' where c': "HandleCommit ?E exCommit ?v exPrepared = Some (None, c')" by auto
  have "(case (currentRoundState exPrepared, valSet exPrepared) of
      (Some rs, Some vs) \<Rightarrow> reachThreshold vs (ms_Size (snd (ms_Add (Commits rs) exCommit))) \<and>
        big_of_u64 (rsSequence rs) = 5 \<and> rsRound rs = 0 | _ \<Rightarrow> False) \<and> state exPrepared < StateCommitted"
    by code_simp
  then obtain rs vs where rs: "currentRoundState exPrepared = Some rs" "valSet exPrepared = Some vs"
    and go: "reachThreshold vs (ms_Size (snd (ms_Add (Commits rs) exCommit)))" "big_of_u64 (rsSequence rs) = 5"
      "rsRound rs = 0" "state exPrepared < StateCommitted"
    by (auto split: option.splits)
  from commit_accepted [OF c' rs] go c' show ?thesis by auto
qed

text \<open>C14: a message that is refused changes nothing. When \<open>HandlePrePrepare\<close>, \<open>HandlePrepare\<close> or
  \<open>HandleCommit\<close> returns an error, the core is as it was.\<close>

theorem refused_message_changes_nothing:
  assumes "HandlePrePrepare E msg val c = Some (Some e, c') \<or> HandlePrepare E msg val c = Some (Some e, c') \<or>
    HandleCommit E msg val c = Some (Some e, c')"
  shows "c' = c"
  using assms
proof (elim disjE)
  assume "HandlePrePrepare E msg val c = Some (Some e, c')"
  then show ?thesis
    by (auto simp: HandlePrePrepare_def oldPrePrepare_def elim!: bind_SomeE split: option.splits if_splits)
next
  assume "HandlePrepare E msg val c = Some (Some e, c')"
  then show ?thesis
    by (auto simp: HandlePrepare_def elim!: bind_SomeE split: option.splits if_splits)
next
  assume "HandleCommit E msg val c = Some (Some e, c')"
  then show ?thesis
    by (auto simp: HandleCommit_def elim!: bind_SomeE split: option.splits if_splits)
qed

theorem refused_message_changes_nothing_witness:
  "\<exists>c'. HandlePrepare (exEnv [''a'']) exPrepare \<lparr>vref = 0, ID = ''a''\<rparr> exStart =
     Some (Some errFutureMessage, c') \<and> c' = exStart"
proof -
  let ?E = "exEnv [''a'']" and ?v = "\<lparr>vref = 0, ID = ''a''\<rparr>"
  have "map_option fst (HandlePrepare ?E exPrepare ?v exStart) = Some (Some errFutureMessage)" by code_simp
  then obtain c' where c': "HandlePrepare ?E exPrepare ?v exStart = Some (Some errFutureMessage, c')" by auto
  with refused_message_changes_nothing [of ?E exPrepare ?v exStart errFutureMessage c'] show ?thesis by blast
qed




text \<open>C10: a timeout releases the lock. Whatever a core was locked on, after \<open>handleTimeoutMsg\<close> it holds
  no lock and no pending request; it has asked for a later round, or has caught up with the chain
  at a later height.\<close>

theorem timeout_releases_lock:
  assumes "handleTimeoutMsg E c = Some c'" "currentRoundState c = Some rs"
  shows "\<exists>rs'. currentRoundState c' = Some rs' \<and> lockedHash rs' = emptyHash \<and> pendingRequest rs' = None \<and>
    committed c' = committed c \<and>
    (waitingForRoundChange c' \<and> state c' = state c \<and> rsRound rs < rsRound rs' \<or>
     \<not> waitingForRoundChange c' \<and> state c' = StateAcceptRequest \<and> rsRound rs' = 0 \<and>
       (\<exists>lp. fst (beLastProposal (envBackend E)) = Some lp \<and> rsSequence rs \<le> Height lp \<and>
          rsSequence rs' = big_Uint64 (big_of_u64 (Height lp) + 1)))"
  using assms
proof (cases rule: handleTimeoutMsg_cases)
  let ?rs = "rs\<lparr>lockedHash := emptyHash, pendingRequest := None\<rparr>"
  let ?c = "c\<lparr>currentRoundState := Some ?rs\<rparr>"
  case (1 m)
  have "currentRoundState ?c = Some ?rs" "rsRound ?rs < m" using 1(2) by simp_all
  then show ?thesis
    by (rule sendRoundChange_state [OF 1(1)]) (use 1(2) in \<open>auto simp: nextRoundState_def\<close>)
next
  let ?rs = "rs\<lparr>lockedHash := emptyHash, pendingRequest := None\<rparr>"
  let ?c = "c\<lparr>currentRoundState := Some ?rs\<rparr>"
  case 2
  have "currentRoundState ?c = Some ?rs" by simp
  then show ?thesis by (rule sendNextRoundChange_state [OF 2(1)]) (auto simp: nextRoundState_def)
next
  let ?rs = "rs\<lparr>lockedHash := emptyHash, pendingRequest := None\<rparr>"
  let ?c = "c\<lparr>currentRoundState := Some ?rs\<rparr>"
  case (3 lp)
  have now: "currentRoundState ?c = Some ?rs" "rsSequence ?rs \<le> Height lp" using 3(3) by simp_all
  obtain who where last: "beLastProposal (envBackend E) = (Some lp, who)" using 3(2) by (metis prod.collapse)
  show ?thesis
    by (rule StartNewRound_catchup [OF 3(1) now(1) last now(2)])
       (use 3(2,3) in \<open>auto simp: nextRoundState_def ckernel_def\<close>)
qed

theorem timeout_releases_lock_witness:
  "\<exists>c' rs rs'. currentRoundState exPrepared = Some rs \<and> lockedHash rs = 105 \<and>
     handleTimeoutMsg (exEnv [''a'']) exPrepared = Some c' \<and> currentRoundState c' = Some rs' \<and> lockedHash rs' = 0"
proof -
  have "handleTimeoutMsg (exEnv [''a'']) exPrepared \<noteq> None \<and>
      map_option lockedHash (currentRoundState exPrepared) = Some 105" by code_simp
  then obtain c' rs where c': "handleTimeoutMsg (exEnv [''a'']) exPrepared = Some c'"
    and rs: "currentRoundState exPrepared = Some rs" "lockedHash rs = 105" by auto
  from timeout_releases_lock [OF c' rs(1)] c' rs show ?thesis by blast
qed

text \<open>C9: a quorum of round changes takes effect. When the round change that completes the threshold for a
  later round arrives at a core at the tip of the chain, the core enters that round at the same
  height: it waits for a proposal again, of the proposer of the round, keeps a lock and the locked
  proposal, and starts new tallies.\<close>

theorem round_change_quorum_starts_round:
  assumes "HandleRoundChange E msg val c = Some (e, c')"
    "decodeSubject (envLib E) (Msg msg) = Some (Some rc)" "sbView rc = Some v" "Round v = Some r"
    "checkMessage c MsgRoundChange (sbView rc) = Some None"
    "currentRoundState c = Some rs" "rcSet c = Some rcs" "valSet c = Some vs"
    "rcs_Add rcs r msg = ((num, None), rcs')" "reachThreshold vs num" "rsRound rs < r" "r \<noteq> 0"
    "beLastProposal (envBackend E) = (Some lp, prop)" "Height lp = rsSequence rs - 1" "Height lp < rsSequence rs"
    "hash_ok (envLib E)"
  shows "e = None \<and> state c' = StateAcceptRequest \<and> \<not> waitingForRoundChange c' \<and>
    valSet c' = Some (CalcProposer vs prop (big_Uint64 r)) \<and> rcSet c' = Some (newRoundChangeSet vs) \<and>
    (\<exists>rs'. currentRoundState c' = Some rs' \<and> rsRound rs' = r \<and>
       rsSequence rs' = big_Uint64 (big_of_u64 (rsSequence rs)) \<and> lockedHash rs' = lockedHash rs \<and>
       (lockedHash rs \<noteq> emptyHash \<longrightarrow> rsPrePrepare rs' = rsPrePrepare rs) \<and>
       Prepares rs' = NewMessageSet vs \<and> Commits rs' = NewMessageSet vs)"
proof -
  let ?c = "c\<lparr>rcSet := Some rcs'\<rparr>"
  have cv: "currentView c = Some (mkView (big_of_u64 (rsSequence rs)) (rsRound rs))"
    using assms(6) by (simp add: currentView_def SequenceOf_def RoundOf_def)
  have "countedRoundChange E (rsRound rs) r num ?c = Some (e, c')"
    using assms(1-9) by (simp add: HandleRoundChange_def cv)
  with assms(8,10,11) have e: "e = None" and start: "StartNewRound E r ?c = Some c'"
    by (auto simp: countedRoundChange_def elim!: bind_SomeE)
  have "currentRoundState ?c = Some rs" "\<not> rsSequence rs \<le> Height lp" "rsRound rs \<le> r"
    using assms(6,11,15) by simp_all
  then have "ckernel c' = (peerId c, StateAcceptRequest, Some (CalcProposer vs prop (big_Uint64 r)),
       Some (nextRoundState (envLib E) (big_of_u64 (rsSequence rs)) r vs True (Some rs)), False,
       Some (newRoundChangeSet vs), committed c)"
    by (rule StartNewRound_change [OF start _ assms(13,14) _ assms(12)]) (use assms(8) in auto)
  then show ?thesis using e assms(16)
    by (auto simp: ckernel_def nextRoundState_def IsHashLocked_def)
qed

theorem round_change_quorum_starts_round_witness:
  "\<exists>c' rs'. HandleRoundChange (exEnv [''a'']) (exMsg ''a'' MsgRoundChange [5, 1, 0]) \<lparr>vref = 0, ID = ''a''\<rparr> exPrepared =
      Some (None, c') \<and> currentRoundState c' = Some rs' \<and> rsRound rs' = 1 \<and> lockedHash rs' = 105"
proof -
  let ?E = "exEnv [''a'']" and ?m = "exMsg ''a'' MsgRoundChange [5, 1, 0]" and ?v = "\<lparr>vref = 0, ID = ''a''\<rparr>"
    and ?rc = "\<lparr>sbView = Some (mkView 5 1), Digest = 0\<rparr>"
  have dec: "decodeSubject (envLib ?E) (Msg ?m) = Some (Some ?rc)" by code_simp
  have chk: "checkMessage exPrepared MsgRoundChange (sbView ?rc) = Some None" by code_simp
  have "HandleRoundChange ?E ?m ?v exPrepared \<noteq> None" by code_simp
  then obtain e c' where h: "HandleRoundChange ?E ?m ?v exPrepared = Some (e, c')" by auto
  have "(case (currentRoundState exPrepared, rcSet exPrepared, valSet exPrepared) of
      (Some rs, Some rcs, Some vs) \<Rightarrow> rsRound rs = 0 \<and> rsSequence rs = 5 \<and> lockedHash rs = 105 \<and>
         (case rcs_Add rcs 1 ?m of ((num, er), _) \<Rightarrow> er = None \<and> reachThreshold vs num) | _ \<Rightarrow> False)" by code_simp
  then obtain rs rcs vs num rcs' where st: "currentRoundState exPrepared = Some rs" "rcSet exPrepared = Some rcs"
    "valSet exPrepared = Some vs" "rsRound rs = 0" "rsSequence rs = 5" "lockedHash rs = 105"
    "rcs_Add rcs 1 ?m = ((num, None), rcs')" "reachThreshold vs num"
    by (auto split: option.splits prod.splits)
  have last: "beLastProposal (envBackend ?E) = (Some (exBlock 4), ''a'')" "Height (exBlock 4) = 4"
    by (simp_all add: exEnv_def exBlock_def)
  have "hash_ok (envLib ?E)" using exLib_ok(1) by (simp add: exEnv_def)
  from round_change_quorum_starts_round [OF h dec _ _ chk st(1-3) st(7,8) _ _ last(1) _ _ this] h last(2) st(4-6)
  show ?thesis by auto
qed

text \<open>C19: signatures of messages are not checked. A payload that encodes a message with a validator's
  name is accepted as a message of that validator whatever its signature is, none included.\<close>

theorem signature_not_checked:
  assumes "codec_ok L" "Payload L m = Some b" "PayloadNoSig L m \<noteq> None" "valSet c = Some vs"
    "snd (GetById vs (MsgValidator m)) = Some w"
  shows "decodeMsg L c b = Some (Inr (m, w))"
  using assms
  by (auto simp: decodeMsg_def FromPayload_def Payload_def checkValidatorSignature_def dest: codec_okD(3)
      split: option.splits prod.splits)

theorem signature_not_checked_witness:
  "\<exists>w. decodeMsg exLib exStart [2, 97, 0, 0, 0, 0, 5, 0, 105] =
     Some (Inr (\<lparr>Code = MsgCommit, Msg = [5, 0, 105], MsgValidator = ''a'', Signature = None, CommittedSeal = None\<rparr>, w))"
proof -
  let ?m = "\<lparr>Code = MsgCommit, Msg = [5, 0, 105], MsgValidator = ''a'', Signature = None, CommittedSeal = None\<rparr>"
  have enc: "Payload exLib ?m = Some [2, 97, 0, 0, 0, 0, 5, 0, 105]" "PayloadNoSig exLib ?m \<noteq> None" by code_simp+
  have "(case valSet exStart of Some vs \<Rightarrow> snd (GetById vs ''a'') \<noteq> None | None \<Rightarrow> False)" by code_simp
  then obtain vs w where "valSet exStart = Some vs" "snd (GetById vs ''a'') = Some w" by (auto split: option.splits)
  with signature_not_checked [OF exLib_ok(2) enc, of exStart vs w] show ?thesis by auto
qed

end
