(* ===== verification/Pbft_Votes.thy ===== *)
theory Pbft_Votes
  imports Pbft_Validator
begin

text \<open>
  Votes on managers and validators (src/types.go, src/manange.go and \<open>Tally\<close> of src/snapshot.go):
  the vote records and the consensus data of a header, the store of votes proposed on this node
  (\<open>manager\<close>), and \<open>voteSnapshot\<close>, which counts the votes found in headers and changes the
  managers and the validator set.

  A validator set is reached through an interface value, and two snapshots may hold the same
  one: the sets live in a store \<open>vheap\<close> and a snapshot holds an address (nil is \<open>None\<close>). The
  maps of a \<open>voteSnapshot\<close> may be nil, which matters when the code stores into them.
\<close>

section \<open>Data\<close>

text \<open>\<open>types.Address\<close> is a fixed-size byte array.\<close>

type_synonym Address = "160 word"

record ManagementVote =
  mvManager :: Address
  mvCandidate :: Address
  mvAuthorize :: bool
  mvDeadlineHeight :: "int ptr"
  mvSignature :: bytes

record ValidatorVote =
  vvManager :: Address
  vvValidator :: string
  vvAuthorize :: bool
  vvDeadlineHeight :: "int ptr"
  vvSignature :: bytes

record ConsensusData =
  cdCommittedSeal :: "SignResult ptr list"
  cdManagers :: "Address list"
  cdValidators :: "string list"
  MVote :: "ManagementVote ptr"
  VVote :: "ValidatorVote ptr"

record Tally =
  tyAuthorize :: bool
  tyVotes :: int

section \<open>Votes proposed on this node\<close>

record manager =
  mCandidate :: "(Address \<times> ManagementVote) list"
  vCandidate :: "(string \<times> ValidatorVote) list"

definition newManager :: manager where
  "newManager = \<lparr>mCandidate = [], vCandidate = []\<rparr>"

text \<open>One of the two loops of \<open>getVotes\<close>: the first entry that passes the check and whose deadline
  lies ahead is taken; the entries met before it are deleted.\<close>

fun getVotes_loop ::
  "('k \<Rightarrow> bool \<Rightarrow> bool go) \<Rightarrow> ('v \<Rightarrow> bool) \<Rightarrow> ('v \<Rightarrow> int ptr) \<Rightarrow> u64 \<Rightarrow> ('k \<times> 'v) list \<Rightarrow>
   ('v ptr \<times> ('k \<times> 'v) list) go" where
  "getVotes_loop check auth deadline height [] = ret (None, [])"
| "getVotes_loop check auth deadline height ((k, vote) # m) = do {
     ok \<leftarrow> check k (auth vote);
     live \<leftarrow> (if ok then do { d \<leftarrow> deadline vote; ret (height < big_Uint64 d) } else ret False);
     if live then ret (Some vote, (k, vote) # m)
     else getVotes_loop check auth deadline height m
   }"

definition getVotes ::
  "u64 \<Rightarrow> (Address \<Rightarrow> bool \<Rightarrow> bool go) \<Rightarrow> (string \<Rightarrow> bool \<Rightarrow> bool go) \<Rightarrow> manager \<Rightarrow>
   (ManagementVote ptr \<times> ValidatorVote ptr \<times> manager) go" where
  "getVotes height checkM checkV m = do {
     (mVote, ms) \<leftarrow> getVotes_loop checkM mvAuthorize mvDeadlineHeight height (mCandidate m);
     (vVote, vs) \<leftarrow> getVotes_loop checkV vvAuthorize vvDeadlineHeight height (vCandidate m);
     ret (mVote, vVote, m\<lparr>mCandidate := ms, vCandidate := vs\<rparr>)
   }"

definition setMVote :: "Address \<Rightarrow> ManagementVote \<Rightarrow> manager \<Rightarrow> manager" where
  "setMVote addr vote m = m\<lparr>mCandidate := AList.update addr vote (mCandidate m)\<rparr>"

definition setVVote :: "string \<Rightarrow> ValidatorVote \<Rightarrow> manager \<Rightarrow> manager" where
  "setVVote val vote m = m\<lparr>vCandidate := AList.update val vote (vCandidate m)\<rparr>"

section \<open>Validator sets in the store\<close>

record vheap =
  vsets :: "ValidatorSet list"
  vnext :: nat

definition derefSet :: "vheap \<Rightarrow> nat ptr \<Rightarrow> ValidatorSet go" where
  "derefSet H p = do { r \<leftarrow> p; if r < length (vsets H) then ret (vsets H ! r) else panic }"

text \<open>\<open>validator.NewSet\<close> allocates the set and its validators.\<close>

definition NewSet :: "string list \<Rightarrow> ProposerPolicy \<Rightarrow> vheap \<Rightarrow> nat \<times> vheap" where
  "NewSet xs pol H =
     (length (vsets H),
      H\<lparr>vsets := vsets H @ [newDefaultSet (vnext H) xs pol], vnext := vnext H + length xs\<rparr>)"

definition storeSet :: "nat ptr \<Rightarrow> ValidatorSet \<Rightarrow> vheap \<Rightarrow> vheap" where
  "storeSet p vs H = (case p of None \<Rightarrow> H | Some r \<Rightarrow> H\<lparr>vsets := (vsets H)[r := vs]\<rparr>)"

section \<open>The vote snapshot\<close>

record voteSnapshot =
  vsnValSet :: "nat ptr"
  Managers :: "(Address, unit) gomap"
  vVotes :: "ValidatorVote list"
  mVotes :: "ManagementVote list"
  vTally :: "(string, Tally) gomap"
  mTally :: "(Address, Tally) gomap"

text \<open>The two tally maps of a new vote snapshot are nil.\<close>

definition newVoteSnapshot :: "nat ptr \<Rightarrow> Address list \<Rightarrow> voteSnapshot" where
  "newVoteSnapshot valSet managers =
     \<lparr>vsnValSet = valSet, Managers = Some (fold (\<lambda>a. AList.update a ()) managers []),
      vVotes = [], mVotes = [], vTally = None, mTally = None\<rparr>"

definition isManager :: "voteSnapshot \<Rightarrow> Address \<Rightarrow> bool" where
  "isManager s addr \<longleftrightarrow> mapGet (Managers s) addr \<noteq> None"

definition checkMVote :: "voteSnapshot \<Rightarrow> Address \<Rightarrow> bool \<Rightarrow> bool" where
  "checkMVote s address authorize =
     (let ok = mapGet (Managers s) address \<noteq> None in (ok \<and> \<not> authorize) \<or> (\<not> ok \<and> authorize))"

text \<open>\<open>append(xs[:i], xs[i+1:]...)\<close> panics unless \<open>i + 1\<close> is at most the length.\<close>

definition sliceDelete :: "nat \<Rightarrow> 'a list \<Rightarrow> 'a list go" where
  "sliceDelete i xs = (if i < length xs then ret (take i xs @ drop (i + 1) xs) else panic)"

text \<open>The index and value of the first element that satisfies a test, as a range loop with \<open>break\<close>
  finds them.\<close>

fun findFrom :: "nat \<Rightarrow> ('a \<Rightarrow> bool) \<Rightarrow> 'a list \<Rightarrow> (nat \<times> 'a) option" where
  "findFrom i P [] = None"
| "findFrom i P (x # xs) = (if P x then Some (i, x) else findFrom (i + 1) P xs)"

text \<open>\<open>uncastM\<close> and \<open>uncastV\<close> on their tally map; \<open>castM\<close> and \<open>castV\<close> once the check has passed.\<close>

definition uncastTally :: "'k \<Rightarrow> bool \<Rightarrow> ('k, Tally) gomap \<Rightarrow> bool \<times> ('k, Tally) gomap" where
  "uncastTally k authorize m =
     (case mapGet m k of
        None \<Rightarrow> (False, m)
      | Some tally \<Rightarrow>
          if tyAuthorize tally \<noteq> authorize then (False, m)
          else if tyVotes tally > 1
            then (True, map_option (AList.update k (tally\<lparr>tyVotes := tyVotes tally - 1\<rparr>)) m)
            else (True, mapDelete m k))"

definition castTally :: "'k \<Rightarrow> bool \<Rightarrow> ('k, Tally) gomap \<Rightarrow> ('k, Tally) gomap go" where
  "castTally k authorize m =
     (case mapGet m k of
        Some old \<Rightarrow> mapPut m k (old\<lparr>tyVotes := tyVotes old + 1\<rparr>)
      | None \<Rightarrow> mapPut m k \<lparr>tyAuthorize = authorize, tyVotes = 1\<rparr>)"

definition castM :: "Address \<Rightarrow> bool \<Rightarrow> voteSnapshot \<Rightarrow> (bool \<times> voteSnapshot) go" where
  "castM address authorize s =
     (if \<not> checkMVote s address authorize then ret (False, s)
      else do { m \<leftarrow> castTally address authorize (mTally s); ret (True, s\<lparr>mTally := m\<rparr>) })"

definition uncastM :: "Address \<Rightarrow> bool \<Rightarrow> voteSnapshot \<Rightarrow> bool \<times> voteSnapshot" where
  "uncastM address authorize s =
     (let (done1, m) = uncastTally address authorize (mTally s) in (done1, s\<lparr>mTally := m\<rparr>))"

text \<open>The first loop of \<open>applyMVotes\<close> takes back an earlier vote of the same manager on the same
  candidate; the second, run when a candidate is removed, drops every vote on it.\<close>

definition retractM :: "ManagementVote \<Rightarrow> voteSnapshot \<Rightarrow> voteSnapshot go" where
  "retractM mVote s =
     (case findFrom 0 (\<lambda>vote. mvManager vote = mvManager mVote \<and> mvCandidate vote = mvCandidate mVote)
        (mVotes s) of
        None \<Rightarrow> ret s
      | Some (i, vote) \<Rightarrow> do {
          let s = snd (uncastM (mvCandidate vote) (mvAuthorize vote) s);
          vs \<leftarrow> sliceDelete i (mVotes s);
          ret (s\<lparr>mVotes := vs\<rparr>)
        })"

fun discardM_loop :: "Address \<Rightarrow> ManagementVote list \<Rightarrow> voteSnapshot \<Rightarrow> ManagementVote list \<times> voteSnapshot" where
  "discardM_loop candidate [] s = ([], s)"
| "discardM_loop candidate (v # vs) s =
     (if mvCandidate v = candidate
      then discardM_loop candidate vs (snd (uncastM (mvCandidate v) (mvAuthorize v) s))
      else let (vs', s') = discardM_loop candidate vs s in (v # vs', s'))"

definition discardM :: "Address \<Rightarrow> voteSnapshot \<Rightarrow> voteSnapshot" where
  "discardM candidate s = (let (vs, s') = discardM_loop candidate (mVotes s) s in s'\<lparr>mVotes := vs\<rparr>)"

text \<open>The decision of \<open>applyMVotes\<close> once the vote is counted. The zero tally stands for a missing
  entry.\<close>

abbreviation (input) noTally :: Tally where
  "noTally \<equiv> \<lparr>tyAuthorize = False, tyVotes = 0\<rparr>"

definition tallyOf :: "('k, Tally) gomap \<Rightarrow> 'k \<Rightarrow> Tally" where
  "tallyOf m k = (case mapGet m k of None \<Rightarrow> noTally | Some t \<Rightarrow> t)"

definition decideM :: "Address \<Rightarrow> voteSnapshot \<Rightarrow> voteSnapshot go" where
  "decideM candidate s =
     (let tally = tallyOf (mTally s) candidate
      in if tyVotes tally > mapLen (Managers s) div 2
         then do {
           s \<leftarrow> (if tyAuthorize tally
                 then do { m \<leftarrow> mapPut (Managers s) candidate (); ret (s\<lparr>Managers := m\<rparr>) }
                 else ret (discardM candidate (s\<lparr>Managers := mapDelete (Managers s) candidate\<rparr>)));
           ret (s\<lparr>mTally := mapDelete (mTally s) candidate\<rparr>)
         }
         else ret s)"

definition applyMVotes :: "ConsensusData \<Rightarrow> voteSnapshot \<Rightarrow> voteSnapshot go" where
  "applyMVotes data s =
     (case MVote data of
        None \<Rightarrow> ret s
      | Some mVote \<Rightarrow> do {
          s \<leftarrow> retractM mVote s;
          (ok, s) \<leftarrow> castM (mvCandidate mVote) (mvAuthorize mVote) s;
          let s = (if ok then s\<lparr>mVotes := mVotes s @ [mVote]\<rparr> else s);
          decideM (mvCandidate mVote) s
        })"

section \<open>Votes on validators\<close>

definition checkVVote :: "vheap \<Rightarrow> voteSnapshot \<Rightarrow> string \<Rightarrow> bool \<Rightarrow> bool go" where
  "checkVVote H s x authorize = do {
     vs \<leftarrow> derefSet H (vsnValSet s);
     let validator = snd (GetById vs x);
     ret ((validator \<noteq> None \<and> \<not> authorize) \<or> (validator = None \<and> authorize))
   }"

definition castV :: "vheap \<Rightarrow> string \<Rightarrow> bool \<Rightarrow> voteSnapshot \<Rightarrow> (bool \<times> voteSnapshot) go" where
  "castV H x authorize s = do {
     ok \<leftarrow> checkVVote H s x authorize;
     if \<not> ok then ret (False, s)
     else do { m \<leftarrow> castTally x authorize (vTally s); ret (True, s\<lparr>vTally := m\<rparr>) }
   }"

definition uncastV :: "string \<Rightarrow> bool \<Rightarrow> voteSnapshot \<Rightarrow> bool \<times> voteSnapshot" where
  "uncastV x authorize s =
     (let (done1, m) = uncastTally x authorize (vTally s) in (done1, s\<lparr>vTally := m\<rparr>))"

text \<open>The first loop of \<open>applyVVotes\<close> finds the earlier vote in \<open>vVotes\<close>, but deletes its index from
  \<open>mVotes\<close>.\<close>

definition retractV :: "ValidatorVote \<Rightarrow> voteSnapshot \<Rightarrow> voteSnapshot go" where
  "retractV vVote s =
     (case findFrom 0 (\<lambda>vote. vvManager vote = vvManager vVote \<and> vvValidator vote = vvValidator vVote)
        (vVotes s) of
        None \<Rightarrow> ret s
      | Some (i, vote) \<Rightarrow> do {
          let s = snd (uncastV (vvValidator vote) (vvAuthorize vote) s);
          ms \<leftarrow> sliceDelete i (mVotes s);
          ret (s\<lparr>mVotes := ms\<rparr>)
        })"

fun discardV_loop ::
  "string \<Rightarrow> bool \<Rightarrow> ValidatorVote list \<Rightarrow> voteSnapshot \<Rightarrow> ValidatorVote list \<times> voteSnapshot" where
  "discardV_loop x authorize [] s = ([], s)"
| "discardV_loop x authorize (v # vs) s =
     (if vvValidator v = x then discardV_loop x authorize vs (snd (uncastV x authorize s))
      else let (vs', s') = discardV_loop x authorize vs s in (v # vs', s'))"

definition discardV :: "string \<Rightarrow> bool \<Rightarrow> voteSnapshot \<Rightarrow> voteSnapshot" where
  "discardV x authorize s =
     (let (vs, s') = discardV_loop x authorize (vVotes s) s in s'\<lparr>vVotes := vs\<rparr>)"

definition decideV :: "string \<Rightarrow> voteSnapshot \<Rightarrow> vheap \<Rightarrow> (voteSnapshot \<times> vheap) go" where
  "decideV x s H = do {
     let tally = tallyOf (vTally s) x;
     vs \<leftarrow> derefSet H (vsnValSet s);
     if tyVotes tally > Size vs div 2
     then do {
       let (s, H) =
         (if tyAuthorize tally
          then (s, storeSet (vsnValSet s) (snd (AddValidator (vnext H) vs x)) (H\<lparr>vnext := vnext H + 1\<rparr>))
          else (discardV x (tyAuthorize tally) s, storeSet (vsnValSet s) (snd (RemoveValidator vs x)) H));
       ret (s\<lparr>vTally := mapDelete (vTally s) x\<rparr>, H)
     }
     else ret (s, H)
   }"

definition applyVVotes :: "ConsensusData \<Rightarrow> voteSnapshot \<Rightarrow> vheap \<Rightarrow> (voteSnapshot \<times> vheap) go" where
  "applyVVotes data s H =
     (case VVote data of
        None \<Rightarrow> ret (s, H)
      | Some vVote \<Rightarrow> do {
          s \<leftarrow> retractV vVote s;
          (ok, s) \<leftarrow> castV H (vvValidator vVote) (vvAuthorize vVote) s;
          let s = (if ok then s\<lparr>vVotes := vVotes s @ [vVote]\<rparr> else s);
          decideV (vvValidator vVote) s H
        })"

section \<open>Reset, copy and the stored form\<close>

definition resetVotes :: "voteSnapshot \<Rightarrow> voteSnapshot" where
  "resetVotes s = s\<lparr>mVotes := [], vVotes := [], mTally := Some [], vTally := Some []\<rparr>"

text \<open>\<open>copy\<close> allocates a copy of the validator set and fresh, non-nil maps.\<close>

definition copyVotes :: "voteSnapshot \<Rightarrow> vheap \<Rightarrow> (voteSnapshot \<times> vheap) go" where
  "copyVotes s H = do {
     vs \<leftarrow> derefSet H (vsnValSet s);
     let (r, H) = NewSet (map ID (validators vs)) (policy vs) H;
     ret (\<lparr>vsnValSet = Some r, Managers = Some (mapEntries (Managers s)), vVotes = vVotes s,
           mVotes = mVotes s, vTally = Some (mapEntries (vTally s)),
           mTally = Some (mapEntries (mTally s))\<rparr>, H)
   }"

record extVoteSnapshot =
  exValidatorIDs :: "string list"
  exManagers :: "(Address, unit) gomap"
  exVVotes :: "ValidatorVote list"
  exMVotes :: "ManagementVote list"
  exMTally :: "(Address, Tally) gomap"
  exVTally :: "(string, Tally) gomap"
  exPolicy :: ProposerPolicy

text \<open>The exchange sort of \<open>validators\<close>: \<open>exchange x ys\<close> is one run of the inner loop, \<open>x\<close> being the
  value at position \<open>i\<close> and \<open>ys\<close> the values after it.\<close>

fun exchange :: "string \<Rightarrow> string list \<Rightarrow> string \<times> string list" where
  "exchange x [] = (x, [])"
| "exchange x (y # ys) =
     (if y < x then (let (m, zs) = exchange y ys in (m, x # zs))
      else (let (m, zs) = exchange x ys in (m, y # zs)))"

lemma length_exchange [simp]: "length (snd (exchange x ys)) = length ys"
  by (induction x ys rule: exchange.induct) (auto split: prod.splits)

function exchangeSort :: "string list \<Rightarrow> string list" where
  "exchangeSort [] = []"
| "exchangeSort (x # ys) = (let (m, zs) = exchange x ys in m # exchangeSort zs)"
  by pat_completeness auto
termination
  by (relation "measure length") (auto, metis length_exchange snd_conv lessI)

definition validatorIDs :: "vheap \<Rightarrow> voteSnapshot \<Rightarrow> string list go" where
  "validatorIDs H s = do { vs \<leftarrow> derefSet H (vsnValSet s); ret (exchangeSort (map ID (ListOf vs))) }"

definition toJSONVotes :: "vheap \<Rightarrow> voteSnapshot \<Rightarrow> extVoteSnapshot go" where
  "toJSONVotes H s = do {
     xs \<leftarrow> validatorIDs H s;
     vs \<leftarrow> derefSet H (vsnValSet s);
     ret \<lparr>exValidatorIDs = xs, exManagers = Managers s, exVVotes = vVotes s, exMVotes = mVotes s,
          exMTally = mTally s, exVTally = vTally s, exPolicy = policy vs\<rparr>
   }"

text \<open>\<open>MarshalJSON\<close> and \<open>UnmarshalJSON\<close>, given the JSON codec at the stored form. \<open>Inl\<close> is the error.\<close>

definition marshalVotes ::
  "(extVoteSnapshot \<Rightarrow> bytes option) \<Rightarrow> vheap \<Rightarrow> voteSnapshot \<Rightarrow> (err + bytes) go" where
  "marshalVotes enc H s = do {
     j \<leftarrow> toJSONVotes H s;
     ret (case enc j of None \<Rightarrow> Inl (ErrLib ''json'') | Some b \<Rightarrow> Inr b)
   }"

definition unmarshalVotes ::
  "(bytes \<Rightarrow> extVoteSnapshot option) \<Rightarrow> bytes \<Rightarrow> vheap \<Rightarrow> err + (voteSnapshot \<times> vheap)" where
  "unmarshalVotes dec b H =
     (case dec b of
        None \<Rightarrow> Inl (ErrLib ''json'')
      | Some j \<Rightarrow>
          let (r, H) = NewSet (exValidatorIDs j) (exPolicy j) H
          in Inr (\<lparr>vsnValSet = Some r, Managers = exManagers j, vVotes = exVVotes j, mVotes = exMVotes j,
                   vTally = exVTally j, mTally = exMTally j\<rparr>, H))"


section \<open>Tallies\<close>

text \<open>The tally entry that stands for \<open>n\<close> votes: none for no votes.\<close>

definition tallyRep :: "bool \<Rightarrow> nat \<Rightarrow> Tally option" where
  "tallyRep a n = (if n = 0 then None else Some \<lparr>tyAuthorize = a, tyVotes = int n\<rparr>)"

lemma castTally_nil [simp]: "castTally k a None = None"
  by (simp add: castTally_def)

lemma castTally_rep:
  assumes "mapGet m k = tallyRep a n" "m \<noteq> None"
  obtains m' where "castTally k a m = Some m'" "m' \<noteq> None" "mapGet m' = (mapGet m)(k := tallyRep a (Suc n))"
proof -
  from assms obtain l where m: "m = Some l" by auto
  have "castTally k a m = Some (Some (AList.update k \<lparr>tyAuthorize = a, tyVotes = int (Suc n)\<rparr> l))"
    using assms(1) unfolding castTally_def m by (auto simp: tallyRep_def add.commute split: if_splits)
  then show thesis by (rule that) (simp_all add: tallyRep_def m)
qed

lemma uncastTally_rep:
  assumes "mapGet m k = tallyRep a (Suc n)"
  shows "mapGet (snd (uncastTally k a m)) = (mapGet m)(k := tallyRep a n)"
proof -
  from assms obtain l where m: "m = Some l" by (cases m) (auto simp: tallyRep_def)
  with assms show ?thesis by (auto simp: uncastTally_def tallyRep_def simp del: mapDelete_Some)
qed

lemma uncastTally_other:
  assumes "mapGet m k = tallyRep (\<not> a) n"
  shows "snd (uncastTally k a m) = m"
  using assms by (auto simp: uncastTally_def tallyRep_def split: if_splits)

lemma uncastTally_frame: "mapGet (snd (uncastTally k a m)) j = mapGet m j" if "j \<noteq> k"
  using that by (cases m) (auto simp: uncastTally_def split: option.splits simp del: mapDelete_Some)

lemma uncastTally_None [simp]: "snd (uncastTally k a m) = None \<longleftrightarrow> m = None"
  by (auto simp: uncastTally_def split: option.splits)

lemma tallyOf_rep: "mapGet m k = tallyRep a n \<Longrightarrow> tyVotes (tallyOf m k) = int n"
  "mapGet m k = tallyRep a n \<Longrightarrow> n \<noteq> 0 \<Longrightarrow> tyAuthorize (tallyOf m k) = a"
  by (auto simp: tallyOf_def tallyRep_def)

lemma findFrom_None: "findFrom n P xs = None \<longleftrightarrow> (\<forall>x \<in> set xs. \<not> P x)"
  by (induction xs arbitrary: n) auto

lemma findFrom_Some:
  assumes "findFrom n P xs = Some (i, x)"
  shows "n \<le> i" "i - n < length xs" "xs ! (i - n) = x" "P x"
proof -
  have "n \<le> i \<and> i - n < length xs \<and> xs ! (i - n) = x \<and> P x"
    using assms
  proof (induction xs arbitrary: n)
    case (Cons y ys)
    show ?case
    proof (cases "P y")
      case False
      with Cons have "Suc n \<le> i \<and> i - Suc n < length ys \<and> ys ! (i - Suc n) = x \<and> P x" by simp
      then show ?thesis by (auto simp: nth_Cons' diff_Suc split: nat.splits)
    qed (use Cons.prems in auto)
  qed simp
  then show "n \<le> i" "i - n < length xs" "xs ! (i - n) = x" "P x" by auto
qed

text \<open>When the key is unique, deleting the index of the entry found keeps all the others.\<close>

lemma sliceDelete_find:
  assumes "distinct (map f xs)" "findFrom 0 (\<lambda>y. f y = k) xs = Some (i, x)"
  shows "sliceDelete i xs = Some (filter (\<lambda>y. f y \<noteq> k) xs)"
proof -
  have "take (i - n) xs @ drop (Suc (i - n)) xs = filter (\<lambda>y. f y \<noteq> k) xs"
    if "findFrom n (\<lambda>y. f y = k) xs = Some (i, x)" for n
    using assms(1) that
  proof (induction xs arbitrary: n)
    case (Cons y ys)
    show ?case
    proof (cases "f y = k")
      case True
      with Cons.prems have "\<forall>z \<in> set ys. f z \<noteq> k" by (metis distinct.simps(2) image_eqI list.simps(9) list.set_map)
      then have "filter (\<lambda>z. f z \<noteq> k) ys = ys" by (simp add: filter_id_conv)
      with True Cons.prems show ?thesis by simp
    next
      case False
      with Cons.prems have "findFrom (Suc n) (\<lambda>y. f y = k) ys = Some (i, x)" by simp
      moreover from findFrom_Some(1) [OF this] have "i - n = Suc (i - Suc n)" by simp
      ultimately show ?thesis using Cons False by simp
    qed
  qed simp
  from this [OF assms(2)] findFrom_Some(2) [OF assms(2)] show ?thesis by (simp add: sliceDelete_def)
qed

section \<open>The count of votes on managers\<close>

text \<open>The votes that count for a candidate are those in the direction its status allows: to
  authorize an address that is not a manager, to remove one that is. The tally counts exactly
  these, there is one vote per manager and candidate, and a vote for removal is on a manager.\<close>

definition liveM :: "voteSnapshot \<Rightarrow> Address \<Rightarrow> ManagementVote list" where
  "liveM s c = filter (\<lambda>v. mvCandidate v = c \<and> mvAuthorize v \<noteq> isManager s c) (mVotes s)"

definition supporters :: "voteSnapshot \<Rightarrow> Address \<Rightarrow> Address set" where
  "supporters s c = mvManager ` set (liveM s c)"

abbreviation (input) mvKey :: "ManagementVote \<Rightarrow> Address \<times> Address" where
  "mvKey v \<equiv> (mvManager v, mvCandidate v)"

definition mvote_inv :: "voteSnapshot \<Rightarrow> bool" where
  "mvote_inv s \<longleftrightarrow> map_ok (Managers s) \<and> distinct (map mvKey (mVotes s)) \<and>
     (\<forall>v \<in> set (mVotes s). mvAuthorize v \<or> isManager s (mvCandidate v)) \<and>
     (\<forall>c. mapGet (mTally s) c = tallyRep (\<not> isManager s c) (length (liveM s c)))"

lemma isManager_keys: "isManager s a \<longleftrightarrow> a \<in> mapKeys (Managers s)"
  using mapGet_None_iff [of "Managers s" a] by (auto simp: isManager_def)

lemma checkMVote_iff: "checkMVote s a b \<longleftrightarrow> b \<noteq> isManager s a"
  by (auto simp: checkMVote_def isManager_def)

lemma card_supporters: "distinct (map mvKey (mVotes s)) \<Longrightarrow> card (supporters s c) = length (liveM s c)"
proof -
  assume "distinct (map mvKey (mVotes s))"
  then have "distinct (map mvKey (liveM s c))" by (simp add: liveM_def distinct_map_filter)
  then have "distinct (liveM s c)" "inj_on mvManager (set (liveM s c))"
    by (auto simp: distinct_map inj_on_def liveM_def)
  then show ?thesis by (simp add: supporters_def card_image distinct_card)
qed

lemma filter_key_length:
  assumes "distinct (map f xs)" "x \<in> set xs"
  shows "length (filter P xs) = length (filter P (filter (\<lambda>y. f y \<noteq> f x) xs)) + (if P x then 1 else 0)"
  using assms
proof (induction xs)
  case (Cons y ys)
  show ?case
  proof (cases "f y = f x")
    case True
    with Cons.prems have "y = x" and none: "\<forall>z \<in> set ys. f z \<noteq> f x" by (auto simp: image_iff)
    moreover from none have "filter (\<lambda>z. f z \<noteq> f x) ys = ys" by (simp add: filter_id_conv)
    ultimately show ?thesis by (auto simp del: filter_filter)
  next
    case False
    with Cons show ?thesis by auto
  qed
qed simp

text \<open>What the votes on managers leave alone.\<close>

definition vpart :: "voteSnapshot \<Rightarrow> nat ptr \<times> ValidatorVote list \<times> (string, Tally) gomap" where
  "vpart s = (vsnValSet s, vVotes s, vTally s)"

lemma retractM_inv:
  assumes "mvote_inv s"
  obtains s' where "retractM v s = Some s'" "mvote_inv s'" "Managers s' = Managers s"
    "mVotes s' = filter (\<lambda>w. mvKey w \<noteq> mvKey v) (mVotes s)" "mTally s' = None \<longleftrightarrow> mTally s = None"
    "vpart s' = vpart s"
proof (cases "findFrom 0 (\<lambda>w. mvKey w = mvKey v) (mVotes s)")
  case None
  then have "filter (\<lambda>w. mvKey w \<noteq> mvKey v) (mVotes s) = mVotes s"
    by (auto simp: findFrom_None filter_id_conv)
  moreover have "retractM v s = Some s" using None by (simp add: retractM_def)
  ultimately show thesis using assms that by simp
next
  case (Some ix)
  obtain i x where ix: "ix = (i, x)" by force
  let ?rest = "filter (\<lambda>w. mvKey w \<noteq> mvKey v) (mVotes s)" and ?a = "mvAuthorize x" and ?c = "mvCandidate v"
  from assms have dist: "distinct (map mvKey (mVotes s))"
    and tally: "\<And>c. mapGet (mTally s) c = tallyRep (\<not> isManager s c) (length (liveM s c))"
    by (auto simp: mvote_inv_def)
  from findFrom_Some [OF Some [unfolded ix]] have x: "x \<in> set (mVotes s)" "mvKey x = mvKey v" by auto
  define m where "m = snd (uncastTally ?c ?a (mTally s))"
  let ?s = "s\<lparr>mTally := m, mVotes := ?rest\<rparr>"
  have eq: "retractM v s = Some ?s"
    using Some sliceDelete_find [OF dist Some [unfolded ix]] x(2)
    by (simp add: retractM_def ix uncastM_def m_def split: prod.splits)
  have len: "length (liveM s c) = length (liveM ?s c) + (if mvCandidate x = c \<and> ?a \<noteq> isManager s c then 1 else 0)" for c
    using filter_key_length [OF dist x(1), of "\<lambda>w. mvCandidate w = c \<and> mvAuthorize w \<noteq> isManager s c"] x(2)
    by (simp add: liveM_def isManager_def)
  have "mapGet m c = tallyRep (\<not> isManager s c) (length (liveM ?s c))" for c
  proof (cases "c = ?c")
    case False
    then show ?thesis using len [of c] x(2) tally [of c] by (auto simp: m_def uncastTally_frame)
  next
    case True
    show ?thesis
    proof (cases "?a = isManager s c")
      case stale: True
      then have "m = mTally s" unfolding m_def True [symmetric]
        using tally [of c] by (intro uncastTally_other) simp
      with len [of c] stale tally [of c] show ?thesis by simp
    next
      case False
      then have "mapGet (mTally s) c = tallyRep ?a (Suc (length (liveM ?s c)))"
        using len [of c] x(2) True tally [of c] by simp
      from uncastTally_rep [OF this] False show ?thesis by (simp add: m_def True)
    qed
  qed
  then have "mvote_inv ?s"
    using assms by (auto simp: mvote_inv_def isManager_def distinct_map_filter)
  with eq show thesis by (rule that) (simp_all add: m_def vpart_def)
qed


lemma snd_uncastM [simp]: "snd (uncastM a b s) = s\<lparr>mTally := snd (uncastTally a b (mTally s))\<rparr>"
  by (simp add: uncastM_def split: prod.splits)

lemma discardM_loop_result:
  "fst (discardM_loop c vs s) = filter (\<lambda>v. mvCandidate v \<noteq> c) vs"
  "\<exists>m. snd (discardM_loop c vs s) = s\<lparr>mTally := m\<rparr> \<and> (m = None \<longleftrightarrow> mTally s = None) \<and>
     (\<forall>j. j \<noteq> c \<longrightarrow> mapGet m j = mapGet (mTally s) j)"
proof -
  have "fst (discardM_loop c vs s) = filter (\<lambda>v. mvCandidate v \<noteq> c) vs \<and>
    (\<exists>m. snd (discardM_loop c vs s) = s\<lparr>mTally := m\<rparr> \<and> (m = None \<longleftrightarrow> mTally s = None) \<and>
     (\<forall>j. j \<noteq> c \<longrightarrow> mapGet m j = mapGet (mTally s) j))"
  proof (induction c vs s rule: discardM_loop.induct)
    case (1 c s)
    show ?case by (auto intro: exI [of _ "mTally s"])
  next
    case (2 c v vs s)
    show ?case
    proof (cases "mvCandidate v = c")
      case True
      from 2(1) [OF True] show ?thesis using True
        by (auto simp: uncastTally_frame)
    next
      case False
      from 2(2) [OF False] show ?thesis using False by (auto split: prod.splits)
    qed
  qed
  then show "fst (discardM_loop c vs s) = filter (\<lambda>v. mvCandidate v \<noteq> c) vs"
    "\<exists>m. snd (discardM_loop c vs s) = s\<lparr>mTally := m\<rparr> \<and> (m = None \<longleftrightarrow> mTally s = None) \<and>
     (\<forall>j. j \<noteq> c \<longrightarrow> mapGet m j = mapGet (mTally s) j)" by auto
qed

lemma discardM_result:
  obtains m where "discardM c s = s\<lparr>mTally := m, mVotes := filter (\<lambda>v. mvCandidate v \<noteq> c) (mVotes s)\<rparr>"
    "m = None \<longleftrightarrow> mTally s = None" "\<And>j. j \<noteq> c \<Longrightarrow> mapGet m j = mapGet (mTally s) j"
  using discardM_loop_result [of c "mVotes s" s] that
  by (fastforce simp: discardM_def split: prod.splits)

lemma castM_inv:
  assumes "mvote_inv s" "mTally s \<noteq> None" "\<forall>w \<in> set (mVotes s). mvKey w \<noteq> mvKey v"
  obtains ok s1 s2 where "castM (mvCandidate v) (mvAuthorize v) s = Some (ok, s1)"
    "s2 = (if ok then s1\<lparr>mVotes := mVotes s1 @ [v]\<rparr> else s1)" "mvote_inv s2" "Managers s2 = Managers s"
    "mTally s2 \<noteq> None" "vpart s2 = vpart s"
    "mVotes s2 = mVotes s @ (if mvAuthorize v \<noteq> isManager s (mvCandidate v) then [v] else [])"
proof (cases "mvAuthorize v = isManager s (mvCandidate v)")
  case True
  then have "castM (mvCandidate v) (mvAuthorize v) s = Some (False, s)" by (simp add: castM_def checkMVote_iff)
  then show thesis using True assms by (intro that [of False s s]) simp_all
next
  case False
  let ?c = "mvCandidate v"
  from assms(1) have tally: "\<And>c. mapGet (mTally s) c = tallyRep (\<not> isManager s c) (length (liveM s c))"
    by (simp add: mvote_inv_def)
  have "mapGet (mTally s) ?c = tallyRep (mvAuthorize v) (length (liveM s ?c))" using tally [of ?c] False by simp
  from castTally_rep [OF this assms(2)] obtain m where m: "castTally ?c (mvAuthorize v) (mTally s) = Some m"
    "m \<noteq> None" "mapGet m = (mapGet (mTally s))(?c := tallyRep (mvAuthorize v) (Suc (length (liveM s ?c))))" .
  let ?s = "s\<lparr>mTally := m, mVotes := mVotes s @ [v]\<rparr>"
  have live: "liveM ?s c = liveM s c @ (if c = ?c then [v] else [])" for c
    using False by (auto simp: liveM_def isManager_def)
  have "mvote_inv ?s"
    using assms(1,3) tally False by (auto simp: mvote_inv_def isManager_def live m(3))
  moreover have "castM ?c (mvAuthorize v) s = Some (True, s\<lparr>mTally := m\<rparr>)"
    using False m(1) by (simp add: castM_def checkMVote_iff)
  ultimately show thesis using False m(2) by (intro that [of True "s\<lparr>mTally := m\<rparr>" ?s]) (simp_all add: vpart_def)
qed

lemma decideM_inv:
  assumes "mvote_inv s" "mTally s \<noteq> None" "Managers s \<noteq> None"
  obtains s' where "decideM c s = Some s'" "mvote_inv s'" "mTally s' \<noteq> None" "Managers s' \<noteq> None" "vpart s' = vpart s"
    "mapKeys (Managers s') =
      (if card (supporters s c) > card (mapKeys (Managers s)) div 2
       then if isManager s c then mapKeys (Managers s) - {c} else insert c (mapKeys (Managers s))
       else mapKeys (Managers s))"
proof -
  let ?n = "length (liveM s c)" and ?K = "card (mapKeys (Managers s))"
  from assms(1) have inv: "map_ok (Managers s)" "distinct (map mvKey (mVotes s))"
    "\<And>v. v \<in> set (mVotes s) \<Longrightarrow> mvAuthorize v \<or> isManager s (mvCandidate v)"
    and tally: "\<And>j. mapGet (mTally s) j = tallyRep (\<not> isManager s j) (length (liveM s j))"
    by (auto simp: mvote_inv_def)
  note card = card_supporters [OF inv(2), of c]
  have test: "tyVotes (tallyOf (mTally s) c) > mapLen (Managers s) div 2 \<longleftrightarrow> ?n > ?K div 2"
    using tallyOf_rep(1) [OF tally [of c]] mapLen_card [OF inv(1)] zdiv_int [of ?K 2] by simp linarith
  consider (none) "\<not> ?n > ?K div 2" | (add) "?n > ?K div 2" "\<not> isManager s c" | (del) "?n > ?K div 2" "isManager s c"
    by blast
  then show thesis
  proof cases
    case none
    with test have "decideM c s = Some s" by (simp add: decideM_def)
    with assms none card show thesis by (intro that [of s]) simp_all
  next
    case add
    obtain l where l: "Managers s = Some l" using assms(3) by auto
    let ?s = "s\<lparr>Managers := Some (AList.update c () l), mTally := mapDelete (mTally s) c\<rparr>"
    have "tyAuthorize (tallyOf (mTally s) c)" using tallyOf_rep(2) [OF tally [of c]] add by fastforce
    with test add l have eq: "decideM c s = Some ?s" by (simp add: decideM_def)
    have man: "isManager ?s j \<longleftrightarrow> j = c \<or> isManager s j" for j by (simp add: isManager_def l)
    have "liveM ?s j = (if j = c then [] else liveM s j)" for j
      using inv(3) add(2) by (auto simp: liveM_def man filter_empty_conv intro!: filter_cong)
    then have "mvote_inv ?s" using inv tally by (auto simp: mvote_inv_def man l tallyRep_def)
    then show thesis using eq assms(2) add card l
      by (intro that [of ?s]) (simp_all add: vpart_def)
  next
    case del
    let ?t = "s\<lparr>Managers := mapDelete (Managers s) c\<rparr>"
    obtain m where m: "discardM c ?t = ?t\<lparr>mTally := m, mVotes := filter (\<lambda>v. mvCandidate v \<noteq> c) (mVotes ?t)\<rparr>"
      "m = None \<longleftrightarrow> mTally ?t = None" "\<And>j. j \<noteq> c \<Longrightarrow> mapGet m j = mapGet (mTally ?t) j"
      using discardM_result [of c ?t] by blast
    let ?s = "?t\<lparr>mVotes := filter (\<lambda>v. mvCandidate v \<noteq> c) (mVotes s), mTally := mapDelete m c\<rparr>"
    have "\<not> tyAuthorize (tallyOf (mTally s) c)" using tallyOf_rep(2) [OF tally [of c]] del by fastforce
    with test del m(1) have eq: "decideM c s = Some ?s" by (simp add: decideM_def)
    have man: "isManager ?s j \<longleftrightarrow> j \<noteq> c \<and> isManager s j" for j by (simp add: isManager_def)
    have live: "liveM ?s j = (if j = c then [] else liveM s j)" for j
      by (auto simp: liveM_def man filter_empty_conv intro!: filter_cong)
    have "mvote_inv ?s"
      using inv tally m(3) by (auto simp: mvote_inv_def man live tallyRep_def distinct_map_filter)
    then show thesis using eq assms m(2) del card
      by (intro that [of ?s]) (simp_all add: vpart_def)
  qed
qed


lemma applyMVotes_inv:
  assumes "mvote_inv s" "mTally s \<noteq> None" "Managers s \<noteq> None" "MVote data = Some v"
  obtains s3 s' where "applyMVotes data s = Some s'" "mvote_inv s'" "mTally s' \<noteq> None" "Managers s' \<noteq> None"
    "vpart s' = vpart s" "decideM (mvCandidate v) s3 = Some s'" "Managers s3 = Managers s"
    "mVotes s3 = filter (\<lambda>w. mvKey w \<noteq> mvKey v) (mVotes s) @
       (if mvAuthorize v \<noteq> isManager s (mvCandidate v) then [v] else [])"
    "mapKeys (Managers s') =
      (if card (supporters s3 (mvCandidate v)) > card (mapKeys (Managers s)) div 2
       then if isManager s (mvCandidate v) then mapKeys (Managers s) - {mvCandidate v}
         else insert (mvCandidate v) (mapKeys (Managers s))
       else mapKeys (Managers s))"
proof -
  let ?c = "mvCandidate v"
  obtain s1 where s1: "retractM v s = Some s1" "mvote_inv s1" "Managers s1 = Managers s"
    "mVotes s1 = filter (\<lambda>w. mvKey w \<noteq> mvKey v) (mVotes s)" "mTally s1 = None \<longleftrightarrow> mTally s = None"
    "vpart s1 = vpart s"
    by (rule retractM_inv [OF assms(1), of v])
  have man: "isManager s1 ?c = isManager s ?c" by (simp add: isManager_def s1)
  have nn: "mTally s1 \<noteq> None" and fresh: "\<forall>w \<in> set (mVotes s1). mvKey w \<noteq> mvKey v" using s1(4,5) assms(2) by auto
  obtain ok t s3 where s3: "castM ?c (mvAuthorize v) s1 = Some (ok, t)"
    "s3 = (if ok then t\<lparr>mVotes := mVotes t @ [v]\<rparr> else t)" "mvote_inv s3" "Managers s3 = Managers s1"
    "mTally s3 \<noteq> None" "vpart s3 = vpart s1"
    "mVotes s3 = mVotes s1 @ (if mvAuthorize v \<noteq> isManager s1 ?c then [v] else [])"
    by (rule castM_inv [OF s1(2) nn fresh])
  have nm: "Managers s3 \<noteq> None" using s3(4) s1(3) assms(3) by simp
  obtain s' where s': "decideM ?c s3 = Some s'" "mvote_inv s'" "mTally s' \<noteq> None" "Managers s' \<noteq> None"
    "vpart s' = vpart s3" "mapKeys (Managers s') =
      (if card (supporters s3 ?c) > card (mapKeys (Managers s3)) div 2
       then if isManager s3 ?c then mapKeys (Managers s3) - {?c} else insert ?c (mapKeys (Managers s3))
       else mapKeys (Managers s3))"
    by (rule decideM_inv [OF s3(3,5) nm, of ?c])
  have man3: "isManager s3 ?c = isManager s ?c" unfolding isManager_def s3(4) s1(3) ..
  have "applyMVotes data s = Some s'"
    using assms(4) s1(1) s3(1,2) s'(1) by (simp add: applyMVotes_def)
  then show thesis
  proof (rule that [OF _ s'(2-4) _ s'(1)])
    show "vpart s' = vpart s" "Managers s3 = Managers s" using s1(3,6) s3(4,6) s'(5) by simp_all
    show "mVotes s3 = filter (\<lambda>w. mvKey w \<noteq> mvKey v) (mVotes s) @
       (if mvAuthorize v \<noteq> isManager s ?c then [v] else [])" unfolding s3(7) s1(4) man ..
    show "mapKeys (Managers s') = (if card (supporters s3 ?c) > card (mapKeys (Managers s)) div 2
       then if isManager s ?c then mapKeys (Managers s) - {?c} else insert ?c (mapKeys (Managers s))
       else mapKeys (Managers s))" unfolding s'(6) man3 s3(4) s1(3) ..
  qed
qed

text \<open>The supporters of a candidate once a vote on it is counted.\<close>

lemma supporters_recast:
  assumes "mVotes s3 = filter (\<lambda>w. mvKey w \<noteq> mvKey v) (mVotes s) @
       (if mvAuthorize v \<noteq> isManager s (mvCandidate v) then [v] else [])" "Managers s3 = Managers s"
  shows "supporters s3 (mvCandidate v) =
    (if mvAuthorize v \<noteq> isManager s (mvCandidate v) then insert (mvManager v) (supporters s (mvCandidate v))
     else supporters s (mvCandidate v) - {mvManager v})"
proof -
  have "isManager s3 (mvCandidate v) = isManager s (mvCandidate v)" by (simp add: isManager_def assms)
  then show ?thesis by (auto simp: supporters_def liveM_def assms(1) image_iff)
qed

section \<open>Sorting\<close>

lemma exchange_min:
  assumes "exchange x ys = (m, zs)"
  shows "mset (m # zs) = mset (x # ys)" "\<forall>z \<in> set zs. m \<le> z" "m \<le> x"
proof -
  have "mset (m # zs) = mset (x # ys) \<and> (\<forall>z \<in> set zs. m \<le> z) \<and> m \<le> x"
    using assms
  proof (induction x ys arbitrary: m zs rule: exchange.induct)
    case (2 x y ys)
    then show ?case by (fastforce split: if_splits prod.splits)
  qed simp
  then show "mset (m # zs) = mset (x # ys)" "\<forall>z \<in> set zs. m \<le> z" "m \<le> x" by auto
qed

lemma exchangeSort_sort: "exchangeSort xs = sort xs"
proof -
  have "mset (exchangeSort xs) = mset xs \<and> sorted (exchangeSort xs)"
  proof (induction xs rule: exchangeSort.induct)
    case (2 x ys)
    obtain m zs where ex: "exchange x ys = (m, zs)" by force
    with 2 have IH: "mset (exchangeSort zs) = mset zs" "sorted (exchangeSort zs)" by auto
    from IH(1) have "set (exchangeSort zs) = set zs" by (rule mset_eq_setD)
    then show ?case using IH exchange_min [OF ex] by (simp add: ex)
  qed simp
  then show ?thesis by (intro properties_for_sort [symmetric]) auto
qed


section \<open>The stored form and the proposed votes\<close>

text \<open>The JSON codec at the stored form: a decoder returns what was encoded, up to the difference
  between a nil and an empty map and to the order of map entries.\<close>

definition ext_same :: "extVoteSnapshot \<Rightarrow> extVoteSnapshot \<Rightarrow> bool" where
  "ext_same j j' \<longleftrightarrow> exValidatorIDs j' = exValidatorIDs j \<and> mapGet (exManagers j') = mapGet (exManagers j) \<and>
     exVVotes j' = exVVotes j \<and> exMVotes j' = exMVotes j \<and> mapGet (exMTally j') = mapGet (exMTally j) \<and>
     mapGet (exVTally j') = mapGet (exVTally j) \<and> exPolicy j' = exPolicy j"

definition json_ok :: "(extVoteSnapshot \<Rightarrow> bytes option) \<Rightarrow> (bytes \<Rightarrow> extVoteSnapshot option) \<Rightarrow> bool" where
  "json_ok enc dec \<longleftrightarrow> (\<forall>j b. enc j = Some b \<longrightarrow> (\<exists>j'. dec b = Some j' \<and> ext_same j j'))"

lemma getVotes_loop_result:
  assumes "getVotes_loop check auth deadline height m = Some (mv, m')"
  shows "(\<exists>gone. m = gone @ m' \<and> (\<forall>(a, w) \<in> set gone. check a (auth w) = Some True \<longrightarrow>
         (\<exists>d. deadline w = Some d \<and> big_Uint64 d \<le> height))) \<and>
    (case mv of None \<Rightarrow> m' = []
     | Some w \<Rightarrow> \<exists>a d ms. m' = (a, w) # ms \<and> check a (auth w) = Some True \<and> deadline w = Some d \<and>
         height < big_Uint64 d)"
  using assms
proof (induction check auth deadline height m rule: getVotes_loop.induct)
  case (2 check auth deadline height k vote m)
  show ?case
  proof (cases "\<exists>d. check k (auth vote) = Some True \<and> deadline vote = Some d \<and> height < big_Uint64 d")
    case True
    with 2(2) show ?thesis by (auto intro: exI [of _ "[]"])
  next
    case False
    with 2(2) have rest: "getVotes_loop check auth deadline height m = Some (mv, m')"
      and gone: "check k (auth vote) = Some True \<longrightarrow> (\<exists>d. deadline vote = Some d \<and> big_Uint64 d \<le> height)"
      by (auto elim!: bind_SomeE split: if_splits simp: not_less)
    have "check k (auth vote) \<noteq> None" using 2(2) by (auto elim!: bind_SomeE)
    then obtain ok where ok: "check k (auth vote) = Some ok" by auto
    obtain live where live: "(if ok then do { d \<leftarrow> deadline vote; Some (height < big_Uint64 d) } else Some False) = Some live"
      "\<not> live" using 2(2) ok False by (auto elim!: bind_SomeE split: if_splits)
    from 2(1) [OF ok live rest] gone show ?thesis
      by (elim conjE exE) (rule conjI, rule exI [of _ "(k, vote) # gone" for gone], auto)
  qed
qed simp

text \<open>A vote snapshot survives its stored form: the managers, votes and tallies come back, with a new
  validator set of the same policy and identifiers.\<close>

lemma votes_json_round_trip:
  assumes "json_ok enc dec" "marshalVotes enc H s = Some (Inr b)"
  shows "\<exists>s' H' vs vs'. unmarshalVotes dec b H = Inr (s', H') \<and>
    derefSet H (vsnValSet s) = Some vs \<and> derefSet H' (vsnValSet s') = Some vs' \<and>
    ids vs' = sort (ids vs) \<and> policy vs' = policy vs \<and> vsets H' = vsets H @ [vs'] \<and>
    mapGet (Managers s') = mapGet (Managers s) \<and> mapGet (mTally s') = mapGet (mTally s) \<and>
    mapGet (vTally s') = mapGet (vTally s) \<and> mVotes s' = mVotes s \<and> vVotes s' = vVotes s"
proof -
  from assms(2) obtain vs where vs: "derefSet H (vsnValSet s) = Some vs" and
    enc: "enc \<lparr>exValidatorIDs = sort (ids vs), exManagers = Managers s, exVVotes = vVotes s, exMVotes = mVotes s,
          exMTally = mTally s, exVTally = vTally s, exPolicy = policy vs\<rparr> = Some b"
    by (auto simp: marshalVotes_def toJSONVotes_def validatorIDs_def ids_def exchangeSort_sort
        elim!: bind_SomeE split: option.splits)
  from assms(1) enc obtain j' where j': "dec b = Some j'" and "ext_same
     \<lparr>exValidatorIDs = sort (ids vs), exManagers = Managers s, exVVotes = vVotes s, exMVotes = mVotes s,
          exMTally = mTally s, exVTally = vTally s, exPolicy = policy vs\<rparr> j'"
    unfolding json_ok_def by blast
  then have same: "exValidatorIDs j' = sort (ids vs)" "mapGet (exManagers j') = mapGet (Managers s)"
    "exVVotes j' = vVotes s" "exMVotes j' = mVotes s" "mapGet (exMTally j') = mapGet (mTally s)"
    "mapGet (exVTally j') = mapGet (vTally s)" "exPolicy j' = policy vs"
    by (simp_all add: ext_same_def)
  show ?thesis
    using vs same by (auto simp: unmarshalVotes_def j' NewSet_def Let_def derefSet_def sorted_sort_id)
qed

section \<open>Examples\<close>

definition exMVote :: ManagementVote where
  "exMVote = \<lparr>mvManager = 1, mvCandidate = 9, mvAuthorize = True, mvDeadlineHeight = Some 10, mvSignature = []\<rparr>"

definition exMData :: ConsensusData where
  "exMData = \<lparr>cdCommittedSeal = [], cdManagers = [], cdValidators = [], MVote = Some exMVote, VVote = None\<rparr>"

definition exVVote :: ValidatorVote where
  "exVVote = \<lparr>vvManager = 1, vvValidator = ''x'', vvAuthorize = True, vvDeadlineHeight = Some 10, vvSignature = []\<rparr>"

definition exVData :: ConsensusData where
  "exVData = \<lparr>cdCommittedSeal = [], cdManagers = [], cdValidators = [], MVote = None, VVote = Some exVVote\<rparr>"

definition exHeap :: vheap where
  "exHeap = snd (NewSet [''b'', ''a''] RoundRobin \<lparr>vsets = [], vnext = 0\<rparr>)"

definition exExt :: extVoteSnapshot where
  "exExt = \<lparr>exValidatorIDs = [''a'', ''b''], exManagers = Some [(1, ())], exVVotes = [], exMVotes = [],
          exMTally = None, exVTally = None, exPolicy = RoundRobin\<rparr>"

section \<open>Properties\<close>

text \<open>C18: votes on managers are counted one per voter and decide by majority. Applying a vote never
  panics when the maps are there and keeps the count in step with the votes. The managers
  change exactly when, with this vote, more than half as many voters as there are managers
  support it: the candidate is then added if it was no manager and removed if it was one. A
  voter who voted on the candidate before is not counted twice, and a vote in the direction that
  the candidate's status does not allow only takes the voter's earlier support back.\<close>

theorem managers_change_by_majority:
  assumes "mvote_inv s" "mTally s \<noteq> None" "Managers s \<noteq> None" "MVote data = Some v"
  shows "\<exists>s' S. applyMVotes data s = Some s' \<and> mvote_inv s' \<and> mTally s' \<noteq> None \<and> Managers s' \<noteq> None \<and>
    S = (if mvAuthorize v \<noteq> isManager s (mvCandidate v) then insert (mvManager v) (supporters s (mvCandidate v))
         else supporters s (mvCandidate v) - {mvManager v}) \<and>
    mapKeys (Managers s') =
      (if card S > card (mapKeys (Managers s)) div 2
       then if isManager s (mvCandidate v) then mapKeys (Managers s) - {mvCandidate v}
         else insert (mvCandidate v) (mapKeys (Managers s))
       else mapKeys (Managers s)) \<and>
    vVotes s' = vVotes s \<and> vTally s' = vTally s \<and> vsnValSet s' = vsnValSet s"
  using assms
proof (rule applyMVotes_inv)
  fix s3 s'
  assume res: "applyMVotes data s = Some s'" "mvote_inv s'" "mTally s' \<noteq> None" "Managers s' \<noteq> None"
    "vpart s' = vpart s" "Managers s3 = Managers s"
    and votes: "mVotes s3 = filter (\<lambda>w. mvKey w \<noteq> mvKey v) (mVotes s) @
       (if mvAuthorize v \<noteq> isManager s (mvCandidate v) then [v] else [])"
    and keys: "mapKeys (Managers s') =
      (if card (supporters s3 (mvCandidate v)) > card (mapKeys (Managers s)) div 2
       then if isManager s (mvCandidate v) then mapKeys (Managers s) - {mvCandidate v}
         else insert (mvCandidate v) (mapKeys (Managers s))
       else mapKeys (Managers s))"
  have "vVotes s' = vVotes s" "vTally s' = vTally s" "vsnValSet s' = vsnValSet s"
    using res(5) by (simp_all add: vpart_def)
  with res(1-4) keys show ?thesis
    unfolding supporters_recast [OF votes res(6)] by blast
qed

theorem managers_change_by_majority_witness:
  "\<exists>s'. applyMVotes exMData (resetVotes (newVoteSnapshot None [1])) = Some s' \<and> mapKeys (Managers s') = {9, 1}"
proof -
  let ?s = "resetVotes (newVoteSnapshot None [1])"
  have live: "liveM ?s c = []" for c by (simp add: liveM_def resetVotes_def)
  have keys: "mapKeys (Managers ?s) = {1}" by (simp add: resetVotes_def newVoteSnapshot_def mapKeys_def mapEntries_def)
  have "map_ok (Managers ?s)" by (simp add: resetVotes_def newVoteSnapshot_def map_ok_def mapEntries_def)
  then have inv: "mvote_inv ?s" by (simp add: mvote_inv_def live tallyRep_def) (simp add: resetVotes_def)
  have nn: "mTally ?s \<noteq> None" "Managers ?s \<noteq> None" by (simp_all add: resetVotes_def newVoteSnapshot_def)
  from managers_change_by_majority [OF inv nn, of exMData exMVote] show ?thesis
    by (auto simp: keys isManager_keys supporters_def live exMData_def exMVote_def)
qed

text \<open>\<open>validators\<close> returns the identifiers of the set in ascending order: its exchange sort is a
  sort.\<close>

lemma validators_sorted:
  "validatorIDs H s = map_option (\<lambda>vs. sort (ids vs)) (derefSet H (vsnValSet s))"
  by (cases "derefSet H (vsnValSet s)") (simp_all add: validatorIDs_def ids_def exchangeSort_sort)

text \<open>A vote snapshot made by \<open>newVoteSnapshot\<close> cannot take a vote: its tally maps are nil, so the
  first vote that passes the check, on a manager or on a validator, ends in a panic.\<close>

lemma new_snapshot_panics_on_vote:
  assumes "MVote data = Some mv \<and> checkMVote (newVoteSnapshot (Some r) ms) (mvCandidate mv) (mvAuthorize mv) \<or>
    VVote data = Some vv \<and> checkVVote H (newVoteSnapshot (Some r) ms) (vvValidator vv) (vvAuthorize vv) = Some True"
  shows "do { s \<leftarrow> applyMVotes data (newVoteSnapshot (Some r) ms); applyVVotes data s H } = None"
proof (cases "MVote data = Some mv \<and> checkMVote (newVoteSnapshot (Some r) ms) (mvCandidate mv) (mvAuthorize mv)")
  case True
  then have "applyMVotes data (newVoteSnapshot (Some r) ms) = None"
    by (simp add: applyMVotes_def retractM_def castM_def) (simp add: newVoteSnapshot_def)
  then show ?thesis by simp
next
  case False
  with assms have vv: "VVote data = Some vv"
    "checkVVote H (newVoteSnapshot (Some r) ms) (vvValidator vv) (vvAuthorize vv) = Some True" by auto
  have "applyVVotes data (newVoteSnapshot (Some r) ms) H = None"
    using vv by (simp add: applyVVotes_def retractV_def castV_def) (simp add: newVoteSnapshot_def)
  moreover have "applyMVotes data (newVoteSnapshot (Some r) ms) = None \<or>
      applyMVotes data (newVoteSnapshot (Some r) ms) = Some (newVoteSnapshot (Some r) ms)"
    using False
    by (cases "MVote data") (auto simp: applyMVotes_def retractM_def castM_def decideM_def tallyOf_def
        mapLen_def newVoteSnapshot_def)
  ultimately show ?thesis by auto
qed

lemma new_snapshot_panics_on_vote_example:
  "do { s \<leftarrow> applyMVotes exMData (newVoteSnapshot (Some 0) [1]); applyVVotes exMData s \<lparr>vsets = [], vnext = 0\<rparr> } = None"
  by (rule new_snapshot_panics_on_vote [where mv = exMVote])
     (simp add: exMData_def exMVote_def checkMVote_def newVoteSnapshot_def mapGet_def mapEntries_def)

text \<open>C39: a manager who votes a second time on the same validator brings the node down. The earlier
  vote is looked up in \<open>vVotes\<close> but cut out of \<open>mVotes\<close>; when that list is too short for the index,
  the slice expression panics.\<close>

theorem repeated_validator_vote_panics:
  assumes "VVote data = Some v" "w \<in> set (vVotes s)" "vvManager w = vvManager v" "vvValidator w = vvValidator v"
    "mVotes s = []"
  shows "applyVVotes data s H = None"
proof -
  obtain i x where "findFrom 0 (\<lambda>y. vvManager y = vvManager v \<and> vvValidator y = vvValidator v) (vVotes s) = Some (i, x)"
    using assms(2-4) findFrom_None [of 0 "\<lambda>y. vvManager y = vvManager v \<and> vvValidator y = vvValidator v" "vVotes s"]
    by fastforce
  then show ?thesis
    using assms(1,5) by (simp add: applyVVotes_def retractV_def uncastV_def sliceDelete_def split: prod.splits)
qed

theorem repeated_validator_vote_panics_witness:
  "\<exists>s H. applyVVotes exVData (resetVotes (newVoteSnapshot (Some 0) [1, 2, 3]))
       (snd (NewSet [''a'', ''b''] RoundRobin \<lparr>vsets = [], vnext = 0\<rparr>)) = Some (s, H) \<and> applyVVotes exVData s H = None"
proof -
  let ?H = "snd (NewSet [''a'', ''b''] RoundRobin \<lparr>vsets = [], vnext = 0\<rparr>)"
    and ?s = "resetVotes (newVoteSnapshot (Some 0) [1, 2, 3])"
  have "(case applyVVotes exVData ?s ?H of None \<Rightarrow> False | Some (s, H) \<Rightarrow> vVotes s = [exVVote] \<and> mVotes s = [])"
    by code_simp
  then obtain s H where sH: "applyVVotes exVData ?s ?H = Some (s, H)" "vVotes s = [exVVote]" "mVotes s = []"
    by (auto split: option.splits)
  have "applyVVotes exVData s H = None"
    by (rule repeated_validator_vote_panics [of _ exVVote exVVote]) (simp_all add: exVData_def sH)
  with sH(1) show ?thesis by blast
qed


text \<open>C38: \<open>getVotes\<close> hands out only votes that still matter. A vote it returns is one of the proposed
  ones, passes the check of the snapshot and has its deadline ahead; if it returns none, no
  proposed vote did. What it keeps is a tail of the proposed votes, headed by the one returned.\<close>

theorem votes_handed_out_are_live:
  assumes "getVotes height checkM checkV m = Some (mv, vv, m')"
  shows "(\<exists>gone. mCandidate m = gone @ mCandidate m' \<and>
      (\<forall>(a, w) \<in> set gone. checkM a (mvAuthorize w) = Some True \<longrightarrow>
         (\<exists>d. mvDeadlineHeight w = Some d \<and> big_Uint64 d \<le> height))) \<and>
    (case mv of None \<Rightarrow> mCandidate m' = []
     | Some w \<Rightarrow> \<exists>a d ms. mCandidate m' = (a, w) # ms \<and> checkM a (mvAuthorize w) = Some True \<and>
         mvDeadlineHeight w = Some d \<and> height < big_Uint64 d) \<and>
    (\<exists>gone. vCandidate m = gone @ vCandidate m' \<and>
      (\<forall>(x, w) \<in> set gone. checkV x (vvAuthorize w) = Some True \<longrightarrow>
         (\<exists>d. vvDeadlineHeight w = Some d \<and> big_Uint64 d \<le> height))) \<and>
    (case vv of None \<Rightarrow> vCandidate m' = []
     | Some w \<Rightarrow> \<exists>x d ms. vCandidate m' = (x, w) # ms \<and> checkV x (vvAuthorize w) = Some True \<and>
         vvDeadlineHeight w = Some d \<and> height < big_Uint64 d)"
proof -
  from assms obtain ms vs where
    "getVotes_loop checkM mvAuthorize mvDeadlineHeight height (mCandidate m) = Some (mv, ms)"
    "getVotes_loop checkV vvAuthorize vvDeadlineHeight height (vCandidate m) = Some (vv, vs)"
    "m' = m\<lparr>mCandidate := ms, vCandidate := vs\<rparr>"
    by (auto simp: getVotes_def elim!: bind_SomeE)
  then have ms: "mCandidate m' = ms" "vCandidate m' = vs"
    and res: "getVotes_loop checkM mvAuthorize mvDeadlineHeight height (mCandidate m) = Some (mv, ms)"
      "getVotes_loop checkV vvAuthorize vvDeadlineHeight height (vCandidate m) = Some (vv, vs)" by simp_all
  from getVotes_loop_result [OF res(1)] getVotes_loop_result [OF res(2)] show ?thesis
    unfolding ms by blast
qed

theorem votes_handed_out_are_live_witness:
  "\<exists>m'. getVotes 5 (\<lambda>a b. Some (a = 9)) (\<lambda>x b. Some False) (setMVote 9 exMVote (setMVote 4 exMVote newManager)) =
      Some (Some exMVote, None, m') \<and> mCandidate m' = [(9, exMVote)]"
proof -
  let ?m = "setMVote 9 exMVote (setMVote 4 exMVote newManager)"
  have "getVotes 5 (\<lambda>a b. Some (a = 9)) (\<lambda>x b. Some False) ?m =
      Some (Some exMVote, None, \<lparr>mCandidate = [(9, exMVote)], vCandidate = []\<rparr>)" by code_simp
  from votes_handed_out_are_live [OF this] this show ?thesis by simp
qed

end
