(* ===== verification/Pbft_Snapshot.thy ===== *)
theory Pbft_Snapshot
  imports Pbft_Votes Pbft_Example
begin

text \<open>
  Snapshots of the voting state at a block (src/snapshot.go), the consensus data of a header
  (\<open>ToConsensus\<close> and \<open>FromConsensus\<close> of src/types.go), and the parameters that stand for the
  third-party code behind them: headers and blocks of package \<open>models\<close>, the JSON and binary
  codecs, the key-value database and the node's key.

  The engine keeps pointers to snapshots in a cache and \<open>Apply\<close> changes the snapshot it is called
  on, so snapshots live in a store and are named by their addresses. The log is recorded as
  present or nil.
\<close>

section \<open>Headers and third-party code\<close>

record Consensus =
  csName :: string
  csConsensus :: bytes

text \<open>The fields of \<open>models.Header\<close> that the sources read or write; \<open>hRest\<close> stands for the others.\<close>

record Header =
  hHeight :: u64
  hParentHash :: Hash
  hTimestamp :: u64
  hConsensus :: "Consensus ptr"
  hSignature :: "SignResult ptr"
  hRest :: bytes

text \<open>A key-value database is the history of what was put into it.\<close>

type_synonym kv = "(bytes \<times> bytes) list"

text \<open>
  \<open>clLib\<close> are the functions the core uses too. Then: \<open>Header.Hash\<close> and \<open>HashNoSign\<close>; the codec at
  \<open>ConsensusData\<close> and at the signed part of a vote; JSON at the stored form of the votes and at the
  four members of a stored snapshot, the last being raw JSON or null; \<open>Get\<close> of the database and
  whether a \<open>Put\<close> fails; of the node's key \<open>RecoverId\<close> (its result as a string), \<open>RecoverPub\<close> and
  \<open>Sign\<close>; \<open>PubkeyToAddress\<close>; \<open>SignResult.Deserialize\<close>; the error of \<open>models.IDFromString\<close>; and
  of a block its header, its parent hash, whether \<open>reflect.DeepEqual\<close> takes its transactions and
  the root in a header for equal, \<open>WithSeal\<close> and \<open>NewBlock\<close>.
\<close>

record chainLib =
  clLib :: lib
  headerHash :: "Header \<Rightarrow> Hash"
  headerHashNoSign :: "Header \<Rightarrow> Hash"
  encodeConsensus :: "ConsensusData \<Rightarrow> bytes option"
  decodeConsensus :: "bytes \<Rightarrow> ConsensusData option"
  encodeProposeM :: "Address \<Rightarrow> bool \<Rightarrow> int ptr \<Rightarrow> bytes option"
  encodeProposeV :: "string \<Rightarrow> bool \<Rightarrow> int ptr \<Rightarrow> bytes option"
  marshalExt :: "extVoteSnapshot \<Rightarrow> bytes option"
  unmarshalExt :: "bytes \<Rightarrow> extVoteSnapshot option"
  marshalSnap :: "u64 \<times> u64 \<times> Hash \<times> bytes ptr \<Rightarrow> bytes option"
  unmarshalSnap :: "bytes \<Rightarrow> (u64 \<times> u64 \<times> Hash \<times> bytes ptr) option"
  kvGet :: "kv \<Rightarrow> bytes \<Rightarrow> bytes option"
  kvPutFails :: "kv \<Rightarrow> bytes \<Rightarrow> bytes \<Rightarrow> bool"
  RecoverId :: "bytes \<Rightarrow> SignResult ptr \<Rightarrow> err + string"
  RecoverPub :: "bytes \<Rightarrow> SignResult ptr \<Rightarrow> err + bytes"
  keySign :: "bytes \<Rightarrow> err + SignResult ptr"
  PubkeyToAddress :: "bytes \<Rightarrow> err + Address"
  parseSign :: "bytes \<Rightarrow> SignResult option"
  IDFromStringErr :: "string \<Rightarrow> err option"
  blkHeader :: "Proposal \<Rightarrow> Header"
  blkParentHash :: "Proposal \<Rightarrow> Hash"
  blkTxsDeepEqual :: "Proposal \<Rightarrow> Header \<Rightarrow> bool"
  blkWithSeal :: "Proposal \<Rightarrow> Header \<Rightarrow> Proposal"
  NewBlock :: "Header \<Rightarrow> bytes \<Rightarrow> Proposal"

section \<open>Consensus data of a header\<close>

text \<open>\<open>strings.EqualFold(_, "pbft")\<close>: only ASCII letters fold to these four.\<close>

definition toLower :: "char \<Rightarrow> char" where
  "toLower c = (if CHR ''A'' \<le> c \<and> c \<le> CHR ''Z'' then char_of (of_char c + 32 :: nat) else c)"

definition EqualFold :: "string \<Rightarrow> string \<Rightarrow> bool" where
  "EqualFold s t \<longleftrightarrow> map toLower s = map toLower t"

definition ToConsensus :: "chainLib \<Rightarrow> ConsensusData \<Rightarrow> err + Consensus" where
  "ToConsensus L c =
     (case encodeConsensus L c of
        None \<Rightarrow> Inl (ErrLib ''encode'')
      | Some payload \<Rightarrow> Inr \<lparr>csName = ''pbft'', csConsensus = payload\<rparr>)"

definition FromConsensus :: "chainLib \<Rightarrow> Consensus ptr \<Rightarrow> err + ConsensusData" where
  "FromConsensus L consensus =
     (case consensus of
        None \<Rightarrow> Inl errInvalidConsensusData
      | Some c \<Rightarrow>
          if \<not> EqualFold (csName c) ''pbft'' then Inl errInvalidConsensusData
          else if length (csConsensus c) = 0 then Inl errInvalidConsensusData
          else (case decodeConsensus L (csConsensus c) of
                  None \<Rightarrow> Inl (ErrLib ''decode'')
                | Some d \<Rightarrow> Inr d))"

section \<open>Snapshots\<close>

record Snapshot =
  snLog :: bool
  snEpoch :: u64
  snHeight :: u64
  snHash :: Hash
  snVotes :: "voteSnapshot ptr"
  snValSet :: "nat ptr"

record store =
  sets :: vheap
  snaps :: "Snapshot list"

definition getSnap :: "store \<Rightarrow> nat \<Rightarrow> Snapshot go" where
  "getSnap st r = (if r < length (snaps st) then ret (snaps st ! r) else panic)"

definition allocSnap :: "Snapshot \<Rightarrow> store \<Rightarrow> nat \<times> store" where
  "allocSnap s st = (length (snaps st), st\<lparr>snaps := snaps st @ [s]\<rparr>)"

definition newSnapshot :: "u64 \<Rightarrow> u64 \<Rightarrow> Hash \<Rightarrow> nat \<Rightarrow> Address list \<Rightarrow> Snapshot" where
  "newSnapshot epoch height hash vset managers =
     \<lparr>snLog = True, snEpoch = epoch, snHeight = height, snHash = hash,
      snVotes = Some (newVoteSnapshot (Some vset) managers), snValSet = Some vset\<rparr>"

definition dbKeySnapshotPrefix :: bytes where
  "dbKeySnapshotPrefix = [112, 98, 102, 116, 45, 115, 110, 97, 112, 115, 104, 111, 116]"

definition snapKey :: "chainLib \<Rightarrow> Hash \<Rightarrow> bytes" where
  "snapKey L hash = dbKeySnapshotPrefix @ hashBytes (clLib L) hash"

text \<open>\<open>MarshalJSON\<close>: a nil vote snapshot is written as null.\<close>

definition marshalSnapshot :: "chainLib \<Rightarrow> vheap \<Rightarrow> Snapshot \<Rightarrow> (err + bytes) go" where
  "marshalSnapshot L H s = do {
     votes \<leftarrow> (case snVotes s of
                None \<Rightarrow> ret (Inr None)
              | Some v \<Rightarrow> map_option (\<lambda>res. case res of Inl e \<Rightarrow> Inl e | Inr b \<Rightarrow> Inr (Some b))
                            (marshalVotes (marshalExt L) H v));
     ret (case votes of
            Inl e \<Rightarrow> Inl e
          | Inr raw \<Rightarrow>
              (case marshalSnap L (snEpoch s, snHeight s, snHash s, raw) of
                 None \<Rightarrow> Inl (ErrLib ''json'')
               | Some b \<Rightarrow> Inr b))
   }"

text \<open>\<open>UnmarshalJSON\<close> into \<open>new(Snapshot)\<close>: the log and \<open>ValSet\<close> stay nil.\<close>

definition unmarshalSnapshot :: "chainLib \<Rightarrow> bytes \<Rightarrow> vheap \<Rightarrow> err + (Snapshot \<times> vheap)" where
  "unmarshalSnapshot L b H =
     (case unmarshalSnap L b of
        None \<Rightarrow> Inl (ErrLib ''json'')
      | Some (epoch, height, hash, raw) \<Rightarrow>
          (case raw of
             None \<Rightarrow> Inr (\<lparr>snLog = False, snEpoch = epoch, snHeight = height, snHash = hash,
                           snVotes = None, snValSet = None\<rparr>, H)
           | Some j \<Rightarrow>
               (case unmarshalVotes (unmarshalExt L) j H of
                  Inl e \<Rightarrow> Inl e
                | Inr (v, H) \<Rightarrow> Inr (\<lparr>snLog = False, snEpoch = epoch, snHeight = height, snHash = hash,
                                     snVotes = Some v, snValSet = None\<rparr>, H))))"

definition loadSnapshot :: "chainLib \<Rightarrow> u64 \<Rightarrow> kv \<Rightarrow> Hash \<Rightarrow> store \<Rightarrow> (err + nat) \<times> store" where
  "loadSnapshot L epoch db hash st =
     (case kvGet L db (snapKey L hash) of
        None \<Rightarrow> (Inl (ErrLib ''get''), st)
      | Some blob \<Rightarrow>
          (case unmarshalSnapshot L blob (sets st) of
             Inl e \<Rightarrow> (Inl e, st)
           | Inr (snap, H) \<Rightarrow>
               (let (r, st) = allocSnap (snap\<lparr>snEpoch := epoch\<rparr>) (st\<lparr>sets := H\<rparr>) in (Inr r, st))))"

text \<open>\<open>Store\<close> logs before it writes: a nil log panics.\<close>

definition StoreSnap :: "chainLib \<Rightarrow> vheap \<Rightarrow> Snapshot \<Rightarrow> kv \<Rightarrow> (err option \<times> kv) go" where
  "StoreSnap L H s db = do {
     res \<leftarrow> marshalSnapshot L H s;
     (case res of
        Inl e \<Rightarrow> ret (Some e, db)
      | Inr blob \<Rightarrow>
          if \<not> snLog s then panic
          else if kvPutFails L db (snapKey L (snHash s)) blob then ret (Some (ErrLib ''put''), db)
          else ret (None, db @ [(snapKey L (snHash s), blob)]))
   }"

definition snapCheckMVote :: "Snapshot \<Rightarrow> Address \<Rightarrow> bool \<Rightarrow> bool go" where
  "snapCheckMVote s address authorize = do { v \<leftarrow> snVotes s; ret (checkMVote v address authorize) }"

definition snapCheckVVote :: "vheap \<Rightarrow> Snapshot \<Rightarrow> string \<Rightarrow> bool \<Rightarrow> bool go" where
  "snapCheckVVote H s x authorize = do { v \<leftarrow> snVotes s; checkVVote H v x authorize }"

text \<open>\<open>copy\<close> shares \<open>ValSet\<close>; only the vote snapshot gets a copy of its own.\<close>

definition copySnap :: "Snapshot \<Rightarrow> vheap \<Rightarrow> (Snapshot \<times> vheap) go" where
  "copySnap s H = do {
     v \<leftarrow> snVotes s;
     (v, H) \<leftarrow> copyVotes v H;
     ret (s\<lparr>snVotes := Some v\<rparr>, H)
   }"

section \<open>Apply\<close>

fun consecutive :: "Header list \<Rightarrow> bool" where
  "consecutive (h # h' # hs) \<longleftrightarrow> hHeight h' = hHeight h + 1 \<and> consecutive (h' # hs)"
| "consecutive _ \<longleftrightarrow> True"

text \<open>The loop over the headers changes the receiver \<open>s\<close> (its epoch and its votes) and the copy
  \<open>snap\<close> (whose votes it resets): it returns both.\<close>

fun Apply_loop ::
  "chainLib \<Rightarrow> Header list \<Rightarrow> Snapshot \<Rightarrow> Snapshot \<Rightarrow> vheap \<Rightarrow>
   (err option \<times> Snapshot \<times> Snapshot \<times> vheap) go" where
  "Apply_loop L [] s snap H = ret (None, s, snap, H)"
| "Apply_loop L (header # hs) s snap H = do {
     let s = (if snEpoch s = 0 then s\<lparr>snEpoch := 1\<rparr> else s);
     snap \<leftarrow> (if hHeight header mod snEpoch s = 0
              then do { v \<leftarrow> snVotes snap; ret (snap\<lparr>snVotes := Some (resetVotes v)\<rparr>) }
              else ret snap);
     (case FromConsensus L (hConsensus header) of
        Inl e \<Rightarrow> ret (Some e, s, snap, H)
      | Inr data \<Rightarrow> do {
          v \<leftarrow> snVotes s;
          v \<leftarrow> applyMVotes data v;
          (v, H) \<leftarrow> applyVVotes data v H;
          Apply_loop L hs (s\<lparr>snVotes := Some v\<rparr>) snap H
        })
   }"

definition Apply :: "chainLib \<Rightarrow> Header list \<Rightarrow> nat \<Rightarrow> store \<Rightarrow> ((err + nat) \<times> store) go" where
  "Apply L headers r st =
     (if headers = [] then ret (Inr r, st)
      else if \<not> consecutive headers then ret (Inl errInvalidVotingChain, st)
      else do {
        s \<leftarrow> getSnap st r;
        if hHeight (hd headers) \<noteq> snHeight s + 1 then ret (Inl errInvalidVotingChain, st)
        else do {
          (snap, H) \<leftarrow> copySnap s (sets st);
          (e, s, snap, H) \<leftarrow> Apply_loop L headers s snap H;
          let st = st\<lparr>sets := H, snaps := (snaps st)[r := s]\<rparr>;
          (case e of
             Some x \<Rightarrow> ret (Inl x, st)
           | None \<Rightarrow>
               (let snap = snap\<lparr>snHeight := snHeight snap + of_nat (length headers),
                                snHash := headerHash L (last headers)\<rparr>;
                    (r', st) = allocSnap snap st
                in ret (Inr r', st)))
        }
      })"


text \<open>Documented behaviour of the third-party code: a decoder returns what was encoded, and an
  encoding is not empty; a \<open>Get\<close> returns what was last put under the key.\<close>

definition consensus_codec_ok :: "chainLib \<Rightarrow> bool" where
  "consensus_codec_ok L \<longleftrightarrow>
     (\<forall>c b. encodeConsensus L c = Some b \<longrightarrow> b \<noteq> [] \<and> decodeConsensus L b = Some c)"

lemma consensus_decodes:
  assumes "consensus_codec_ok L" "ToConsensus L c = Inr k"
  shows "FromConsensus L (Some k) = Inr c"
  using assms by (auto simp: consensus_codec_ok_def ToConsensus_def FromConsensus_def EqualFold_def split: option.splits)

definition snap_codec_ok :: "chainLib \<Rightarrow> bool" where
  "snap_codec_ok L \<longleftrightarrow> json_ok (marshalExt L) (unmarshalExt L) \<and>
     (\<forall>e h x raw b. marshalSnap L (e, h, x, raw) = Some b \<longrightarrow>
        (\<exists>raw'. unmarshalSnap L b = Some (e, h, x, raw') \<and> (raw = None \<longleftrightarrow> raw' = None) \<and>
           (\<forall>j j'. raw = Some j \<longrightarrow> raw' = Some j' \<longrightarrow> unmarshalExt L j' = unmarshalExt L j)))"

lemma snap_codecD:
  assumes "snap_codec_ok L" "marshalSnap L (e, h, x, raw) = Some b"
  shows "\<exists>raw'. unmarshalSnap L b = Some (e, h, x, raw') \<and> (raw = None \<longleftrightarrow> raw' = None) \<and>
    (\<forall>j j'. raw = Some j \<longrightarrow> raw' = Some j' \<longrightarrow> unmarshalExt L j' = unmarshalExt L j)"
  using assms unfolding snap_codec_ok_def by blast

definition kv_ok :: "chainLib \<Rightarrow> bool" where
  "kv_ok L \<longleftrightarrow> (\<forall>db k v. kvGet L (db @ [(k, v)]) k = Some v)"

section \<open>What Apply does\<close>

text \<open>The copy keeps its votes, or has them reset; its other fields are those of the receiver at
  the start.\<close>

definition resets_to :: "voteSnapshot \<Rightarrow> voteSnapshot \<Rightarrow> bool" where
  "resets_to v v' \<longleftrightarrow> v' = v \<or> v' = resetVotes v"

lemma resets_to_trans: "resets_to u v \<Longrightarrow> resets_to v w \<Longrightarrow> resets_to u w"
  by (auto simp: resets_to_def resetVotes_def)

lemma Apply_loop_result:
  assumes "Apply_loop L hs s snap H = Some (e, s', snap', H')" "snVotes snap = Some v"
  shows "\<exists>v'. snap' = snap\<lparr>snVotes := Some v'\<rparr> \<and> resets_to v v' \<and>
    snLog s' = snLog s \<and> snHeight s' = snHeight s \<and> snHash s' = snHash s \<and> snValSet s' = snValSet s \<and>
    snEpoch s' = (if snEpoch s = 0 \<and> hs \<noteq> [] then 1 else snEpoch s)"
  using assms
proof (induction L hs s snap H arbitrary: v rule: Apply_loop.induct)
  case (1 L s snap H)
  then show ?case by (auto simp: resets_to_def intro!: exI [of _ v])
next
  case (2 L h hs s snap H)
  define s1 where "s1 = (if snEpoch s = 0 then s\<lparr>snEpoch := 1\<rparr> else s)"
  let ?w = "if hHeight h mod snEpoch s1 = 0 then resetVotes v else v"
  have w: "(if hHeight h mod snEpoch s1 = 0 then do { v \<leftarrow> snVotes snap; ret (snap\<lparr>snVotes := Some (resetVotes v)\<rparr>) }
      else ret snap) = Some (snap\<lparr>snVotes := Some ?w\<rparr>)"
    using 2(3) by (cases snap) simp
  have fr: "snLog s1 = snLog s" "snHeight s1 = snHeight s" "snHash s1 = snHash s" "snValSet s1 = snValSet s"
    "snEpoch s1 = (if snEpoch s = 0 \<and> h # hs \<noteq> [] then 1 else snEpoch s)" "snEpoch s1 \<noteq> 0" by (simp_all add: s1_def)
  have rw: "resets_to v ?w" by (simp add: resets_to_def)
  show ?case
  proof (cases "FromConsensus L (hConsensus h)")
    case (Inl x)
    with 2(2) w have eq: "snap' = snap\<lparr>snVotes := Some ?w\<rparr>" "s' = s1"
      by (auto simp: s1_def [symmetric] Let_def split: if_splits)
    then show ?thesis unfolding eq(2) using rw fr by blast
  next
    case (Inr data)
    with 2(2) w obtain u u1 u2 H1 where u: "snVotes s1 = Some u" "applyMVotes data u = Some u1"
      "applyVVotes data u1 H = Some (u2, H1)"
      and rest: "Apply_loop L hs (s1\<lparr>snVotes := Some u2\<rparr>) (snap\<lparr>snVotes := Some ?w\<rparr>) H1 = Some (e, s', snap', H')"
      by (fastforce simp: s1_def [symmetric] Let_def elim!: bind_SomeE split: if_splits)
    from 2(1) [OF s1_def w Inr u(1,2,3) refl rest, of ?w] obtain v' where
      res: "snap' = snap\<lparr>snVotes := Some v'\<rparr>" "resets_to ?w v'" "snLog s' = snLog s1" "snHeight s' = snHeight s1"
      "snHash s' = snHash s1" "snValSet s' = snValSet s1" "snEpoch s' = snEpoch s1"
      using fr(6) by auto
    from res(1) resets_to_trans [OF rw res(2)] res(3-7) [unfolded fr] show ?thesis by blast
  qed
qed

lemma consecutive_last:
  "consecutive hs \<Longrightarrow> hs \<noteq> [] \<Longrightarrow> hHeight (last hs) = hHeight (hd hs) + of_nat (length hs - 1)"
  by (induction hs rule: consecutive.induct) (auto simp: algebra_simps)

lemma Apply_cases:
  assumes "Apply L hs r st = Some (Inr r', st')" "hs \<noteq> []"
  obtains s s1 snap v v' w H H' where "getSnap st r = Some s" "consecutive hs" "hHeight (hd hs) = snHeight s + 1"
    "snVotes s = Some v" "copyVotes v (sets st) = Some (v', H)"
    "Apply_loop L hs s (s\<lparr>snVotes := Some v'\<rparr>) H = Some (None, s1, s\<lparr>snVotes := Some w\<rparr>, H')" "resets_to v' w"
    "snap = s\<lparr>snVotes := Some w, snHeight := hHeight (last hs), snHash := headerHash L (last hs)\<rparr>"
    "r' = length (snaps st)" "st' = \<lparr>sets = H', snaps = (snaps st)[r := s1] @ [snap]\<rparr>"
proof -
  from assms obtain s v v' H where s: "getSnap st r = Some s" "consecutive hs" "hHeight (hd hs) = snHeight s + 1"
    "snVotes s = Some v" "copyVotes v (sets st) = Some (v', H)"
    by (auto simp: Apply_def copySnap_def elim!: bind_SomeE split: if_splits)
  with assms obtain s1 snap1 H' where loop: "Apply_loop L hs s (s\<lparr>snVotes := Some v'\<rparr>) H = Some (None, s1, snap1, H')"
    and r': "r' = length (snaps st)" and st': "st' = \<lparr>sets = H', snaps = (snaps st)[r := s1] @
       [snap1\<lparr>snHeight := snHeight snap1 + of_nat (length hs), snHash := headerHash L (last hs)\<rparr>]\<rparr>"
    by (cases st) (auto simp: Apply_def copySnap_def allocSnap_def Let_def elim!: bind_SomeE
        split: if_splits option.splits)
  from Apply_loop_result [OF loop, of v'] obtain w where w: "snap1 = s\<lparr>snVotes := Some w\<rparr>" "resets_to v' w" by auto
  have len: "of_nat (length hs) = (1 :: u64) + of_nat (length hs - 1)" using assms(2) by (cases hs) simp_all
  have "snHeight snap1 + of_nat (length hs) = hHeight (last hs)"
    using consecutive_last [OF s(2) assms(2)] s(3) w(1) by (simp add: len algebra_simps)
  with st' w(1) have st2: "st' = \<lparr>sets = H', snaps = (snaps st)[r := s1] @
      [s\<lparr>snVotes := Some w, snHeight := hHeight (last hs), snHash := headerHash L (last hs)\<rparr>]\<rparr>" by simp
  show thesis by (rule that [OF s loop [unfolded w(1)] w(2) refl r' st2])
qed


section \<open>A concrete chain\<close>

text \<open>An instance of the parameters for the witnesses: the hash of a header is its height plus 100,
  consensus data are up to their seals encoded as bytes, a signature of one byte names the
  validator with that letter.\<close>

definition plainData :: "byte list \<Rightarrow> ConsensusData" where
  "plainData xs = \<lparr>cdCommittedSeal = map (\<lambda>x. Some [x]) xs, cdManagers = [], cdValidators = [], MVote = None,
     VVote = None\<rparr>"

definition ex_encodeConsensus :: "ConsensusData \<Rightarrow> bytes option" where
  "ex_encodeConsensus c =
     (if c = exMData then Some [2]
      else let xs = map (\<lambda>s. case s of Some (x # _) \<Rightarrow> x | _ \<Rightarrow> 0) (cdCommittedSeal c)
           in if c = plainData xs then Some (1 # xs) else None)"

definition ex_decodeConsensus :: "bytes \<Rightarrow> ConsensusData option" where
  "ex_decodeConsensus b =
     (case b of [] \<Rightarrow> None | x # xs \<Rightarrow> if x = 1 then Some (plainData xs) else if b = [2] then Some exMData else None)"

definition ex_marshalExt :: "extVoteSnapshot \<Rightarrow> bytes option" where
  "ex_marshalExt j =
     (if j\<lparr>exMTally := None, exVTally := None\<rparr> = exExt \<and> mapEntries (exMTally j) = [] \<and> mapEntries (exVTally j) = []
      then Some [1] else None)"

definition ex_marshalSnap :: "u64 \<times> u64 \<times> Hash \<times> bytes ptr \<Rightarrow> bytes option" where
  "ex_marshalSnap = (\<lambda>(e, h, x, raw).
     if small (uint e) \<and> small (uint h) \<and> small (uint x)
     then Some (ucast e # ucast h # ucast x # (case raw of None \<Rightarrow> [0] | Some j \<Rightarrow> 1 # j)) else None)"

definition ex_unmarshalSnap :: "bytes \<Rightarrow> (u64 \<times> u64 \<times> Hash \<times> bytes ptr) option" where
  "ex_unmarshalSnap b =
     (case b of e # h # x # f # j \<Rightarrow> Some (ucast e, ucast h, ucast x, if f = 0 then None else Some j) | _ \<Rightarrow> None)"

definition exHeader :: "u64 \<Rightarrow> byte list \<Rightarrow> Header" where
  "exHeader h seals = \<lparr>hHeight = h, hParentHash = ucast (h - 1) + 100, hTimestamp = 2000 * h,
     hConsensus = Some \<lparr>csName = ''PBFT'', csConsensus = 1 # seals\<rparr>, hSignature = Some [97], hRest = []\<rparr>"

definition exChain :: chainLib where
  "exChain = \<lparr>clLib = exLib, headerHash = (\<lambda>h. ucast (hHeight h) + 100), headerHashNoSign = (\<lambda>h. ucast (hHeight h) + 50),
     encodeConsensus = ex_encodeConsensus, decodeConsensus = ex_decodeConsensus,
     encodeProposeM = (\<lambda>a b d. Some [1]), encodeProposeV = (\<lambda>x b d. Some [2]),
     marshalExt = ex_marshalExt, unmarshalExt = (\<lambda>b. Some exExt),
     marshalSnap = ex_marshalSnap, unmarshalSnap = ex_unmarshalSnap,
     kvGet = (\<lambda>db k. map_of (rev db) k), kvPutFails = (\<lambda>db k v. False),
     RecoverId = (\<lambda>b s. case s of Some [x] \<Rightarrow> Inr [char_of (unat x)] | _ \<Rightarrow> Inl errInvalidSignature),
     RecoverPub = (\<lambda>b s. case s of Some x \<Rightarrow> Inr x | None \<Rightarrow> Inl errInvalidSignature),
     keySign = (\<lambda>b. Inr (Some [97])), PubkeyToAddress = (\<lambda>b. case b of [x] \<Rightarrow> Inr (ucast x) | _ \<Rightarrow> Inl errInvalidSignature),
     parseSign = (\<lambda>b. Some b), IDFromStringErr = (\<lambda>x. None),
     blkHeader = (\<lambda>p. exHeader (Height p) (Block p)), blkParentHash = (\<lambda>p. ucast (Height p - 1) + 100),
     blkTxsDeepEqual = (\<lambda>p h. True),
     blkWithSeal = (\<lambda>p h. p\<lparr>Block := (case hConsensus h of Some c \<Rightarrow> tl (csConsensus c) | None \<Rightarrow> [])\<rparr>),
     NewBlock = (\<lambda>h txs. exBlock (hHeight h))\<rparr>"

lemma mapGet_empty: "mapEntries m = [] \<Longrightarrow> mapGet m = mapGet None"
  by (simp add: fun_eq_iff mapGet_def mapEntries_def split: option.splits)

lemma exChain_codec: "consensus_codec_ok exChain"
proof -
  have "b \<noteq> [] \<and> ex_decodeConsensus b = Some c" if "ex_encodeConsensus c = Some b" for c b
    using that by (auto simp: ex_encodeConsensus_def ex_decodeConsensus_def Let_def split: if_splits)
  then show ?thesis by (simp add: consensus_codec_ok_def exChain_def)
qed

lemma exChain_json: "snap_codec_ok exChain"
proof -
  have "ext_same j exExt" if "ex_marshalExt j = Some b" for j b
  proof -
    from that have "j\<lparr>exMTally := None, exVTally := None\<rparr> = exExt" "mapEntries (exMTally j) = []" "mapEntries (exVTally j) = []"
      by (auto simp: ex_marshalExt_def split: if_splits)
    then show ?thesis by (cases j) (simp add: ext_same_def exExt_def mapGet_empty)
  qed
  then have "json_ok (marshalExt exChain) (unmarshalExt exChain)" by (simp add: json_ok_def exChain_def)
  moreover have "\<exists>raw'. ex_unmarshalSnap b = Some (e, h, x, raw') \<and> raw' = raw"
    if "ex_marshalSnap (e, h, x, raw) = Some b" for e h x raw b
    using that by (auto simp: ex_marshalSnap_def ex_unmarshalSnap_def small_ucast split: if_splits option.splits)
  ultimately show ?thesis by (fastforce simp: snap_codec_ok_def exChain_def)
qed

lemma exChain_kv: "kv_ok exChain"
  by (simp add: kv_ok_def exChain_def)

definition exStore :: store where
  "exStore = \<lparr>sets = exHeap, snaps = [newSnapshot 5 0 100 0 [1]]\<rparr>"


section \<open>Properties\<close>

text \<open>Consensus data survive the header. What \<open>FromConsensus\<close> reads from what \<open>ToConsensus\<close> made
  is the data that went in.\<close>

lemma consensus_data_round_trip:
  assumes "consensus_codec_ok L" "ToConsensus L c = Inr k"
  shows "FromConsensus L (Some k) = Inr c"
  by (rule consensus_decodes [OF assms])

lemma consensus_data_round_trip_example:
  "FromConsensus exChain (Some \<lparr>csName = ''pbft'', csConsensus = [1, 97, 98]\<rparr>) = Inr (plainData [97, 98])"
proof -
  have "ToConsensus exChain (plainData [97, 98]) = Inr \<lparr>csName = ''pbft'', csConsensus = [1, 97, 98]\<rparr>" by code_simp
  from consensus_data_round_trip [OF exChain_codec this] show ?thesis .
qed





text \<open>C21: what \<open>Store\<close> wrote, \<open>loadSnapshot\<close> reads back with the same height, hash, managers, votes,
  tallies and validators, but the snapshot it returns has neither a log nor a validator set of
  its own: its \<open>ValSet\<close> is nil.\<close>

theorem snapshot_store_load:
  assumes "snap_codec_ok L" "kv_ok L" "StoreSnap L (sets st) s db = Some (None, db')" "snVotes s = Some v"
  shows "\<exists>r st' s' v' vs vs'. loadSnapshot L epoch db' (snHash s) st = (Inr r, st') \<and> getSnap st' r = Some s' \<and>
    snHeight s' = snHeight s \<and> snHash s' = snHash s \<and> snEpoch s' = epoch \<and> snVotes s' = Some v' \<and>
    snValSet s' = None \<and> \<not> snLog s' \<and>
    mapGet (Managers v') = mapGet (Managers v) \<and> mapGet (mTally v') = mapGet (mTally v) \<and>
    mapGet (vTally v') = mapGet (vTally v) \<and> mVotes v' = mVotes v \<and> vVotes v' = vVotes v \<and>
    derefSet (sets st) (vsnValSet v) = Some vs \<and> derefSet (sets st') (vsnValSet v') = Some vs' \<and>
    ids vs' = sort (ids vs) \<and> policy vs' = policy vs"
proof -
  from assms(3,4) obtain raw blob where raw: "marshalVotes (marshalExt L) (sets st) v = Some (Inr raw)"
    and blob: "marshalSnap L (snEpoch s, snHeight s, snHash s, Some raw) = Some blob"
    and db': "db' = db @ [(snapKey L (snHash s), blob)]"
    by (auto simp: StoreSnap_def marshalSnapshot_def elim!: bind_SomeE split: sum.splits option.splits if_splits)
  from snap_codecD [OF assms(1) blob] obtain raw' where
    dec: "unmarshalSnap L blob = Some (snEpoch s, snHeight s, snHash s, Some raw')"
    and same: "unmarshalExt L raw' = unmarshalExt L raw" by auto
  from assms(1) have "json_ok (marshalExt L) (unmarshalExt L)" by (simp add: snap_codec_ok_def)
  from votes_json_round_trip [OF this raw] obtain v' H' vs vs' where
    un: "unmarshalVotes (unmarshalExt L) raw (sets st) = Inr (v', H')" and
    eqs: "derefSet (sets st) (vsnValSet v) = Some vs" "derefSet H' (vsnValSet v') = Some vs'"
    "ids vs' = sort (ids vs)" "policy vs' = policy vs"
    "mapGet (Managers v') = mapGet (Managers v)" "mapGet (mTally v') = mapGet (mTally v)"
    "mapGet (vTally v') = mapGet (vTally v)" "mVotes v' = mVotes v" "vVotes v' = vVotes v" by blast
  from un same have un': "unmarshalVotes (unmarshalExt L) raw' (sets st) = Inr (v', H')"
    by (simp add: unmarshalVotes_def)
  let ?s = "\<lparr>snLog = False, snEpoch = epoch, snHeight = snHeight s, snHash = snHash s, snVotes = Some v', snValSet = None\<rparr>"
  let ?st = "st\<lparr>sets := H', snaps := snaps st @ [?s]\<rparr>"
  have "kvGet L db' (snapKey L (snHash s)) = Some blob" using assms(2) by (simp add: kv_ok_def db')
  then have load: "loadSnapshot L epoch db' (snHash s) st = (Inr (length (snaps st)), ?st)"
    by (simp add: loadSnapshot_def unmarshalSnapshot_def dec un' allocSnap_def)
  have get: "getSnap ?st (length (snaps st)) = Some ?s" by (simp add: getSnap_def)
  show ?thesis
    by (rule exI [of _ "length (snaps st)"], rule exI [of _ ?st], rule exI [of _ ?s], rule exI [of _ v'],
        rule exI [of _ vs], rule exI [of _ vs']) (simp add: load get eqs)
qed

theorem snapshot_store_load_witness:
  "\<exists>db r st' s'. StoreSnap exChain exHeap (newSnapshot 5 0 100 0 [1]) [] = Some (None, db) \<and>
     loadSnapshot exChain 7 db 100 exStore = (Inr r, st') \<and> getSnap st' r = Some s' \<and> snHeight s' = 0 \<and>
     snEpoch s' = 7 \<and> snValSet s' = None"
proof -
  let ?s = "newSnapshot 5 0 100 0 [1]"
  have "map_option fst (StoreSnap exChain exHeap ?s []) = Some None" by code_simp
  then obtain db where "StoreSnap exChain exHeap ?s [] = Some (None, db)" by auto
  then have db: "StoreSnap exChain (sets exStore) ?s [] = Some (None, db)" by (simp add: exStore_def)
  have s: "snVotes ?s = Some (newVoteSnapshot (Some 0) [1])" "snHash ?s = 100" "snHeight ?s = 0"
    by (simp_all add: newSnapshot_def)
  from snapshot_store_load [OF exChain_json exChain_kv db s(1), of 7] db show ?thesis
    unfolding s by (auto simp: exStore_def)
qed

end
