(* ===== verification/Pbft_Engine.thy ===== *)
theory Pbft_Engine
  imports Pbft_Snapshot
begin

text \<open>
  The engine around the core (src/engine.go, src/pbft.go, src/api.go, src/options.go): header
  verification, the search for a snapshot, sealing and committing a block, the backend functions
  the core calls, and the RPC interface through which managers vote.

  \<open>blockReader\<close> and the clock are parameters of a call. \<open>snapshot\<close> and \<open>verifyHeader\<close> call each
  other: the first takes the second as an argument, and \<open>verifyHeader\<close> has a bound on the depth
  of the recursion; running into it counts as a crash, as running out of stack does. A reader
  that returns the block it is asked for needs depth two.
\<close>

section \<open>State\<close>

record PBFTConfig =
  cfgEpoch :: u64
  cfgRequestTimeout :: u64
  cfgBlockPeriod :: u64
  cfgProposerPolicy :: ProposerPolicy
  cfgManagers :: "Address list"
  cfgValidators :: "string list"

text \<open>An \<open>lru.ARCCache\<close>: the operations so far, which decide whether it still holds a key, and
  the values stored.\<close>

record ('k, 'v) arc =
  arcOps :: "'k cache"
  arcVals :: "('k \<times> 'v) list"

definition newARC :: "('k, 'v) arc" where
  "newARC = \<lparr>arcOps = [], arcVals = []\<rparr>"

definition arcGet :: "('k cache \<Rightarrow> 'k \<Rightarrow> bool) \<Rightarrow> 'k \<Rightarrow> ('k, 'v) arc \<Rightarrow> 'v option \<times> ('k, 'v) arc" where
  "arcGet hit k c =
     (if hit (arcOps c) k then map_of (arcVals c) k else None, c\<lparr>arcOps := arcOps c @ [CGet k]\<rparr>)"

definition arcAdd :: "'k \<Rightarrow> 'v \<Rightarrow> ('k, 'v) arc \<Rightarrow> ('k, 'v) arc" where
  "arcAdd k v c = c\<lparr>arcOps := arcOps c @ [CAdd k], arcVals := AList.update k v (arcVals c)\<rparr>"

record pbftEngine =
  nodeId :: string
  selfConfig :: PBFTConfig
  genesisHeight :: u64
  theStore :: store
  theDb :: kv
  commitCh :: "Proposal list"
  proposedBlockHash :: Hash
  voteManager :: manager
  recentSnapshotCache :: "(Hash, nat) arc"
  recentValidatorCache :: "(Hash, string) arc"

text \<open>\<open>protocol.BlockReader\<close> at the time of a call, and \<open>dateutil.CurrentTime\<close>.\<close>

record reader =
  GetHeader :: "Hash \<Rightarrow> u64 \<Rightarrow> Header ptr"
  GetHeaderByNumber :: "u64 \<Rightarrow> Header ptr"
  CurrentBlock :: "Proposal ptr"
  CurrentTime :: i64

abbreviation (input) memoryValidatorLen :: nat where
  "memoryValidatorLen \<equiv> 20"

abbreviation (input) memorySnapshotsLen :: nat where
  "memorySnapshotsLen \<equiv> 128"

abbreviation (input) checkpointInterval :: u64 where
  "checkpointInterval \<equiv> 1024"

abbreviation (input) faultTolerantTime :: i64 where
  "faultTolerantTime \<equiv> 5000"

section \<open>Recovering signers\<close>

definition GetSignatureValidator :: "chainLib \<Rightarrow> bytes \<Rightarrow> SignResult ptr \<Rightarrow> err + string" where
  "GetSignatureValidator L data sig = RecoverId L data sig"

definition ecrecover :: "chainLib \<Rightarrow> Header \<Rightarrow> pbftEngine \<Rightarrow> (err + string) \<times> pbftEngine" where
  "ecrecover L h e =
     (let hash = headerHashNoSign L h;
          (hit, cache) = arcGet (arcHitHash (clLib L) memoryValidatorLen) hash (recentValidatorCache e);
          e = e\<lparr>recentValidatorCache := cache\<rparr>
      in case hit of
           Some x \<Rightarrow> (Inr x, e)
         | None \<Rightarrow>
             (case GetSignatureValidator L (hashBytes (clLib L) hash) (hSignature h) of
                Inl x \<Rightarrow> (Inl x, e)
              | Inr peer \<Rightarrow> (Inr peer, e\<lparr>recentValidatorCache := arcAdd hash peer (recentValidatorCache e)\<rparr>)))"

definition engineID :: "pbftEngine \<Rightarrow> string" where
  "engineID e = nodeId e"

definition Author :: "chainLib \<Rightarrow> Header \<Rightarrow> pbftEngine \<Rightarrow> (err + string) \<times> pbftEngine" where
  "Author L header e = ecrecover L header e"

definition ecrecoverVote :: "chainLib \<Rightarrow> bytes \<Rightarrow> SignResult ptr \<Rightarrow> err + Address" where
  "ecrecoverVote L data sig =
     (case RecoverPub L data sig of Inl x \<Rightarrow> Inl x | Inr pub \<Rightarrow> PubkeyToAddress L pub)"

definition CheckSignature :: "chainLib \<Rightarrow> bytes \<Rightarrow> string \<Rightarrow> SignResult ptr \<Rightarrow> err option" where
  "CheckSignature L data node sig =
     (case GetSignatureValidator L data sig of
        Inl x \<Rightarrow> Some x
      | Inr signer \<Rightarrow> if signer \<noteq> node then Some errInvalidSignature else None)"

section \<open>Finding a snapshot\<close>

text \<open>The callback \<open>verify\<close> is \<open>VerifyHeader\<close> on the genesis header.\<close>

type_synonym verifier = "Header \<Rightarrow> pbftEngine \<Rightarrow> (err option \<times> pbftEngine) go"

definition genesisSnapshot ::
  "chainLib \<Rightarrow> reader \<Rightarrow> verifier \<Rightarrow> pbftEngine \<Rightarrow> ((err + nat) \<times> pbftEngine) go" where
  "genesisSnapshot L rd verify e = do {
     genesis \<leftarrow> GetHeaderByNumber rd (genesisHeight e);
     (x, e) \<leftarrow> verify genesis e;
     if x \<noteq> None \<and> x \<noteq> Some errBlockIsGenesis then ret (Inl (the x), e)
     else do {
       let cfg = selfConfig e;
       let (vs, H) = NewSet (cfgValidators cfg) (cfgProposerPolicy cfg) (sets (theStore e));
       let snap = newSnapshot (cfgEpoch cfg) (genesisHeight e) (headerHash L genesis) vs (cfgManagers cfg);
       let (r, st) = allocSnap snap ((theStore e)\<lparr>sets := H\<rparr>);
       (x, db) \<leftarrow> StoreSnap L H snap (theDb e);
       let e = e\<lparr>theStore := st, theDb := db\<rparr>;
       ret (case x of Some y \<Rightarrow> Inl y | None \<Rightarrow> Inr r, e)
     }
   }"

text \<open>A cached or stored snapshot for a block, if there is one.\<close>

definition knownSnapshot :: "chainLib \<Rightarrow> u64 \<Rightarrow> Hash \<Rightarrow> pbftEngine \<Rightarrow> nat option \<times> pbftEngine" where
  "knownSnapshot L height hash e =
     (let (hit, cache) = arcGet (arcHitHash (clLib L) memorySnapshotsLen) hash (recentSnapshotCache e);
          e = e\<lparr>recentSnapshotCache := cache\<rparr>
      in case hit of
           Some r \<Rightarrow> (Some r, e)
         | None \<Rightarrow>
             if height mod checkpointInterval = 0
             then (case loadSnapshot L (cfgEpoch (selfConfig e)) (theDb e) hash (theStore e) of
                     (Inr r, st) \<Rightarrow> (Some r, e\<lparr>theStore := st\<rparr>)
                   | (Inl _, _) \<Rightarrow> (None, e))
             else (None, e))"

text \<open>The header of a block that has no snapshot: the last of the given parents, which must match, or
  what the reader returns.\<close>

definition nextHeader ::
  "chainLib \<Rightarrow> reader \<Rightarrow> u64 \<Rightarrow> Hash \<Rightarrow> Header list \<Rightarrow> (Header \<times> Header list) option" where
  "nextHeader L rd height hash parents =
     (if parents \<noteq> []
      then (let header = last parents
            in if headerHash L header \<noteq> hash \<or> hHeight header \<noteq> height then None
               else Some (header, butlast parents))
      else map_option (\<lambda>header. (header, [])) (GetHeader rd hash height))"

lemma genesisHeight_knownSnapshot [simp]: "genesisHeight (snd (knownSnapshot L height hash e)) = genesisHeight e"
  by (simp add: knownSnapshot_def arcGet_def Let_def split: option.splits prod.splits sum.splits)

lemma unat_pred_less:
  assumes "\<not> (height :: u64) < g" "height \<noteq> g"
  shows "unat (height - 1) < unat height"
proof -
  from assms have "height \<noteq> 0" using word_gt_0 [of g] by auto
  then show ?thesis by (simp add: unat_minus_one unat_gt_0)
qed

text \<open>The loop of \<open>snapshot\<close>, from a block backwards to one that has a snapshot; \<open>headers\<close> are the
  headers passed on the way, newest first.\<close>

function gather ::
  "chainLib \<Rightarrow> reader \<Rightarrow> verifier \<Rightarrow> u64 \<Rightarrow> Hash \<Rightarrow> Header list \<Rightarrow> Header list \<Rightarrow> pbftEngine \<Rightarrow>
   ((err + nat \<times> Header list) \<times> pbftEngine) go" where
  "gather L rd verify height hash parents headers e =
     (case knownSnapshot L height hash e of
        (Some r, e) \<Rightarrow> ret (Inr (r, headers), e)
      | (None, e) \<Rightarrow>
          if height < genesisHeight e then ret (Inl errBlockSmall, e)
          else if height = genesisHeight e then
            map_option (\<lambda>(res, e). (case res of Inl x \<Rightarrow> Inl x | Inr r \<Rightarrow> Inr (r, headers), e))
              (genesisSnapshot L rd verify e)
          else
            (case nextHeader L rd height hash parents of
               None \<Rightarrow> ret (Inl ErrUnknownAncestor, e)
             | Some (header, parents) \<Rightarrow>
                 gather L rd verify (height - 1) (hParentHash header) parents (headers @ [header]) e))"
  by pat_completeness auto
termination
  by (relation "measure (\<lambda>(L, rd, verify, height, hash, parents, headers, e). unat height)")
     (auto intro: unat_pred_less)

text \<open>The loop that reverses the headers in place.\<close>

definition swapEnds :: "nat \<Rightarrow> 'a list \<Rightarrow> 'a list" where
  "swapEnds i ys = ys[i := ys ! (length ys - 1 - i), length ys - 1 - i := ys ! i]"

definition reverseHeaders :: "'a list \<Rightarrow> 'a list" where
  "reverseHeaders xs = fold swapEnds [0..<length xs div 2] xs"

definition snapshot ::
  "chainLib \<Rightarrow> reader \<Rightarrow> verifier \<Rightarrow> u64 \<Rightarrow> Hash \<Rightarrow> Header list \<Rightarrow> pbftEngine \<Rightarrow>
   ((err + nat) \<times> pbftEngine) go" where
  "snapshot L rd verify height hash parents e = do {
     (res, e) \<leftarrow> gather L rd verify height hash parents [] e;
     (case res of
        Inl x \<Rightarrow> ret (Inl x, e)
      | Inr (r, headers) \<Rightarrow> do {
          (res, st) \<leftarrow> Apply L (reverseHeaders headers) r (theStore e);
          let e = e\<lparr>theStore := st\<rparr>;
          (case res of
             Inl x \<Rightarrow> ret (Inl x, e)
           | Inr r \<Rightarrow> do {
               snap \<leftarrow> getSnap (theStore e) r;
               let e = e\<lparr>recentSnapshotCache := arcAdd (snHash snap) r (recentSnapshotCache e)\<rparr>;
               if snHeight snap mod checkpointInterval = 0 \<and> length headers > 0
               then do {
                 (x, db) \<leftarrow> StoreSnap L (sets (theStore e)) snap (theDb e);
                 ret (case x of Some y \<Rightarrow> Inl y | None \<Rightarrow> Inr r, e\<lparr>theDb := db\<rparr>)
               }
               else ret (Inr r, e)
             })
        })
   }"

text \<open>The validator set behind a snapshot.\<close>

definition snapValidators :: "pbftEngine \<Rightarrow> nat \<Rightarrow> ValidatorSet go" where
  "snapValidators e r = do {
     snap \<leftarrow> getSnap (theStore e) r;
     derefSet (sets (theStore e)) (snValSet snap)
   }"

section \<open>Verifying headers\<close>

definition verifySigner ::
  "chainLib \<Rightarrow> reader \<Rightarrow> verifier \<Rightarrow> Header \<Rightarrow> Header list \<Rightarrow> pbftEngine \<Rightarrow> (err option \<times> pbftEngine) go" where
  "verifySigner L rd verify header parents e =
     (if hHeight header = genesisHeight e then ret (Some errUnknownBlock, e)
      else do {
        (res, e) \<leftarrow> snapshot L rd verify (hHeight header - 1) (hParentHash header) parents e;
        (case res of
           Inl x \<Rightarrow> ret (Some x, e)
         | Inr r \<Rightarrow>
             (case ecrecover L header e of
                (Inl x, e) \<Rightarrow> ret (Some x, e)
              | (Inr signer, e) \<Rightarrow> do {
                  vs \<leftarrow> snapValidators e r;
                  ret (if snd (GetById vs signer) = None then Some ErrUnauthorized else None, e)
                }))
      })"

text \<open>The signatures of the votes in the consensus data. An error of the encoder is ignored.\<close>

definition checkVoteSig :: "chainLib \<Rightarrow> bytes option \<Rightarrow> bytes \<Rightarrow> Address \<Rightarrow> err option" where
  "checkVoteSig L enc sig manager =
     (case parseSign L sig of
        None \<Rightarrow> Some (ErrLib ''signature'')
      | Some signResult \<Rightarrow>
          (case ecrecoverVote L (case enc of None \<Rightarrow> [] | Some b \<Rightarrow> b) (Some signResult) of
             Inl x \<Rightarrow> Some x
           | Inr m \<Rightarrow> if m \<noteq> manager then Some errInvalidSignature else None))"

definition checkVotes :: "chainLib \<Rightarrow> ConsensusData \<Rightarrow> err option" where
  "checkVotes L data =
     (let m = (case MVote data of
                 None \<Rightarrow> None
               | Some v \<Rightarrow> checkVoteSig L (encodeProposeM L (mvCandidate v) (mvAuthorize v) (mvDeadlineHeight v))
                            (mvSignature v) (mvManager v))
      in if m \<noteq> None then m
         else case VVote data of
                None \<Rightarrow> None
              | Some v \<Rightarrow> checkVoteSig L (encodeProposeV L (vvValidator v) (vvAuthorize v) (vvDeadlineHeight v))
                           (vvSignature v) (vvManager v))"

text \<open>The loop over the seals: each signer is removed from a copy of the validators.\<close>

fun countSeals :: "chainLib \<Rightarrow> bytes \<Rightarrow> SignResult ptr list \<Rightarrow> ValidatorSet \<Rightarrow> int \<Rightarrow> err + int" where
  "countSeals L proposalSeal [] vals validSeal = Inr validSeal"
| "countSeals L proposalSeal (seal # seals) vals validSeal =
     (case GetSignatureValidator L proposalSeal seal of
        Inl _ \<Rightarrow> Inl errInvalidSignature
      | Inr x \<Rightarrow>
          (case RemoveValidator vals x of
             (True, vals) \<Rightarrow> countSeals L proposalSeal seals vals (validSeal + 1)
           | (False, _) \<Rightarrow> Inl errInvalidCommittedSeals))"

definition sealsVerdict :: "chainLib \<Rightarrow> Hash \<Rightarrow> SignResult ptr list \<Rightarrow> ValidatorSet \<Rightarrow> err option" where
  "sealsVerdict L hash seals vs =
     (case countSeals L (PrepareCommittedSeal (clLib L) hash) seals (Copy 0 vs) 0 of
        Inl x \<Rightarrow> Some x
      | Inr validSeal \<Rightarrow>
          if validSeal \<le> 2 * FaultTolerantNum vs then Some errInvalidCommittedSeals else None)"

definition verifyCommittedSeals ::
  "chainLib \<Rightarrow> reader \<Rightarrow> verifier \<Rightarrow> Header \<Rightarrow> Header list \<Rightarrow> pbftEngine \<Rightarrow> (err option \<times> pbftEngine) go" where
  "verifyCommittedSeals L rd verify header parents e =
     (if hHeight header = genesisHeight e then ret (None, e)
      else
        (case FromConsensus L (hConsensus header) of
           Inl x \<Rightarrow> ret (Some x, e)
         | Inr data \<Rightarrow>
             if length (cdCommittedSeal data) = 0 then ret (Some errEmptyCommittedSeals, e)
             else
               (case checkVotes L data of
                  Some x \<Rightarrow> ret (Some x, e)
                | None \<Rightarrow> do {
                    (res, e) \<leftarrow> snapshot L rd verify (hHeight header - 1) (hParentHash header) parents e;
                    (case res of
                       Inl x \<Rightarrow> ret (Some x, e)
                     | Inr r \<Rightarrow> do {
                         vs \<leftarrow> snapValidators e r;
                         ret (sealsVerdict L (headerHash L header) (cdCommittedSeal data) vs, e)
                       })
                  })))"

definition blockPeriod :: "pbftEngine \<Rightarrow> u64" where
  "blockPeriod e = (let period = cfgBlockPeriod (selfConfig e) in if period = 0 then 1 else period)"

definition verifyCascadingFields ::
  "chainLib \<Rightarrow> reader \<Rightarrow> verifier \<Rightarrow> Header \<Rightarrow> Header list \<Rightarrow> pbftEngine \<Rightarrow> (err option \<times> pbftEngine) go" where
  "verifyCascadingFields L rd verify header parents e =
     (let height = hHeight header
      in if height = genesisHeight e then ret (None, e)
         else
           (case (if parents \<noteq> [] then Some (last parents) else GetHeader rd (hParentHash header) (height - 1)) of
              None \<Rightarrow> ret (Some ErrUnknownAncestor, e)
            | Some parent \<Rightarrow>
                if hHeight parent \<noteq> height - 1 \<or> headerHash L parent \<noteq> hParentHash header
                then ret (Some ErrUnknownAncestor, e)
                else if hTimestamp parent + blockPeriod e > hTimestamp header
                then ret (Some errInvalidTimestamp, e)
                else do {
                  (x, e) \<leftarrow> verifySigner L rd verify header parents e;
                  (case x of
                     Some y \<Rightarrow> ret (Some y, e)
                   | None \<Rightarrow> verifyCommittedSeals L rd verify header parents e)
                }))"

fun verifyHeader ::
  "nat \<Rightarrow> chainLib \<Rightarrow> reader \<Rightarrow> Header \<Rightarrow> Header list \<Rightarrow> pbftEngine \<Rightarrow> (err option \<times> pbftEngine) go" where
  "verifyHeader 0 L rd header parents e = panic"
| "verifyHeader (Suc n) L rd header parents e =
     (if hHeight header = genesisHeight e then ret (Some errBlockIsGenesis, e)
      else if hTimestamp header > CurrentTime rd + faultTolerantTime then ret (Some ErrFutureBlock, e)
      else
        (case FromConsensus L (hConsensus header) of
           Inl x \<Rightarrow> ret (Some x, e)
         | Inr _ \<Rightarrow>
             verifyCascadingFields L rd (\<lambda>h. verifyHeader n L rd h []) header parents e))"

abbreviation (input) verifyDepth :: nat where
  "verifyDepth \<equiv> 2"

definition VerifyHeader :: "chainLib \<Rightarrow> reader \<Rightarrow> Header \<Rightarrow> pbftEngine \<Rightarrow> (err option \<times> pbftEngine) go" where
  "VerifyHeader L rd header e = verifyHeader verifyDepth L rd header [] e"

text \<open>\<open>snapshot\<close> as the engine calls it outside header verification.\<close>

definition snapshotAt :: "chainLib \<Rightarrow> reader \<Rightarrow> u64 \<Rightarrow> Hash \<Rightarrow> pbftEngine \<Rightarrow> ((err + nat) \<times> pbftEngine) go" where
  "snapshotAt L rd height hash e = snapshot L rd (\<lambda>h. verifyHeader 1 L rd h []) height hash [] e"

text \<open>\<open>VerifyHeaders\<close> is not implemented.\<close>

definition VerifyHeaders :: "Header list \<Rightarrow> unit go" where
  "VerifyHeaders headers = panic"


section \<open>Preparing and sealing a block\<close>

text \<open>\<open>Prepare\<close> fills in the header it is given. \<open>now2\<close> is the second reading of the clock.\<close>

definition Prepare ::
  "chainLib \<Rightarrow> reader \<Rightarrow> i64 \<Rightarrow> Header \<Rightarrow> pbftEngine \<Rightarrow> (err option \<times> Header \<times> pbftEngine) go" where
  "Prepare L rd now2 header e =
     (case GetHeader rd (hParentHash header) (hHeight header - 1) of
        None \<Rightarrow> ret (Some ErrUnknownAncestor, header, e)
      | Some parent \<Rightarrow> do {
          (res, e) \<leftarrow> snapshotAt L rd (hHeight header - 1) (hParentHash header) e;
          (case res of
             Inl x \<Rightarrow> ret (Some x, header, e)
           | Inr r \<Rightarrow> do {
               snap \<leftarrow> getSnap (theStore e) r;
               (mVote, vVote, m) \<leftarrow> getVotes (hHeight header) (snapCheckMVote snap)
                 (snapCheckVVote (sets (theStore e)) snap) (voteManager e);
               let e = e\<lparr>voteManager := m\<rparr>;
               (case ToConsensus L \<lparr>cdCommittedSeal = [], cdManagers = [], cdValidators = [],
                                   MVote = mVote, VVote = vVote\<rparr> of
                  Inl x \<Rightarrow> ret (Some x, header\<lparr>hConsensus := None\<rparr>, e)
                | Inr c \<Rightarrow>
                    (let header = header\<lparr>hConsensus := Some c, hTimestamp := hTimestamp parent + blockPeriod e\<rparr>;
                         header = (if hTimestamp header < CurrentTime rd then header\<lparr>hTimestamp := now2\<rparr> else header)
                     in ret (None, header, e)))
             })
        })"

definition Finalize :: "chainLib \<Rightarrow> Header \<Rightarrow> bytes \<Rightarrow> Proposal" where
  "Finalize L header txs = NewBlock L header txs"

definition writeSeal :: "Header \<Rightarrow> SignResult ptr \<Rightarrow> err option \<times> Header" where
  "writeSeal h seal =
     (case seal of None \<Rightarrow> (Some errInvalidSignature, h) | Some s \<Rightarrow> (None, h\<lparr>hSignature := Some s\<rparr>))"

definition engineSign :: "chainLib \<Rightarrow> bytes \<Rightarrow> err + SignResult ptr" where
  "engineSign L data = keySign L data"

definition updateBlock :: "chainLib \<Rightarrow> Proposal \<Rightarrow> err + Proposal" where
  "updateBlock L block =
     (let header = blkHeader L block
      in case engineSign L (hashBytes (clLib L) (headerHashNoSign L header)) of
           Inl x \<Rightarrow> Inl x
         | Inr seal \<Rightarrow>
             (case writeSeal header seal of
                (Some x, _) \<Rightarrow> Inl x
              | (None, header) \<Rightarrow> Inr (blkWithSeal L block header)))"

text \<open>What a call of \<open>Seal\<close> returns: its error, what it has sent on \<open>results\<close> itself (\<open>None\<close> is a nil
  block), and the block its goroutine waits for. After \<open>updateBlock\<close> fails, the warning logged calls
  methods of a nil block: \<open>nilBlockOk\<close> says whether they return.\<close>

record sealing =
  slErr :: "err option"
  slResults :: "Proposal ptr list"
  slWaiting :: "Proposal ptr"

definition Seal ::
  "chainLib \<Rightarrow> reader \<Rightarrow> bool \<Rightarrow> bool \<Rightarrow> Proposal \<Rightarrow> pbftEngine \<Rightarrow> core \<Rightarrow> (sealing \<times> pbftEngine \<times> core) go" where
  "Seal L rd nilBlockOk ctxDone block e c =
     (let header = blkHeader L block; height = hHeight header;
          fails = (\<lambda>x. \<lparr>slErr = Some x, slResults = [], slWaiting = None\<rparr>)
      in do {
        (res, e) \<leftarrow> snapshotAt L rd (height - 1) (hParentHash header) e;
        (case res of
           Inl x \<Rightarrow> ret (fails x, e, c)
         | Inr r \<Rightarrow> do {
             vs \<leftarrow> snapValidators e r;
             if snd (GetById vs (nodeId e)) = None then ret (fails ErrUnauthorized, e, c)
             else if GetHeader rd (hParentHash header) (height - 1) = None then ret (fails ErrUnknownAncestor, e, c)
             else
               (case updateBlock L block of
                  Inl x \<Rightarrow> if nilBlockOk then ret (fails x, e, c) else panic
                | Inr block \<Rightarrow>
                    if ctxDone then ret (\<lparr>slErr = None, slResults = [None], slWaiting = None\<rparr>, e, c)
                    else do {
                      let e = e\<lparr>proposedBlockHash := PHash block\<rparr>;
                      (x, c) \<leftarrow> core_Request \<lparr>rqProposal = Some block\<rparr> c;
                      (case x of
                         Some y \<Rightarrow> ret (\<lparr>slErr = Some y, slResults = [None], slWaiting = None\<rparr>, e, c)
                       | None \<Rightarrow> ret (\<lparr>slErr = None, slResults = [], slWaiting = Some block\<rparr>, e, c))
                    })
           })
      })"

text \<open>The delay before a block is handed to the core: the timestamp read as seconds, less the clock in
  nanoseconds, saturating at the bounds of \<open>time.Duration\<close>.\<close>

definition sealDelay :: "u64 \<Rightarrow> int \<Rightarrow> int" where
  "sealDelay timestamp nowNs =
     max (- (2 ^ 63)) (min (2 ^ 63 - 1) (sint timestamp * 1000000000 - nowNs))"

text \<open>The goroutine of \<open>Seal\<close>: it empties \<open>commitCh\<close>, then waits for a block on it or for the end of
  the context. A step gives what is sent on \<open>results\<close>; \<open>None\<close> as a whole: the goroutine is blocked.\<close>

datatype sealer = SClear Proposal | SWait Proposal | SDone

definition clearCommitChannel :: "pbftEngine \<Rightarrow> pbftEngine" where
  "clearCommitChannel e = e\<lparr>commitCh := []\<rparr>"

fun sealStep :: "bool \<Rightarrow> sealer \<Rightarrow> pbftEngine \<Rightarrow> (sealer \<times> Proposal ptr list \<times> pbftEngine) option" where
  "sealStep ctxDone (SClear block) e = Some (SWait block, [], clearCommitChannel e)"
| "sealStep ctxDone (SWait block) e =
     (if ctxDone then Some (SDone, [None], e\<lparr>proposedBlockHash := emptyHash\<rparr>)
      else case commitCh e of
             [] \<Rightarrow> None
           | result # rest \<Rightarrow>
               Some (SDone, [if PHash block = PHash result then Some result else None],
                     e\<lparr>commitCh := rest, proposedBlockHash := emptyHash\<rparr>))"
| "sealStep ctxDone SDone e = None"

section \<open>The backend of the core\<close>

definition writeCommittedSeals :: "chainLib \<Rightarrow> Header \<Rightarrow> SignResult ptr list \<Rightarrow> err option \<times> Header" where
  "writeCommittedSeals L h committedSeals =
     (if length committedSeals = 0 then (Some errInvalidCommittedSeals, h)
      else
        (case FromConsensus L (hConsensus h) of
           Inl x \<Rightarrow> (Some x, h)
         | Inr data \<Rightarrow>
             (case encodeConsensus L (data\<lparr>cdCommittedSeal := committedSeals\<rparr>) of
                None \<Rightarrow> (Some (ErrLib ''encode''), h)
              | Some payload \<Rightarrow>
                  (None, h\<lparr>hConsensus := Some \<lparr>csName = ''pbft'', csConsensus = payload\<rparr>\<rparr>))))"

text \<open>\<open>Commit\<close> returns its error and the block its goroutine offers to \<open>commitCh\<close>; the offer is dropped
  when the channel, of capacity one, is full.\<close>

definition Commit :: "chainLib \<Rightarrow> Proposal ptr \<Rightarrow> SignResult ptr list \<Rightarrow> err option \<times> Proposal ptr" where
  "Commit L proposal seals =
     (case proposal of
        None \<Rightarrow> (Some errInvalidProposal, None)
      | Some block \<Rightarrow>
          (case writeCommittedSeals L (blkHeader L block) seals of
             (Some x, _) \<Rightarrow> (Some x, None)
           | (None, h) \<Rightarrow> (None, Some (blkWithSeal L block h))))"

definition offerCommit :: "Proposal \<Rightarrow> pbftEngine \<Rightarrow> pbftEngine" where
  "offerCommit block e = (if length (commitCh e) < 1 then e\<lparr>commitCh := commitCh e @ [block]\<rparr> else e)"

definition Verify :: "chainLib \<Rightarrow> reader \<Rightarrow> Proposal ptr \<Rightarrow> pbftEngine \<Rightarrow> (err option \<times> pbftEngine) go" where
  "Verify L rd proposal e =
     (case proposal of
        None \<Rightarrow> ret (Some errInvalidProposal, e)
      | Some block \<Rightarrow>
          if \<not> blkTxsDeepEqual L block (blkHeader L block) then ret (Some errMismatchTxRoot, e)
          else do {
            (x, e) \<leftarrow> VerifyHeader L rd (blkHeader L block) e;
            ret (if x = None \<or> x = Some errEmptyCommittedSeals then None else x, e)
          })"

text \<open>\<open>getValidators\<close>: the set of the snapshot (nil if it has none), or a new empty set on an error.\<close>

definition getValidators :: "chainLib \<Rightarrow> reader \<Rightarrow> u64 \<Rightarrow> Hash \<Rightarrow> pbftEngine \<Rightarrow> (nat ptr \<times> pbftEngine) go" where
  "getValidators L rd height hash e = do {
     (res, e) \<leftarrow> snapshotAt L rd height hash e;
     (case res of
        Inl _ \<Rightarrow>
          (let (r, H) = NewSet [] (cfgProposerPolicy (selfConfig e)) (sets (theStore e))
           in ret (Some r, e\<lparr>theStore := (theStore e)\<lparr>sets := H\<rparr>\<rparr>))
      | Inr r \<Rightarrow> do { snap \<leftarrow> getSnap (theStore e) r; ret (snValSet snap, e) })
   }"

definition ValidatorsOf :: "chainLib \<Rightarrow> reader \<Rightarrow> Proposal \<Rightarrow> pbftEngine \<Rightarrow> (nat ptr \<times> pbftEngine) go" where
  "ValidatorsOf L rd proposal e = getValidators L rd (Height proposal) (PHash proposal) e"

definition ParentValidators :: "chainLib \<Rightarrow> reader \<Rightarrow> Proposal ptr \<Rightarrow> pbftEngine \<Rightarrow> (nat ptr \<times> pbftEngine) go" where
  "ParentValidators L rd proposal e =
     (case proposal of
        Some block \<Rightarrow> getValidators L rd (Height block - 1) (blkParentHash L block) e
      | None \<Rightarrow>
          (let (r, H) = NewSet [] (cfgProposerPolicy (selfConfig e)) (sets (theStore e))
           in ret (Some r, e\<lparr>theStore := (theStore e)\<lparr>sets := H\<rparr>\<rparr>)))"

definition LastProposal :: "chainLib \<Rightarrow> reader \<Rightarrow> pbftEngine \<Rightarrow> ((Proposal ptr \<times> string) \<times> pbftEngine) go" where
  "LastProposal L rd e = do {
     block \<leftarrow> CurrentBlock rd;
     if Height block > genesisHeight e
     then (case Author L (blkHeader L block) e of
             (Inl _, e) \<Rightarrow> ret ((None, ''''), e)
           | (Inr who, e) \<Rightarrow> ret ((Some block, who), e))
     else ret ((Some block, ''''), e)
   }"

definition HasProposal :: "reader \<Rightarrow> Hash \<Rightarrow> u64 \<Rightarrow> bool" where
  "HasProposal rd hash height \<longleftrightarrow> GetHeader rd hash height \<noteq> None"

text \<open>An error of \<open>Author\<close> is dropped; \<open>GetSignatureValidator\<close> then returns the empty string.\<close>

definition engineGetProposer :: "chainLib \<Rightarrow> reader \<Rightarrow> u64 \<Rightarrow> pbftEngine \<Rightarrow> string \<times> pbftEngine" where
  "engineGetProposer L rd height e =
     (case GetHeaderByNumber rd height of
        None \<Rightarrow> ('''', e)
      | Some h \<Rightarrow> (case Author L h e of (Inl _, e) \<Rightarrow> ('''', e) | (Inr a, e) \<Rightarrow> (a, e)))"

text \<open>\<open>Start\<close>, \<open>Stop\<close> and \<open>Begin\<close> pass on to the core.\<close>

definition engineStart :: "env \<Rightarrow> core \<Rightarrow> core go" where
  "engineStart E c = Start E c"

definition engineStop :: "core \<Rightarrow> core" where
  "engineStop c = Stop c"

definition Begin :: "core \<Rightarrow> core" where
  "Begin c = NewChainHead c"

section \<open>The interface for managers\<close>

text \<open>\<open>rpc.LatestBlockNumber\<close> is the argument \<open>latest\<close>.\<close>

definition GetSnapshot ::
  "chainLib \<Rightarrow> reader \<Rightarrow> i64 \<Rightarrow> i64 ptr \<Rightarrow> pbftEngine \<Rightarrow> ((err + nat) \<times> pbftEngine) go" where
  "GetSnapshot L rd latest number e = do {
     header \<leftarrow> (case number of
                 None \<Rightarrow> map_option (\<lambda>b. Some (blkHeader L b)) (CurrentBlock rd)
               | Some n \<Rightarrow>
                   if n = latest then map_option (\<lambda>b. Some (blkHeader L b)) (CurrentBlock rd)
                   else ret (GetHeaderByNumber rd n));
     (case header of
        None \<Rightarrow> ret (Inl errUnknownBlock, e)
      | Some h \<Rightarrow> snapshotAt L rd (hHeight h) (headerHash L h) e)
   }"

definition checkApiVote ::
  "chainLib \<Rightarrow> reader \<Rightarrow> i64 \<Rightarrow> bytes \<Rightarrow> bytes \<Rightarrow> int ptr \<Rightarrow> pbftEngine \<Rightarrow>
   ((err + Address) \<times> pbftEngine) go" where
  "checkApiVote L rd latest data sig deadline e =
     (case parseSign L sig of
        None \<Rightarrow> ret (Inl (ErrLib ''signature''), e)
      | Some signResult \<Rightarrow>
          (case ecrecoverVote L data (Some signResult) of
             Inl x \<Rightarrow> ret (Inl x, e)
           | Inr manager \<Rightarrow> do {
               (res, e) \<leftarrow> GetSnapshot L rd latest (Some latest) e;
               (case res of
                  Inl x \<Rightarrow> ret (Inl x, e)
                | Inr r \<Rightarrow> do {
                    d \<leftarrow> deadline;
                    if big_Cmp d (sint latest) < 0 then ret (Inl (ErrLib ''invalid deadline block number''), e)
                    else do {
                      snap \<leftarrow> getSnap (theStore e) r;
                      votes \<leftarrow> snVotes snap;
                      ret (if \<not> isManager votes manager then Inl ErrUnauthorized else Inr manager, e)
                    }
                  })
             }))"

definition ProposeManager ::
  "chainLib \<Rightarrow> reader \<Rightarrow> i64 \<Rightarrow> Address \<Rightarrow> bool \<Rightarrow> int ptr \<Rightarrow> bytes \<Rightarrow> pbftEngine \<Rightarrow>
   (err option \<times> pbftEngine) go" where
  "ProposeManager L rd latest address auth deadline sig e =
     (let enc = (case encodeProposeM L address auth deadline of None \<Rightarrow> [] | Some b \<Rightarrow> b)
      in do {
        (res, e) \<leftarrow> checkApiVote L rd latest enc sig deadline e;
        (case res of
           Inl x \<Rightarrow> ret (Some x, e)
         | Inr manager \<Rightarrow>
             ret (None, e\<lparr>voteManager := setMVote address
               \<lparr>mvManager = manager, mvCandidate = address, mvAuthorize = auth, mvDeadlineHeight = deadline,
                mvSignature = sig\<rparr> (voteManager e)\<rparr>))
      })"

definition ProposeValidator ::
  "chainLib \<Rightarrow> reader \<Rightarrow> i64 \<Rightarrow> string \<Rightarrow> bool \<Rightarrow> int ptr \<Rightarrow> bytes \<Rightarrow> pbftEngine \<Rightarrow>
   (err option \<times> pbftEngine) go" where
  "ProposeValidator L rd latest x auth deadline sig e =
     (case IDFromStringErr L x of
        Some y \<Rightarrow> ret (Some y, e)
      | None \<Rightarrow>
          (let enc = (case encodeProposeV L x auth deadline of None \<Rightarrow> [] | Some b \<Rightarrow> b)
           in do {
             (res, e) \<leftarrow> checkApiVote L rd latest enc sig deadline e;
             (case res of
                Inl y \<Rightarrow> ret (Some y, e)
              | Inr manager \<Rightarrow>
                  ret (None, e\<lparr>voteManager := setVVote x
                    \<lparr>vvManager = manager, vvValidator = x, vvAuthorize = auth, vvDeadlineHeight = deadline,
                     vvSignature = sig\<rparr> (voteManager e)\<rparr>))
           }))"

section \<open>Construction\<close>

text \<open>The options set the fields of an engine under construction and never fail; a nil option is
  skipped. A dependency is recorded as given or nil, with what the constructor asks of it: the
  node's identifier or an error; the genesis height, the name of the configured consensus and its
  decoded parameters.\<close>

record deps =
  dConfig :: "(u64 \<times> string \<times> PBFTConfig option) ptr"
  dNodeKey :: "(err + string) ptr"
  dBroadcaster :: bool
  dBlockReader :: bool
  dDbReader :: bool
  dKVDB :: bool
  dApis :: bool

definition noDeps :: deps where
  "noDeps = \<lparr>dConfig = None, dNodeKey = None, dBroadcaster = False, dBlockReader = False, dDbReader = False,
     dKVDB = False, dApis = False\<rparr>"

type_synonym engineOption = "deps \<Rightarrow> err + deps"

definition WithConfig :: "(u64 \<times> string \<times> PBFTConfig option) ptr \<Rightarrow> engineOption" where
  "WithConfig config d = Inr (d\<lparr>dConfig := config\<rparr>)"

definition WithNodeKey :: "(err + string) ptr \<Rightarrow> engineOption" where
  "WithNodeKey nodeKey d = Inr (d\<lparr>dNodeKey := nodeKey\<rparr>)"

definition WithBroadcaster :: "bool \<Rightarrow> engineOption" where
  "WithBroadcaster b d = Inr (d\<lparr>dBroadcaster := b\<rparr>)"

definition WithBlockReader :: "bool \<Rightarrow> engineOption" where
  "WithBlockReader b d = Inr (d\<lparr>dBlockReader := b\<rparr>)"

definition WithDatabaseReader :: "bool \<Rightarrow> engineOption" where
  "WithDatabaseReader b d = Inr (d\<lparr>dDbReader := b\<rparr>)"

definition WithKVDB :: "bool \<Rightarrow> engineOption" where
  "WithKVDB b d = Inr (d\<lparr>dKVDB := b\<rparr>)"

fun applyOptions :: "engineOption ptr list \<Rightarrow> engineOption" where
  "applyOptions [] f = Inr f"
| "applyOptions (None # opts) f = applyOptions opts f"
| "applyOptions (Some opt # opts) f =
     (case opt f of Inl _ \<Rightarrow> Inl (ErrLib ''option apply err'') | Inr f \<Rightarrow> applyOptions opts f)"

text \<open>\<open>NewConsensus\<close>; the two caches have positive sizes, for which \<open>lru.NewARC\<close> returns no error.
  Without an API registry the constructor panics at its end.\<close>

definition NewConsensus :: "engineOption ptr list \<Rightarrow> (err + pbftEngine \<times> core) go" where
  "NewConsensus opts =
     (case applyOptions opts noDeps of
        Inl x \<Rightarrow> ret (Inl x)
      | Inr d \<Rightarrow> do {
          key \<leftarrow> dNodeKey d;
          (case key of
             Inl x \<Rightarrow> ret (Inl x)
           | Inr node \<Rightarrow> do {
               (genesis, cName, cfg) \<leftarrow> dConfig d;
               if \<not> EqualFold ''pbft'' cName then ret (Inl (ErrLib ''consensus is not pbft''))
               else case cfg of
                 None \<Rightarrow> ret (Inl (ErrLib ''decode''))
               | Some config \<Rightarrow>
                   if \<not> dApis d then panic
                   else ret (Inr
                     (\<lparr>nodeId = node, selfConfig = config, genesisHeight = genesis,
                       theStore = \<lparr>sets = \<lparr>vsets = [], vnext = 0\<rparr>, snaps = []\<rparr>, theDb = [], commitCh = [],
                       proposedBlockHash = emptyHash, voteManager = newManager,
                       recentSnapshotCache = newARC, recentValidatorCache = newARC\<rparr>,
                      NewEngine node))
             })
        })"

end
