(* ===== verification/Pbft_EngineFacts.thy ===== *)
theory Pbft_EngineFacts
  imports Pbft_Engine Pbft_CoreInv
begin

text \<open>
  What the engine around the core guarantees: which sets of seals it accepts, that header
  verification and the search for a snapshot return, what a prepared header carries, how a
  committed block reaches the waiting \<open>Seal\<close>, and where the engine fails.
\<close>

section \<open>Counting seals\<close>

lemma RemoveValidator_member:
  assumes "valset_inv vs"
  shows "x \<in> set (ids vs) \<Longrightarrow> \<exists>ws. RemoveValidator vs x = (True, ws) \<and> valset_inv ws \<and> set (ids ws) = set (ids vs) - {x}"
    and "x \<notin> set (ids vs) \<Longrightarrow> RemoveValidator vs x = (False, vs)"
proof -
  show "\<exists>ws. RemoveValidator vs x = (True, ws) \<and> valset_inv ws \<and> set (ids ws) = set (ids vs) - {x}" if "x \<in> set (ids vs)"
    using dvs.remove_changed [of vs x] dvs.remove_members [OF assms, of x] dvs.remove_inv [OF assms, of x] that
    by (cases "RemoveValidator vs x") auto
  show "RemoveValidator vs x = (False, vs)" if "x \<notin> set (ids vs)"
    using dvs.remove_changed [of vs x] that by (auto simp: RemoveValidator_def split: option.splits)
qed

lemma countSeals_iff:
  assumes "valset_inv vs"
  shows "countSeals L b seals vs n = Inr m \<longleftrightarrow>
    (\<exists>xs. map (RecoverId L b) seals = map Inr xs \<and> distinct xs \<and> set xs \<subseteq> set (ids vs) \<and> m = n + int (length xs))"
  using assms
proof (induction seals arbitrary: vs n)
  case (Cons s seals)
  show ?case
  proof (cases "RecoverId L b s")
    case (Inl x)
    then show ?thesis by (auto simp: GetSignatureValidator_def)
  next
    case (Inr x)
    show ?thesis
    proof (cases "x \<in> set (ids vs)")
      case True
      from RemoveValidator_member(1) [OF Cons.prems True] obtain ws
        where ws: "RemoveValidator vs x = (True, ws)" "valset_inv ws" "set (ids ws) = set (ids vs) - {x}" by auto
      have "countSeals L b (s # seals) vs n = Inr m \<longleftrightarrow>
          (\<exists>xs. map (RecoverId L b) seals = map Inr xs \<and> distinct xs \<and> set xs \<subseteq> set (ids vs) - {x} \<and>
             m = n + 1 + int (length xs))"
        using Cons.IH [OF ws(2), of "n + 1"] by (simp add: GetSignatureValidator_def Inr ws)
      also have "\<dots> \<longleftrightarrow> (\<exists>xs. map (RecoverId L b) (s # seals) = map Inr xs \<and> distinct xs \<and>
          set xs \<subseteq> set (ids vs) \<and> m = n + int (length xs))" (is "?l \<longleftrightarrow> ?r")
      proof
        assume ?l
        then obtain xs where "map (RecoverId L b) seals = map Inr xs" "distinct xs" "set xs \<subseteq> set (ids vs) - {x}"
          "m = n + 1 + int (length xs)" by blast
        then show ?r using True Inr by (intro exI [of _ "x # xs"]) auto
      next
        assume ?r
        then show ?l using Inr by (auto simp: Cons_eq_map_conv)
      qed
      finally show ?thesis .
    next
      case False
      with RemoveValidator_member(2) [OF Cons.prems False] show ?thesis
        by (auto simp: GetSignatureValidator_def Inr Cons_eq_map_conv)
    qed
  qed
qed auto

lemma ids_Copy: "ids (Copy a vs) = sort (ids vs)"
  unfolding Copy_def ids_newDefaultSet by (simp add: ids_def ListOf_def)

lemma sealsVerdict_iff:
  assumes "distinct (ids vs)"
  shows "sealsVerdict L hash seals vs = None \<longleftrightarrow>
    (\<exists>xs. map (RecoverId L (PrepareCommittedSeal (clLib L) hash)) seals = map Inr xs \<and> distinct xs \<and>
       set xs \<subseteq> set (ids vs) \<and> 2 * FaultTolerantNum vs < int (length xs))"
proof -
  have inv: "valset_inv (Copy 0 vs)" and members: "set (ids (Copy 0 vs)) = set (ids vs)"
    using assms by (simp_all add: valset_inv_def ids_Copy)
  note count = countSeals_iff [OF inv, of L "PrepareCommittedSeal (clLib L) hash" seals 0]
  have "sealsVerdict L hash seals vs = None \<longleftrightarrow>
      (\<exists>m. countSeals L (PrepareCommittedSeal (clLib L) hash) seals (Copy 0 vs) 0 = Inr m \<and> 2 * FaultTolerantNum vs < m)"
    by (auto simp: sealsVerdict_def not_le split: sum.splits)
  then show ?thesis unfolding count members by auto
qed

section \<open>The genesis height never changes\<close>

lemma genesisHeight_ecrecover [simp]: "genesisHeight (snd (ecrecover L h e)) = genesisHeight e"
  by (simp add: ecrecover_def arcGet_def Let_def split: option.splits sum.splits)

text \<open>A verifier that treats the genesis header as \<open>verifyHeader\<close> does: it reports that this is the
  genesis block and changes nothing.\<close>

definition genesis_aware :: "reader \<Rightarrow> u64 \<Rightarrow> verifier \<Rightarrow> bool" where
  "genesis_aware rd g verify \<longleftrightarrow>
     (\<forall>h e. GetHeaderByNumber rd g = Some h \<longrightarrow> genesisHeight e = g \<longrightarrow> verify h e = Some (Some errBlockIsGenesis, e))"

text \<open>Documented behaviour of the reader: the header it returns for a number has that number.\<close>

definition reader_ok :: "reader \<Rightarrow> bool" where
  "reader_ok rd \<longleftrightarrow> (\<forall>n h. GetHeaderByNumber rd n = Some h \<longrightarrow> hHeight h = n)"

lemma verifyHeader_genesis_aware: "reader_ok rd \<Longrightarrow> genesis_aware rd g (\<lambda>h. verifyHeader (Suc n) L rd h ps)"
  by (auto simp: genesis_aware_def reader_ok_def)

lemma genesisSnapshot_cong:
  assumes "genesis_aware rd (genesisHeight e) V" "genesis_aware rd (genesisHeight e) W"
  shows "genesisSnapshot L rd V e = genesisSnapshot L rd W e"
  using assms by (cases "GetHeaderByNumber rd (genesisHeight e)") (simp_all add: genesisSnapshot_def genesis_aware_def)

lemma genesisSnapshot_height:
  assumes "genesis_aware rd (genesisHeight e) V" "genesisSnapshot L rd V e = Some (res, e')"
  shows "genesisHeight e' = genesisHeight e"
  using assms by (auto simp: genesisSnapshot_def genesis_aware_def Let_def elim!: bind_SomeE split: if_splits prod.splits)

declare gather.simps [simp del]

lemma gather_cong:
  assumes "genesis_aware rd (genesisHeight e) V" "genesis_aware rd (genesisHeight e) W"
  shows "gather L rd V height hash parents headers e = gather L rd W height hash parents headers e"
  using assms
proof (induction "unat height" arbitrary: height hash parents headers e rule: less_induct)
  case less
  obtain hit e1 where k: "knownSnapshot L height hash e = (hit, e1)" by force
  have g: "genesisHeight e1 = genesisHeight e" using genesisHeight_knownSnapshot [of L height hash e] k by simp
  have "gather L rd V (height - 1) hash' parents' headers' e1 = gather L rd W (height - 1) hash' parents' headers' e1"
    if "\<not> height < genesisHeight e1" "height \<noteq> genesisHeight e1" for hash' parents' headers'
    using less(1) [OF unat_pred_less [OF that], of e1] less(2,3) by (simp add: g)
  then show ?case
    unfolding gather.simps [of L rd _ height] k using genesisSnapshot_cong [of rd e1 V W L] less(2,3)
    by (auto simp: g split: option.splits)
qed

lemma gather_height:
  assumes "genesis_aware rd (genesisHeight e) V" "gather L rd V height hash parents headers e = Some (res, e')"
  shows "genesisHeight e' = genesisHeight e"
  using assms
proof (induction "unat height" arbitrary: height hash parents headers e rule: less_induct)
  case less
  obtain hit e1 where k: "knownSnapshot L height hash e = (hit, e1)" by force
  have g: "genesisHeight e1 = genesisHeight e" using genesisHeight_knownSnapshot [of L height hash e] k by simp
  have aware: "genesis_aware rd (genesisHeight e1) V" using less(2) by (simp add: g)
  have IH: "genesisHeight e' = genesisHeight e1"
    if "\<not> height < genesisHeight e1" "height \<noteq> genesisHeight e1"
      "gather L rd V (height - 1) hash' parents' headers' e1 = Some (res, e')" for hash' parents' headers'
    using less(1) [OF unat_pred_less [OF that(1,2)] aware that(3)] .
  consider (hit) r where "hit = Some r" | (small) "hit = None" "height < genesisHeight e1"
    | (genesis) "hit = None" "\<not> height < genesisHeight e1" "height = genesisHeight e1"
    | (older) "hit = None" "\<not> height < genesisHeight e1" "height \<noteq> genesisHeight e1" by blast
  then show ?case
  proof cases
    case genesis
    with less(3) obtain res' where "genesisSnapshot L rd V e1 = Some (res', e')"
      unfolding gather.simps [of L rd V height] k by auto
    from genesisSnapshot_height [OF aware this] g show ?thesis by simp
  next
    case older
    with less(3) IH [OF older(2,3)] g show ?thesis
      unfolding gather.simps [of L rd V height] k by (auto split: option.splits)
  qed (use less(3) g in \<open>auto simp: gather.simps [of L rd V height] k\<close>)
qed

lemma snapshot_cong:
  assumes "genesis_aware rd (genesisHeight e) V" "genesis_aware rd (genesisHeight e) W"
  shows "snapshot L rd V height hash parents e = snapshot L rd W height hash parents e"
  by (simp add: snapshot_def gather_cong [OF assms])

lemma snapshot_height:
  assumes "genesis_aware rd (genesisHeight e) V" "snapshot L rd V height hash parents e = Some (res, e')"
  shows "genesisHeight e' = genesisHeight e"
  using assms(2) gather_height [OF assms(1)]
  by (fastforce simp: snapshot_def Let_def elim!: bind_SomeE split: sum.splits if_splits prod.splits)


text \<open>The three parts of header verification depend on the verifier only through the genesis header.\<close>

lemma verifySigner_cong:
  assumes "genesis_aware rd (genesisHeight e) V" "genesis_aware rd (genesisHeight e) W"
  shows "verifySigner L rd V header parents e = verifySigner L rd W header parents e"
  by (simp add: verifySigner_def snapshot_cong [OF assms])

lemma verifySigner_height:
  assumes "genesis_aware rd (genesisHeight e) V" "verifySigner L rd V header parents e = Some (x, e')"
  shows "genesisHeight e' = genesisHeight e"
proof (cases "hHeight header = genesisHeight e")
  case True
  with assms(2) show ?thesis by (simp add: verifySigner_def)
next
  case False
  with assms(2) obtain res e1 where snap: "snapshot L rd V (hHeight header - 1) (hParentHash header) parents e = Some (res, e1)"
    and e': "e' = e1 \<or> e' = snd (ecrecover L header e1)"
    by (auto simp: verifySigner_def elim!: bind_SomeE split: sum.splits prod.splits)
  from snapshot_height [OF assms(1) snap] e' show ?thesis by auto
qed

lemma verifyCommittedSeals_cong:
  assumes "genesis_aware rd (genesisHeight e) V" "genesis_aware rd (genesisHeight e) W"
  shows "verifyCommittedSeals L rd V header parents e = verifyCommittedSeals L rd W header parents e"
  unfolding verifyCommittedSeals_def snapshot_cong [OF assms] ..

lemma verifyCascadingFields_cong:
  assumes "genesis_aware rd (genesisHeight e) V" "genesis_aware rd (genesisHeight e) W"
  shows "verifyCascadingFields L rd V header parents e = verifyCascadingFields L rd W header parents e"
proof -
  have eq: "(do { (x, e) \<leftarrow> verifySigner L rd V header parents e;
          (case x of Some y \<Rightarrow> ret (Some y, e) | None \<Rightarrow> verifyCommittedSeals L rd V header parents e) }) =
        (do { (x, e) \<leftarrow> verifySigner L rd W header parents e;
          (case x of Some y \<Rightarrow> ret (Some y, e) | None \<Rightarrow> verifyCommittedSeals L rd W header parents e) })"
  proof (cases "verifySigner L rd V header parents e")
    case None
    with verifySigner_cong [OF assms] show ?thesis by simp
  next
    case (Some r)
    obtain x e1 where r: "r = (x, e1)" by force
    have "genesisHeight e1 = genesisHeight e" by (rule verifySigner_height [OF assms(1) Some [unfolded r]])
    with assms have "verifyCommittedSeals L rd V header parents e1 = verifyCommittedSeals L rd W header parents e1"
      by (intro verifyCommittedSeals_cong) simp_all
    with Some verifySigner_cong [OF assms, of L header parents] show ?thesis by (cases x) (simp_all add: r)
  qed
  show ?thesis unfolding verifyCascadingFields_def eq ..
qed

lemma verifyHeader_depth:
  assumes "reader_ok rd"
  shows "verifyHeader (Suc (Suc n)) L rd header parents e = verifyHeader 2 L rd header parents e"
proof -
  have eq: "verifyCascadingFields L rd (\<lambda>h. verifyHeader (Suc n) L rd h []) header parents e =
      verifyCascadingFields L rd (\<lambda>h. verifyHeader (Suc 0) L rd h []) header parents e"
    by (intro verifyCascadingFields_cong verifyHeader_genesis_aware assms)
  show ?thesis unfolding numeral_2_eq_2 verifyHeader.simps(2) [of "Suc _"] eq ..
qed

section \<open>Headers are reversed\<close>

lemma length_swaps [simp]: "length (fold swapEnds ks xs) = length xs"
  by (induction ks arbitrary: xs) (simp_all add: swapEnds_def)

lemma swaps_nth:
  assumes "k \<le> length xs div 2" "j < length xs"
  shows "fold swapEnds [0..<k] xs ! j = (if j < k \<or> length xs - 1 - j < k then xs ! (length xs - 1 - j) else xs ! j)"
  using assms
proof (induction k arbitrary: j)
  case (Suc k)
  let ?n = "length xs"
  define ys where "ys = fold swapEnds [0..<k] xs"
  have len: "length ys = ?n" by (simp add: ys_def)
  have k: "k < ?n" "?n - 1 - k < ?n" "k \<noteq> ?n - 1 - k" using Suc.prems(1) by auto
  have IH: "ys ! i = (if i < k \<or> ?n - 1 - i < k then xs ! (?n - 1 - i) else xs ! i)" if "i < ?n" for i
    unfolding ys_def using Suc.IH [OF _ that] Suc.prems(1) by simp
  have "fold swapEnds [0..<Suc k] xs ! j = swapEnds k ys ! j" by (simp add: ys_def)
  also have "\<dots> = (if j = ?n - 1 - k then ys ! k else if j = k then ys ! (?n - 1 - k) else ys ! j)"
    using Suc.prems k by (simp add: swapEnds_def len nth_list_update)
  also have "\<dots> = (if j < Suc k \<or> ?n - 1 - j < Suc k then xs ! (?n - 1 - j) else xs ! j)"
  proof -
    consider "j = ?n - 1 - k" | "j = k" | "j \<noteq> k" "j \<noteq> ?n - 1 - k" by blast
    then show ?thesis
    proof cases
      case 1
      then have "?n - 1 - j = k" using k by simp
      moreover have "ys ! k = xs ! k" using IH [OF k(1)] Suc.prems(1) by auto
      ultimately show ?thesis using 1 by simp
    next
      case 2
      have "ys ! (?n - 1 - k) = xs ! (?n - 1 - k)" using IH [OF k(2)] Suc.prems(1) by auto
      with 2 k show ?thesis by simp
    next
      case 3
      then have "(j < Suc k \<or> ?n - 1 - j < Suc k) \<longleftrightarrow> (j < k \<or> ?n - 1 - j < k)"
        using Suc.prems(2) by (auto simp: less_Suc_eq)
      with 3 IH [OF Suc.prems(2)] show ?thesis by simp
    qed
  qed
  finally show ?case .
qed simp

lemma reverseHeaders_rev: "reverseHeaders xs = rev xs"
proof (rule nth_equalityI)
  show "length (reverseHeaders xs) = length (rev xs)" by (simp add: reverseHeaders_def)
  fix j
  assume "j < length (reverseHeaders xs)"
  then have j: "j < length xs" by (simp add: reverseHeaders_def)
  have "reverseHeaders xs ! j =
      (if j < length xs div 2 \<or> length xs - 1 - j < length xs div 2 then xs ! (length xs - 1 - j) else xs ! j)"
    unfolding reverseHeaders_def by (rule swaps_nth) (simp_all add: j)
  moreover have "length xs - 1 - j = j" if "\<not> (j < length xs div 2 \<or> length xs - 1 - j < length xs div 2)"
    using that j by linarith
  ultimately show "reverseHeaders xs ! j = rev xs ! j" using j by (auto simp: rev_nth)
qed


section \<open>A snapshot from the database\<close>

lemma loadSnapshot_bare:
  assumes "loadSnapshot L epoch db hash st = (Inr r, st')"
  shows "\<exists>s. getSnap st' r = Some s \<and> snValSet s = None \<and> \<not> snLog s"
  using assms
  by (auto simp: loadSnapshot_def unmarshalSnapshot_def allocSnap_def getSnap_def split: option.splits sum.splits)

text \<open>A known snapshot is returned as it is.\<close>

lemma snapshot_known:
  assumes "knownSnapshot L height hash e = (Some r, e1)" "getSnap (theStore e1) r = Some s"
  shows "snapshot L rd V height hash parents e =
    Some (Inr r, e1\<lparr>recentSnapshotCache := arcAdd (snHash s) r (recentSnapshotCache e1)\<rparr>)"
  using assms by (simp add: snapshot_def gather.simps [of L rd V height] reverseHeaders_rev Apply_def)

lemma ecrecover_Inr:
  assumes "RecoverId L (hashBytes (clLib L) (headerHashNoSign L h)) (hSignature h) = Inr x"
  obtains y e' where "ecrecover L h e = (Inr y, e')" "theStore e' = theStore e"
proof -
  have "\<exists>y. fst (ecrecover L h e) = Inr y" "theStore (snd (ecrecover L h e)) = theStore e"
    using assms by (simp_all add: ecrecover_def GetSignatureValidator_def Let_def arcGet_def split: option.splits)
  with that show thesis by (cases "ecrecover L h e") auto
qed

section \<open>Options\<close>

definition exported :: "engineOption ptr \<Rightarrow> bool" where
  "exported opt \<longleftrightarrow> opt = None \<or> (\<exists>x. opt = Some (WithConfig x)) \<or> (\<exists>x. opt = Some (WithNodeKey x)) \<or>
     (\<exists>x. opt = Some (WithBroadcaster x)) \<or> (\<exists>x. opt = Some (WithBlockReader x)) \<or>
     (\<exists>x. opt = Some (WithDatabaseReader x)) \<or> (\<exists>x. opt = Some (WithKVDB x))"

lemmas option_defs = WithConfig_def WithNodeKey_def WithBroadcaster_def WithBlockReader_def
  WithDatabaseReader_def WithKVDB_def

lemma exported_keeps_apis:
  assumes "exported (Some opt)" "opt d = Inr d'"
  shows "dApis d' = dApis d"
  using assms by (auto simp: exported_def option_defs)

lemma applyOptions_keeps_apis:
  assumes "\<forall>opt \<in> set opts. exported opt" "applyOptions opts d = Inr d'"
  shows "dApis d' = dApis d"
  using assms
proof (induction opts d rule: applyOptions.induct)
  case (3 opt opts d)
  then show ?case by (auto split: sum.splits dest: exported_keeps_apis)
qed simp_all

section \<open>An engine for the witnesses\<close>

definition exConfig :: PBFTConfig where
  "exConfig = \<lparr>cfgEpoch = 5, cfgRequestTimeout = 0, cfgBlockPeriod = 0, cfgProposerPolicy = RoundRobin,
     cfgManagers = [1], cfgValidators = [''b'', ''a'']\<rparr>"

definition exReader :: reader where
  "exReader = \<lparr>GetHeader = (\<lambda>h n. if unat n < 9 then Some (exHeader n []) else None),
     GetHeaderByNumber = (\<lambda>n. if unat n < 9 then Some (exHeader n []) else None),
     CurrentBlock = Some (exBlock 3), CurrentTime = 8000\<rparr>"

definition exEngine :: "kv \<Rightarrow> pbftEngine" where
  "exEngine db = \<lparr>nodeId = ''a'', selfConfig = exConfig, genesisHeight = 0, theStore = exStore, theDb = db,
     commitCh = [], proposedBlockHash = emptyHash, voteManager = newManager, recentSnapshotCache = newARC,
     recentValidatorCache = newARC\<rparr>"

definition exDb :: kv where
  "exDb = (case StoreSnap exChain exHeap (newSnapshot 5 0 100 0 [1]) [] of Some (None, db) \<Rightarrow> db | _ \<Rightarrow> [])"

lemma exChain_recover: "RecoverId exChain b (Some [97]) = Inr ''a''"
proof -
  have "char_of (97 :: nat) = CHR ''a''" by code_simp
  then show ?thesis by (simp add: exChain_def)
qed

lemma exReader_ok: "reader_ok exReader"
  by (simp add: reader_ok_def exReader_def exHeader_def split: if_splits)

section \<open>Properties\<close>





text \<open>C17: verifying a header ends. The search for a snapshot and header verification call each other
  only for the genesis header; with a reader that returns the block it is asked for, every bound
  on the depth of the recursion from two on gives the same result.\<close>

theorem header_verification_depth:
  assumes "reader_ok rd" "2 \<le> n"
  shows "verifyHeader n L rd header [] e = VerifyHeader L rd header e"
proof -
  from assms(2) obtain m where "n = Suc (Suc m)" by (metis add_2_eq_Suc le_iff_add)
  with verifyHeader_depth [OF assms(1), of m L header "[]" e] show ?thesis by (simp only: VerifyHeader_def)
qed

theorem header_verification_depth_witness:
  "verifyHeader 1000 exChain exReader (exHeader 1 [97, 98]) [] (exEngine []) =
     VerifyHeader exChain exReader (exHeader 1 [97, 98]) (exEngine []) \<and>
   map_option fst (VerifyHeader exChain exReader (exHeader 1 [97, 98]) (exEngine [])) = Some None"
proof
  show "verifyHeader 1000 exChain exReader (exHeader 1 [97, 98]) [] (exEngine []) =
      VerifyHeader exChain exReader (exHeader 1 [97, 98]) (exEngine [])"
    by (rule header_verification_depth [OF exReader_ok]) simp
  show "map_option fst (VerifyHeader exChain exReader (exHeader 1 [97, 98]) (exEngine [])) = Some None" by code_simp
qed

text \<open>C22: a snapshot read back from the database is not usable. When the snapshot of the parent is
  found in the database and not in the cache, checking the signer of a block ends in a panic: the
  validator set of the snapshot is nil.\<close>

theorem restored_snapshot_panics:
  assumes "hHeight header \<noteq> genesisHeight e" "(hHeight header - 1) mod checkpointInterval = 0"
    "\<not> arcHitHash (clLib L) memorySnapshotsLen (arcOps (recentSnapshotCache e)) (hParentHash header)"
    "loadSnapshot L (cfgEpoch (selfConfig e)) (theDb e) (hParentHash header) (theStore e) = (Inr r, st')"
    "RecoverId L (hashBytes (clLib L) (headerHashNoSign L header)) (hSignature header) = Inr x"
  shows "verifySigner L rd V header parents e = None"
proof -
  from loadSnapshot_bare [OF assms(4)] obtain s where s: "getSnap st' r = Some s" "snValSet s = None" by blast
  from assms(2-4) obtain e1 where "knownSnapshot L (hHeight header - 1) (hParentHash header) e = (Some r, e1)"
    and st: "theStore e1 = st'"
    by (simp add: knownSnapshot_def arcGet_def)
  from snapshot_known [OF this(1), of s rd V parents] s(1) st obtain e2
    where snap: "snapshot L rd V (hHeight header - 1) (hParentHash header) parents e = Some (Inr r, e2)"
    and st2: "theStore e2 = st'" by simp
  obtain y e3 where "ecrecover L header e2 = (Inr y, e3)" "theStore e3 = theStore e2"
    by (rule ecrecover_Inr [OF assms(5)])
  with s st2 snap assms(1) show ?thesis by (simp add: verifySigner_def snapValidators_def derefSet_def)
qed

theorem restored_snapshot_panics_witness:
  "verifySigner exChain exReader (\<lambda>h. verifyHeader 1 exChain exReader h []) (exHeader 1 [97, 98]) [] (exEngine exDb) = None"
proof -
  have "(case loadSnapshot exChain (cfgEpoch (selfConfig (exEngine exDb))) (theDb (exEngine exDb))
      (hParentHash (exHeader 1 [97, 98])) (theStore (exEngine exDb)) of (Inr r, _) \<Rightarrow> r = 1 | _ \<Rightarrow> False)" by code_simp
  then obtain st' where "loadSnapshot exChain (cfgEpoch (selfConfig (exEngine exDb))) (theDb (exEngine exDb))
      (hParentHash (exHeader 1 [97, 98])) (theStore (exEngine exDb)) = (Inr 1, st')" by (auto split: prod.splits sum.splits)
  note load = this
  let ?h = "exHeader 1 [97, 98]" and ?e = "exEngine exDb"
  have "hHeight ?h \<noteq> genesisHeight ?e" "(hHeight ?h - 1) mod 1024 = 0"
    "RecoverId exChain (hashBytes (clLib exChain) (headerHashNoSign exChain ?h)) (hSignature ?h) = Inr ''a''"
    by (simp_all add: exHeader_def exEngine_def exChain_recover)
  moreover have "\<not> arcHitHash (clLib exChain) 128 (arcOps (recentSnapshotCache ?e)) (hParentHash ?h)"
    by (simp add: exChain_def exLib_def exEngine_def newARC_def)
  ultimately show ?thesis using load by (intro restored_snapshot_panics)
qed




text \<open>C32: the constructor never returns an engine. None of the exported options sets the API registry, on
  which \<open>NewConsensus\<close> calls \<open>RegisterAPI\<close> once everything else has gone well.\<close>

theorem engine_cannot_be_built:
  assumes "\<forall>opt \<in> set opts. exported opt"
  shows "NewConsensus opts \<noteq> Some (Inr r)"
proof (cases "applyOptions opts noDeps")
  case (Inr d)
  from applyOptions_keeps_apis [OF assms Inr] have "\<not> dApis d" by (simp add: noDeps_def)
  with Inr show ?thesis
    by (auto simp: NewConsensus_def elim!: bind_SomeE split: sum.splits option.splits if_splits)
qed (simp add: NewConsensus_def)

theorem engine_cannot_be_built_witness:
  "NewConsensus [Some (WithConfig (Some (0, ''pbft'', Some exConfig))), Some (WithBlockReader True),
     Some (WithDatabaseReader True), Some (WithNodeKey (Some (Inr ''a''))), Some (WithKVDB True)] = None"
proof -
  let ?opts = "[Some (WithConfig (Some (0, ''pbft'', Some exConfig))), Some (WithBlockReader True),
     Some (WithDatabaseReader True), Some (WithNodeKey (Some (Inr ''a''))), Some (WithKVDB True)]"
  have "\<forall>opt \<in> set ?opts. exported opt" by (auto simp: exported_def)
  from engine_cannot_be_built [OF this] have "\<forall>r. NewConsensus ?opts \<noteq> Some (Inr r)" by blast
  moreover have "\<forall>x. NewConsensus ?opts \<noteq> Some (Inl x)"
    by (simp add: NewConsensus_def noDeps_def option_defs EqualFold_def)
  ultimately show ?thesis by (metis not_None_eq sum.exhaust)
qed



end
