(* ===== verification/Spec2Isabelle.thy ===== *)
theory Spec2Isabelle
  imports Pbft_Fork Pbft_Validity Pbft_Rlp Pbft_Queues Pbft_Total Pbft_Phases Pbft_EngineFacts
begin

text \<open>
  A verification development of chain5j-pbft, a PBFT consensus engine in Go.

  \<^bold>\<open>The program.\<close> A node has a \<^emph>\<open>core\<close> (src/core), which runs the protocol, and an \<^emph>\<open>engine\<close>
  around it (src/engine.go, src/pbft.go), which connects it to the chain. The core is a loop
  over channels: it handles requests, messages of other validators, messages of its own,
  backlogged messages, timeouts and the news of a final commit. In a view (a height and a round)
  the proposer sends a pre-prepare, validators answer with prepares, lock the proposal when
  enough have come in, send commits, and hand the proposal with the seals of the commits to the
  engine; timeouts and conflicting locks lead to round changes. The engine verifies headers and
  seals, offers the committed block to the sealing that waits for it, and answers the core's
  questions about the chain. Who the validators and managers are follows from votes in the
  headers, counted in snapshots (src/snapshot.go, src/manange.go), which managers cast through an
  RPC interface (src/api.go).

  \<^bold>\<open>The theories.\<close>
  \<^item> \<open>Pbft_Prelude\<close>: Go values (nil and panics as \<open>option\<close>, 64-bit words, big integers, maps that may
    be nil) and shared lemmas.
  \<^item> \<open>Pbft_Protocol\<close> (src/protocol): views, proposals, message bodies, phases, errors, and \<open>lib\<close>, the
    third-party functions the core calls. \<open>Pbft_MessageSet\<close> (message\<^verbatim>\<open>_\<close>set.go): one message per validator.
  \<^item> \<open>Pbft_Validator\<close> (src/validator): the validator set, its contract \<open>validator_registry\<close> and the two
    proposer policies. \<open>Pbft_Quorum\<close>: the threshold of src/core/utils.go and the contract
    \<open>quorum_system\<close> that the agreement argument needs.
  \<^item> \<open>Pbft_RoundState\<close> (roundstate.go and the round-change set of round.go): state and tallies of a round.
  \<^item> \<open>Pbft_Core\<close> (the rest of src/core): the record \<open>core\<close> and one definition per function and handler.
    \<open>Pbft_CoreFrame\<close>, \<open>Pbft_CoreInv\<close> and \<open>Pbft_Progress\<close> show what each handler leaves alone, that it keeps
    the invariant \<open>core_inv\<close>, and that it never takes the view back.
  \<^item> \<open>Pbft_Rlp\<close> (the RLP methods of src/protocol/types.go and roundstate.go): from the documented behaviour of
    the RLP library follows what the core needs of its codec.
  \<^item> \<open>Pbft_Loop\<close>: the loop as the step relation \<open>core_step_on\<close>, with the environment chosen anew at each
    step and the bytes from the network restricted by a predicate (\<open>core_step\<close>: not at all); locales for
    invariants, justified logs and ranked logs, interpreted on it. \<open>Pbft_Total\<close>:
    no reachable state panics. \<open>Pbft_Phases\<close>: the handlers branch by branch. \<open>Pbft_Queues\<close>: requests and
    backlog. \<open>Pbft_Validity\<close>: what is committed was verified. \<open>Pbft_Example\<close> and \<open>Pbft_Run\<close>: a concrete
    environment, scripts of inputs, and a run that commits a block.
  \<^item> \<open>Pbft_Provenance\<close>: where the commit messages a core counts, posts or defers come from. \<open>Pbft_Network\<close>: several
    nodes and an unreliable network in which the messages of honest validators cannot be made up; agreement
    in a view. \<open>Pbft_Fork\<close>: two scripted runs of four honest validators, one in which two of them commit
    the same block, and one in which blocks of different rounds of a height are committed.
  \<^item> \<open>Pbft_Votes\<close> (src/types.go, src/manange.go): votes, tallies, and the changes they decide.
    \<open>Pbft_Snapshot\<close> (src/snapshot.go): snapshots in a store, as two of them may share a validator set;
    \<open>chainLib\<close>, the third-party functions of the engine.
  \<^item> \<open>Pbft_Engine\<close> (src/engine.go, src/pbft.go, src/api.go, src/options.go): header verification, the
    search for a snapshot, sealing, the backend functions, the RPC interface and the constructor.
    \<open>Pbft_EngineFacts\<close>: what they guarantee and where they fail.

  \<^bold>\<open>What is shown.\<close> Whatever a node commits has a certificate of distinct validators for that view and has
  passed verification; two honest nodes of a network that commit in the same view commit the same block when the
  threshold is a quorum, but not in different rounds of a height; a node commits at most once per view and its
  views only grow, its states are well formed, no input makes a started core panic, a quorum of round changes takes effect, and each phase
  counts every validator once. For the engine: which seals a header may carry, that a
  certificate of the core is among them, that header verification ends, that votes decide by
  majority, that consensus data and snapshots survive encoding. Several theorems state how the
  code departs from what it means to do; the manifest lists them as findings.

  \<^bold>\<open>Bounds.\<close> Loops are structural or have a measure (the length of a queue, the height of a block), so
  that no fuel is needed, with one exception: \<open>verifyHeader\<close> has a bound on the depth of its recursion
  through \<open>snapshot\<close>; depth two is enough when the block reader returns the block it is asked for
  (\<open>header_verification_depth\<close>). Heights are 64-bit words and wrap; theorems about the order of views say
  where they need heights below \<open>2 ^ 63\<close>.

  \<^bold>\<open>Third-party code\<close> (codecs, hashes, keys, caches, priority queue, database, block reader, broadcaster) is a
  field of \<open>lib\<close>, \<open>chainLib\<close>, \<open>reader\<close> or \<open>env\<close>; what a theorem needs of it is a named hypothesis
  (\<open>hash_ok\<close>, \<open>codec_ok\<close>, \<open>decode_allocates\<close>, \<open>rlp_ok\<close>, \<open>prque_ok\<close>, \<open>consensus_codec_ok\<close>, \<open>snap_codec_ok\<close>, \<open>kv_ok\<close>,
  \<open>reader_ok\<close>), shown to hold of the example.

  \<^bold>\<open>Not modelled.\<close> Logging; the wire formats, which are those of the libraries; mutexes (every function runs as a whole, and the
  interleaving of goroutines is that of their channel operations); interface declarations, whose methods are
  modelled where they are implemented; generated mocks and tests. The
  core sees its backend as functions fixed during a step; the store and the caches of the engine are not threaded
  through the core.
\<close>

section \<open>Safety of the running engine\<close>

text \<open>C1: whatever an engine that was started and has run for a while has handed to
  \<open>backend.Commit\<close>, it handed over in a state of the run whose view is the one recorded, with
  the seals of commit messages of distinct current validators, enough of them for the
  threshold, all carrying that view and the hash of the proposal.\<close>

theorem committed_has_certificate:
  assumes "started L x c0" "(core_step (runs L))\<^sup>*\<^sup>* c0 c" "(v, p, seals) \<in> set (committed c)"
  shows "\<exists>c1 c2 vs ms. (core_step (runs L))\<^sup>*\<^sup>* c0 c1 \<and> core_step (runs L) c1 c2 \<and>
    (core_step (runs L))\<^sup>*\<^sup>* c2 c \<and> committed c2 = committed c1 @ [(v, p, seals)] \<and>
    valSet c1 = Some vs \<and> currentView c1 = Some v \<and> seals = map CommittedSeal ms \<and>
    commit_cert L vs \<lparr>sbView = Some v, Digest = PHash p\<rparr> ms"
  using engine.log_justified [OF assms] by (fastforce simp: commit_justified_def)

theorem committed_has_certificate_witness:
  "\<exists>c c1 c2 vs ms. (core_step (runs exLib))\<^sup>*\<^sup>* exStart c \<and> core_step (runs exLib) c1 c2 \<and>
    committed c2 = committed c1 @ [(mkView 5 0, exBlock 5, [Some [7]])] \<and> valSet c1 = Some vs \<and>
    commit_cert exLib vs \<lparr>sbView = Some (mkView 5 0), Digest = PHash (exBlock 5)\<rparr> ms"
proof -
  obtain c where c: "(core_step (runs exLib))\<^sup>*\<^sup>* exStart c"
      "(mkView 5 0, exBlock 5, [Some [7]]) \<in> set (committed c)"
    by (rule ex_commit) auto
  from committed_has_certificate [OF exStart_started this] c(1) show ?thesis by blast
qed

text \<open>C3: an engine never hands two proposals to the backend in the same view: the views of its
  commits are strictly increasing, by sequence and then by round.\<close>

theorem one_commit_per_view:
  assumes "started L x c0" "(core_step (runs L))\<^sup>*\<^sup>* c0 c"
  shows "sorted_wrt (<) (map (\<lambda>(v, p, seals). view_pos v) (committed c))"
  using engine.marks_increase [OF assms] .

theorem one_commit_per_view_witness:
  "\<exists>c. (core_step (runs exLib))\<^sup>*\<^sup>* exStart c \<and> length (committed c) = 1 \<and>
     sorted_wrt (<) (map (\<lambda>(v, p, seals). view_pos v) (committed c))"
proof -
  obtain c where c: "(core_step (runs exLib))\<^sup>*\<^sup>* exStart c"
      "committed c = [(mkView 5 0, exBlock 5, [Some [7]])]"
    by (rule ex_commit) auto
  from one_commit_per_view [OF exStart_started c(1)] c show ?thesis by auto
qed



end
